(* ===== verification/Prelude.thy ===== *)
theory Prelude
  imports Complex_Main "HOL-Library.Word" "HOL-Library.While_Combinator"
begin

text \<open>
  Shared ground of the development: the machine integer types of the Rust source, the ways in
  which a Rust computation stops abnormally, results as a sum type, and the general facts on
  lists, bytes and words that the component theories use.

  The repository is built with \<^verbatim>\<open>cargo build --release\<close> (Makefile, Dockerfile), where integer
  overflow wraps around: \<^typ>\<open>'a word\<close> arithmetic is that arithmetic.
\<close>

unbundle bit_operations_syntax

section \<open>Machine types\<close>

type_synonym u8 = "8 word"
type_synonym u16 = "16 word"
type_synonym u32 = "32 word"
type_synonym u64 = "64 word"
type_synonym i32 = "32 word"

section \<open>Abnormal termination\<close>

text \<open>
  Every \<^verbatim>\<open>panic!\<close>, failed \<^verbatim>\<open>assert!\<close>, \<^verbatim>\<open>unwrap\<close> of nothing, bounds check and runtime borrow
  check of the source is one of these values, and so is a raw-pointer access outside its object
  (undefined behaviour, which the source does not check). \<open>Diverged\<close> is the result of a loop that
  does not end.
\<close>

datatype panic =
    Link_underflow
  | Null_pointer
  | Index_out_of_bounds
  | Out_of_bounds_read
  | Freelist_overflow
  | Packet_allocation_overflow
  | Queue_underflow
  | Queue_overflow
  | Expected_packet
  | Assertion_failed string
  | Unwrap_none
  | Unwrap_err
  | Already_borrowed
  | Link_parse_error string
  | Not_implemented
  | Diverged

type_synonym 'a res = "panic + 'a"

definition bindR :: "'a res \<Rightarrow> ('a \<Rightarrow> 'b res) \<Rightarrow> 'b res" where
  "bindR r f = (case r of Inl e \<Rightarrow> Inl e | Inr x \<Rightarrow> f x)"

named_theorems res_simps \<open>rewriting of results\<close>

lemma bindR_simps [simp, res_simps]:
  "bindR (Inl e) f = Inl e"
  "bindR (Inr x) f = f x"
  by (simp_all add: bindR_def)

lemma bindR_eq_Inr [res_simps]: "bindR r f = Inr y \<longleftrightarrow> (\<exists>x. r = Inr x \<and> f x = Inr y)"
  by (cases r) simp_all

lemma bindR_eq_Inl [res_simps]:
  "bindR r f = Inl e \<longleftrightarrow> r = Inl e \<or> (\<exists>x. r = Inr x \<and> f x = Inl e)"
  by (cases r) simp_all

lemma bindR_split:
  "P (bindR r f) \<longleftrightarrow> (\<forall>e. r = Inl e \<longrightarrow> P (Inl e)) \<and> (\<forall>x. r = Inr x \<longrightarrow> P (f x))"
  by (cases r) simp_all

text \<open>\<^verbatim>\<open>Option::unwrap\<close>.\<close>

definition unwrap :: "'a option \<Rightarrow> 'a res" where
  "unwrap x = (case x of None \<Rightarrow> Inl Unwrap_none | Some y \<Rightarrow> Inr y)"

lemma unwrap_simps [simp, res_simps]:
  "unwrap None = Inl Unwrap_none"
  "unwrap (Some y) = Inr y"
  by (simp_all add: unwrap_def)

section \<open>Loops\<close>

text \<open>
  \<^verbatim>\<open>while b { c }\<close> over an explicit state: the body may panic, which ends the loop, and a loop that
  never ends has the value \<open>Inl Diverged\<close>, so that a theorem that a loop returns is a theorem about
  its value.
\<close>

definition loopR :: "('s \<Rightarrow> bool) \<Rightarrow> ('s \<Rightarrow> 's res) \<Rightarrow> 's \<Rightarrow> 's res" where
  "loopR b c s =
     (case while_option (\<lambda>r. case r of Inl e \<Rightarrow> False | Inr s \<Rightarrow> b s) (\<lambda>r. bindR r c) (Inr s) of
        None \<Rightarrow> Inl Diverged
      | Some r \<Rightarrow> r)"

lemma loopR_unfold: "loopR b c s = (if b s then bindR (c s) (loopR b c) else Inr s)"
proof (cases "b s")
  case True
  let ?b = "\<lambda>r. case r of Inl e \<Rightarrow> False | Inr s \<Rightarrow> b s" and ?c = "\<lambda>r. bindR r c"
  have "while_option ?b ?c (Inr s) = while_option ?b ?c (c s)"
    using True by (subst while_option_unfold) simp
  moreover have "while_option ?b ?c (Inl e) = Some (Inl e)" for e
    by (subst while_option_unfold) simp
  ultimately show ?thesis
    using True by (cases "c s") (simp_all add: loopR_def)
next
  case False
  then show ?thesis
    by (simp add: loopR_def while_option_unfold)
qed

lemma loopR_stop [simp]: "\<not> b s \<Longrightarrow> loopR b c s = Inr s"
  by (simp add: loopR_unfold)

lemma loopR_step [simp]: "b s \<Longrightarrow> loopR b c s = bindR (c s) (loopR b c)"
  by (simp add: loopR_unfold [of b c s])

text \<open>Total correctness: an invariant and a measure that the body decreases.\<close>

lemma loopR_rule:
  assumes "P s"
    and "\<And>s. P s \<Longrightarrow> b s \<Longrightarrow> \<exists>s'. c s = Inr s' \<and> P s' \<and> (m s' :: nat) < m s"
  shows "\<exists>t. loopR b c s = Inr t \<and> P t \<and> \<not> b t"
  using assms(1)
proof (induction "m s" arbitrary: s rule: less_induct)
  case less
  show ?case
  proof (cases "b s")
    case True
    then obtain s' where s': "c s = Inr s'" "P s'" "m s' < m s"
      using assms(2) less.prems by blast
    with less.hyps [OF s'(3,2)] True show ?thesis by simp
  next
    case False
    then show ?thesis using less.prems by simp
  qed
qed

text \<open>Partial correctness: what holds if the loop returns.\<close>

lemma loopR_inv:
  assumes "loopR b c s = Inr t" and "P s" and "\<And>s s'. P s \<Longrightarrow> b s \<Longrightarrow> c s = Inr s' \<Longrightarrow> P s'"
  shows "P t \<and> \<not> b t"
proof -
  let ?b = "\<lambda>r. case r of Inl e \<Rightarrow> False | Inr s \<Rightarrow> b s" and ?P = "\<lambda>r. case r of Inl e \<Rightarrow> True | Inr s \<Rightarrow> P s"
  obtain r where r: "while_option ?b (\<lambda>r. bindR r c) (Inr s) = Some r" "r = Inr t"
    using assms(1) by (auto simp: loopR_def split: option.splits)
  have "?P r"
    by (rule while_option_rule [OF _ r(1)]) (use assms(2,3) in \<open>auto simp: bindR_def split: sum.splits\<close>)
  moreover have "\<not> ?b r" by (rule while_option_stop [OF r(1)])
  ultimately show ?thesis by (simp add: r(2))
qed

text \<open>A loop over the elements of a list, with a body that may panic.\<close>

fun foldR :: "('a \<Rightarrow> 's \<Rightarrow> 's res) \<Rightarrow> 'a list \<Rightarrow> 's \<Rightarrow> 's res" where
  "foldR f [] s = Inr s"
| "foldR f (x # xs) s = bindR (f x s) (foldR f xs)"

lemma foldR_append: "foldR f (xs @ ys) s = bindR (foldR f xs s) (foldR f ys)"
  by (induction xs arbitrary: s) (auto simp: bindR_def split: sum.splits)

section \<open>Words\<close>

named_theorems word_nat \<open>words read as natural numbers\<close>

lemma unat_lt_pow: "unat (a :: 'a::len word) < 2 ^ LENGTH('a)"
  by (rule unsigned_less)

lemma unat_u8_lt [simp]: "unat (b :: u8) < 256"
  using unat_lt_pow [of b] by simp

lemma unat_u16_lt [simp]: "unat (b :: u16) < 65536"
  using unat_lt_pow [of b] by simp

lemma unat_u32_lt [simp]: "unat (b :: u32) < 4294967296"
  using unat_lt_pow [of b] by simp

lemma unat_u64_lt [simp]: "unat (b :: u64) < 18446744073709551616"
  using unat_lt_pow [of b] by simp

lemma unat_plus_mod [word_nat]:
  "unat (a + b :: 'a::len word) = (unat a + unat b) mod 2 ^ LENGTH('a)"
  by (simp add: unat_word_ariths)

lemma unat_of_nat_mod [word_nat]: "unat (of_nat n :: 'a::len word) = n mod 2 ^ LENGTH('a)"
  by (simp add: unat_of_nat take_bit_eq_mod)

lemma unat_of_nat_small: "n < 2 ^ LENGTH('a) \<Longrightarrow> unat (of_nat n :: 'a::len word) = n"
  by (simp add: unat_of_nat_mod)

lemma unat_ucast_mod [word_nat]:
  "unat (ucast a :: 'b::len word) = unat (a :: 'a::len word) mod 2 ^ LENGTH('b)"
  by (simp add: unsigned_ucast_eq unsigned_take_bit_eq take_bit_eq_mod)

lemma unat_ucast_up:
  assumes "LENGTH('a) \<le> LENGTH('b)"
  shows "unat (ucast a :: 'b::len word) = unat (a :: 'a::len word)"
proof -
  have "(2 :: nat) ^ LENGTH('a) \<le> 2 ^ LENGTH('b)"
    using assms by (rule power_increasing) simp
  with unat_lt_pow [of a] have "unat a < 2 ^ LENGTH('b)"
    by (rule less_le_trans)
  then show ?thesis by (simp add: unat_ucast_mod)
qed

lemma unat_drop_bit_div [word_nat]:
  "unat (drop_bit n a :: 'a::len word) = unat a div 2 ^ n"
  by (subst unat_drop_bit_eq) (rule drop_bit_eq_div)

lemma unat_not_eq [word_nat]: "unat (NOT a :: 'a::len word) = 2 ^ LENGTH('a) - 1 - unat a"
proof -
  have "NOT a = - 1 - a"
    by (simp add: not_eq_complement)
  then have "unat (NOT a) = unat (- 1 :: 'a word) - unat a"
    by (simp add: unat_sub)
  then show ?thesis
    by (simp add: unsigned_minus_1_eq_mask mask_eq_exp_minus_1)
qed

lemma word_eq_unatI: "unat a = unat b \<Longrightarrow> a = b"
  by (simp add: word_unat_eq_iff)

section \<open>Bytes\<close>

text \<open>
  The number a byte string stands for, with its first byte the least (little endian) or the most
  significant one (big endian, the order on the network).
\<close>

fun le_nat :: "u8 list \<Rightarrow> nat" where
  "le_nat [] = 0"
| "le_nat (b # bs) = unat b + 256 * le_nat bs"

definition be_nat :: "u8 list \<Rightarrow> nat" where
  "be_nat bs = le_nat (rev bs)"

lemma le_nat_append: "le_nat (xs @ ys) = le_nat xs + 256 ^ length xs * le_nat ys"
  by (induction xs) (simp_all add: algebra_simps)

lemma le_nat_lt: "le_nat bs < 256 ^ length bs"
proof (induction bs)
  case (Cons b bs)
  have "unat b + 256 * le_nat bs < 256 + 256 * le_nat bs"
    by simp
  also have "\<dots> \<le> 256 * 256 ^ length bs"
    using Cons by simp
  finally show ?case by simp
qed simp

end
