(* ===== verification/Lib.thy ===== *)
theory Lib
  imports Prelude
begin

text \<open>
  \<^verbatim>\<open>rush/src/lib.rs\<close>: filling and copying byte slices, alignment, byte order conversion, and the
  printing of numbers with thousands separators. The byte order functions are those of a
  little-endian target (x86_64 and aarch64, the two the checksum module supports).
\<close>

section \<open>Slices\<close>

definition fill :: "u8 list \<Rightarrow> nat \<Rightarrow> u8 \<Rightarrow> u8 list" where
  "fill dst len val = (let n = min len (length dst) in replicate n val @ drop n dst)"

definition copy :: "u8 list \<Rightarrow> u8 list \<Rightarrow> nat \<Rightarrow> u8 list" where
  "copy dst src len =
     (let n = min len (min (length src) (length dst)) in take n src @ drop n dst)"

text \<open>A remainder by zero panics; the additions wrap.\<close>

definition align :: "u64 \<Rightarrow> u64 \<Rightarrow> u64 res" where
  "align value sz =
     (if sz = 0 then Inl (Assertion_failed ''remainder by zero'')
      else if value mod sz = 0 then Inr value
      else Inr (value + sz - value mod sz))"

section \<open>Byte order\<close>

definition swap_bytes16 :: "u16 \<Rightarrow> u16" where
  "swap_bytes16 s = push_bit 8 s OR drop_bit 8 s"

definition swap_bytes32 :: "u32 \<Rightarrow> u32" where
  "swap_bytes32 l =
     push_bit 24 l OR push_bit 8 (l AND 0xff00) OR (drop_bit 8 l AND 0xff00) OR drop_bit 24 l"

definition htonl :: "u32 \<Rightarrow> u32" where "htonl l = swap_bytes32 l"
definition ntohl :: "u32 \<Rightarrow> u32" where "ntohl l = swap_bytes32 l"
definition htons :: "u16 \<Rightarrow> u16" where "htons s = swap_bytes16 s"
definition ntohs :: "u16 \<Rightarrow> u16" where "ntohs s = swap_bytes16 s"

section \<open>Numbers with thousands separators\<close>

text \<open>Rust's \<^verbatim>\<open>format!("{}", n)\<close> of an unsigned integer.\<close>

definition digit_char :: "nat \<Rightarrow> char" where
  "digit_char d = char_of (48 + d)"

fun dec_string :: "nat \<Rightarrow> string" where
  "dec_string n = (if n < 10 then [digit_char n] else dec_string (n div 10) @ [digit_char (n mod 10)])"

declare dec_string.simps [simp del]

text \<open>
  \<^verbatim>\<open>CVLEFTNUM\<close> is \<^verbatim>\<open>^(\d\d?\d?)(\d{3}*)$\<close>: the first group is greedy, so it takes three, two or one
  digits, the first of these counts that leaves a multiple of three. \<^verbatim>\<open>CVTHOUSANDS\<close> puts a comma after
  every three digits.
\<close>

definition cv_left :: "string \<Rightarrow> nat option" where
  "cv_left s = find (\<lambda>k. k \<le> length s \<and> (length s - k) mod 3 = 0) [3, 2, 1]"

fun cv_thousands :: "string \<Rightarrow> string" where
  "cv_thousands (a # b # c # s) = a # b # c # CHR '','' # cv_thousands s"
| "cv_thousands s = s"

definition comma_value :: "u64 \<Rightarrow> string" where
  "comma_value n =
     (let s = dec_string (unat n) in
      case cv_left s of
        None \<Rightarrow> s
      | Some k \<Rightarrow> take k s @ rev (cv_thousands (rev (drop k s))))"

definition digit :: "char \<Rightarrow> bool" where
  "digit c = (let n = of_char c :: nat in 48 \<le> n \<and> n \<le> 57)"

text \<open>The value of a string of digits.\<close>

definition dec_value :: "string \<Rightarrow> nat" where
  "dec_value ds = foldl (\<lambda>n d. 10 * n + (of_char d - 48)) (0 :: nat) ds"

section \<open>Random bytes\<close>

text \<open>
  \<open>getrandom\<close> is the system call: how many bytes it wrote, and which.
\<close>

definition random_bytes :: "(nat \<Rightarrow> 'n \<Rightarrow> int \<times> u8 list \<times> 'n) \<Rightarrow> u8 list \<Rightarrow> nat \<Rightarrow> 'n \<Rightarrow> (u8 list \<times> 'n) res" where
  "random_bytes getrandom dst n net =
     (let n = min n (length dst);
          (r, bytes, net) = getrandom n net
      in if r \<noteq> int n then Inl (Assertion_failed ''getrandom(2) failed'') else Inr (bytes @ drop (length bytes) dst, net))"

section \<open>Properties\<close>

lemma of_char_digit_char: "d < 10 \<Longrightarrow> of_char (digit_char d) = 48 + d"
  by (simp add: digit_char_def)

lemma digit_digit_char: "d < 10 \<Longrightarrow> digit (digit_char d)"
  by (simp add: digit_def of_char_digit_char)

lemma dec_string_digits: "\<forall>c \<in> set (dec_string n). digit c"
proof (induction n rule: dec_string.induct)
  case (1 n)
  then show ?case by (subst dec_string.simps) (auto simp: digit_digit_char)
qed

lemma dec_string_nonempty: "dec_string n \<noteq> []"
  by (subst dec_string.simps) simp

lemma dec_string_no_nul: "CHR 0x00 \<notin> set (dec_string n)"
  using dec_string_digits [of n] by (auto simp: digit_def)

lemma dec_value_dec_string: "dec_value (dec_string n) = n"
proof (induction n rule: dec_string.induct)
  case (1 n)
  show ?case
  proof (cases "n < 10")
    case True
    then show ?thesis by (subst dec_string.simps) (simp add: dec_value_def of_char_digit_char)
  next
    case False
    have "dec_value (dec_string n) = 10 * (n div 10) + n mod 10"
      using 1 [OF False] False by (subst dec_string.simps) (simp add: dec_value_def of_char_digit_char)
    then show ?thesis by simp
  qed
qed

lemma length_fill [simp]: "length (fill dst len val) = length dst"
  by (simp add: fill_def Let_def)

lemma nth_fill: "i < length dst \<Longrightarrow> fill dst len val ! i = (if i < len then val else dst ! i)"
  by (simp add: fill_def Let_def nth_append)

lemma length_copy [simp]: "length (copy dst src len) = length dst"
  by (simp add: copy_def Let_def)

lemma nth_copy:
  "i < length dst \<Longrightarrow>
   copy dst src len ! i = (if i < len \<and> i < length src then src ! i else dst ! i)"
  by (auto simp: copy_def Let_def nth_append)

lemma take_copy:
  assumes "n \<le> length dst" and "n \<le> length src"
  shows "take n (copy dst src n) = take n src"
  using assms by (simp add: copy_def Let_def min_def)

lemma copy_all:
  "length src = length dst \<Longrightarrow> length src \<le> len \<Longrightarrow> copy dst src len = src"
  by (simp add: copy_def Let_def min_def)

text \<open>Alignment gives the least multiple that is not below the value.\<close>

lemma unat_align:
  assumes a: "align value sz = Inr r" and b: "unat value + unat sz < 2 ^ 64"
  shows "unat sz dvd unat r" and "unat value \<le> unat r" and "unat r < unat value + unat sz"
proof -
  let ?v = "unat value" and ?s = "unat sz"
  from a have s: "sz \<noteq> 0" "0 < ?s"
    by (auto simp: align_def unat_gt_0 split: if_splits)
  have m: "unat (value mod sz) = ?v mod ?s"
    by (rule unat_mod)
  have mz: "value mod sz = 0 \<longleftrightarrow> ?v mod ?s = 0"
    using m by (metis unat_0_iff)
  have "unat r = (if ?v mod ?s = 0 then ?v else ?v + ?s - ?v mod ?s)"
  proof (cases "value mod sz = 0")
    case True
    then show ?thesis using a s mz by (simp add: align_def)
  next
    case False
    have vs: "unat (value + sz) = ?v + ?s"
      using b by (simp add: unat_word_ariths)
    have "?v mod ?s < ?s" using s(2) by simp
    then have "value mod sz \<le> value + sz"
      by (simp add: word_le_nat_alt m vs del: unat_plus_mod)
    then have "unat (value + sz - value mod sz) = ?v + ?s - ?v mod ?s"
      by (simp add: unat_sub m vs)
    then show ?thesis using a s False mz by (simp add: align_def)
  qed
  moreover have "?s dvd ?v + ?s - ?v mod ?s"
  proof -
    have "?v + ?s - ?v mod ?s = (?v - ?v mod ?s) + ?s"
      by simp
    moreover have "?s dvd (?v - ?v mod ?s) + ?s"
      by (intro dvd_add dvd_minus_mod dvd_refl)
    ultimately show ?thesis by (simp only:)
  qed
  moreover have "?v mod ?s < ?s" using s(2) by simp
  ultimately show "?s dvd unat r" and "?v \<le> unat r" and "unat r < ?v + ?s"
    by (auto split: if_splits)
qed

lemma bit_swap_bytes16:
  "bit (swap_bytes16 s) i \<longleftrightarrow> (if i < 8 then bit s (i + 8) else i < 16 \<and> bit s (i - 8))"
  using bit_imp_le_length [of s "i + 8"]
  by (auto simp: swap_bytes16_def bit_or_iff bit_push_bit_iff bit_drop_bit_eq add.commute)

lemma swap_bytes16_swap [simp]: "swap_bytes16 (swap_bytes16 s) = s"
  by (rule bit_word_eqI) (auto simp: bit_swap_bytes16)

lemma unat_swap_bytes16: "unat (swap_bytes16 s) = 256 * (unat s mod 256) + unat s div 256"
proof -
  have "swap_bytes16 s = push_bit 8 s + drop_bit 8 s"
    unfolding swap_bytes16_def
    by (rule disjunctive_add [symmetric])
      (auto simp: bit_push_bit_iff bit_drop_bit_eq dest: bit_imp_le_length)
  moreover have "unat (push_bit 8 s) = 256 * (unat s mod 256)"
    using mod_mult_mult1 [of 256 "unat s" 256]
    by (simp add: push_bit_eq_mult unat_word_ariths mult.commute)
  moreover have "unat (drop_bit 8 s) = unat s div 256"
    by (simp add: unat_drop_bit_div)
  moreover have "256 * (unat s mod 256) + unat s div 256 < 65536"
    using less_mult_imp_div_less [of "unat s" 256 256] mod_less_divisor [of 256 "unat s"]
    by simp
  ultimately show ?thesis
    by (simp add: unat_word_ariths)
qed

lemma bit_swap_bytes32:
  "bit (swap_bytes32 l) i \<longleftrightarrow>
     (if i < 8 then bit l (i + 24) else if i < 16 then bit l (i + 8)
      else if i < 24 then bit l (i - 8) else i < 32 \<and> bit l (i - 24))"
proof -
  have "(0xff00 :: u32) = push_bit 8 (mask 8)"
    by (simp add: mask_eq_exp_minus_1)
  then have m: "bit (0xff00 :: u32) j \<longleftrightarrow> 8 \<le> j \<and> j < 16" for j
    by (simp only: bit_push_bit_iff bit_mask_iff) auto
  show ?thesis
    using bit_imp_le_length [of l "i + 24"] bit_imp_le_length [of l "i + 8"]
    by (simp only: swap_bytes32_def bit_or_iff bit_and_iff bit_push_bit_iff bit_drop_bit_eq m
        o_def add.commute) auto
qed

lemma swap_bytes32_swap [simp]: "swap_bytes32 (swap_bytes32 l) = l"
  by (rule bit_word_eqI) (auto simp: bit_swap_bytes32)

lemma htons_ntohs [simp]: "htons (ntohs s) = s" "ntohs (htons s) = s"
  by (simp_all add: htons_def ntohs_def)

lemma htonl_ntohl [simp]: "htonl (ntohl l) = l" "ntohl (htonl l) = l"
  by (simp_all add: htonl_def ntohl_def)

end
