(* ===== verification/Packet.thy ===== *)
theory Packet
  imports Lib
begin

text \<open>
  \<^verbatim>\<open>rush/src/packet.rs\<close>: packets, the global freelist they are allocated from, and the statistics
  counters of \<^verbatim>\<open>rush/src/engine.rs\<close> that \<^verbatim>\<open>free\<close> maintains.

  A \<^verbatim>\<open>Box<Packet>\<close> is owned by exactly one place, so a box is modelled by the packet it points to.
  The freelist array \<^verbatim>\<open>FL.list[0..nfree]\<close> is a stack, modelled as the list of its used entries with
  the top of the stack (\<^verbatim>\<open>FL.list[nfree-1]\<close>) first; \<^verbatim>\<open>FL.nfree\<close> is its length. Packets on it keep the
  data of their last use, as in the code.
\<close>

section \<open>Data\<close>

definition PAYLOAD_SIZE :: nat where "PAYLOAD_SIZE = 65535"

record packet =
  p_length :: u16
  p_data :: "u8 list"

definition MAX_PACKETS :: nat where "MAX_PACKETS = 1000000"

record engine_stats =
  breaths :: u64
  frees :: u64
  freebits :: u64
  freebytes :: u64

text \<open>The global mutable state of \<^verbatim>\<open>packet.rs\<close> and the counters of \<^verbatim>\<open>engine.rs\<close>.\<close>

record world =
  FL :: "packet list"
  PACKETS_ALLOCATED :: nat
  PACKET_ALLOCATION_STEP :: nat
  STATS :: engine_stats

definition initial_world :: world where
  "initial_world =
     \<lparr>FL = [], PACKETS_ALLOCATED = 0, PACKET_ALLOCATION_STEP = 1000,
      STATS = \<lparr>breaths = 0, frees = 0, freebits = 0, freebytes = 0\<rparr>\<rparr>"

section \<open>Operations\<close>

definition new_packet_noroot :: packet where
  "new_packet_noroot = \<lparr>p_length = 0, p_data = replicate PAYLOAD_SIZE 0\<rparr>"

definition free_internal :: "packet \<Rightarrow> world \<Rightarrow> world res" where
  "free_internal p w =
     (if length (FL w) = MAX_PACKETS then Inl Freelist_overflow
      else Inr (w\<lparr>FL := p\<lparr>p_length := 0\<rparr> # FL w\<rparr>))"

definition bitlength :: "packet \<Rightarrow> u64" where
  "bitlength p = (12 + 8 + max (ucast (p_length p)) 60 + 4) * 8"

definition add_frees :: "world \<Rightarrow> world" where
  "add_frees w = w\<lparr>STATS := (STATS w)\<lparr>frees := frees (STATS w) + 1\<rparr>\<rparr>"

definition add_freebytes :: "u64 \<Rightarrow> world \<Rightarrow> world" where
  "add_freebytes n w = w\<lparr>STATS := (STATS w)\<lparr>freebytes := freebytes (STATS w) + n\<rparr>\<rparr>"

definition add_freebits :: "u64 \<Rightarrow> world \<Rightarrow> world" where
  "add_freebits n w = w\<lparr>STATS := (STATS w)\<lparr>freebits := freebits (STATS w) + n\<rparr>\<rparr>"

definition free :: "packet \<Rightarrow> world \<Rightarrow> world res" where
  "free p w =
     free_internal p (add_freebits (bitlength p) (add_freebytes (ucast (p_length p)) (add_frees w)))"

text \<open>The loop \<^verbatim>\<open>for _ in 0..PACKET_ALLOCATION_STEP\<close>.\<close>

fun free_new :: "nat \<Rightarrow> world \<Rightarrow> world res" where
  "free_new 0 w = Inr w"
| "free_new (Suc n) w = bindR (free_internal new_packet_noroot w) (free_new n)"

definition preallocate_step :: "world \<Rightarrow> world res" where
  "preallocate_step w =
     (if PACKETS_ALLOCATED w + PACKET_ALLOCATION_STEP w \<le> MAX_PACKETS
      then bindR (free_new (PACKET_ALLOCATION_STEP w) w) (\<lambda>w'.
             Inr (w'\<lparr>PACKETS_ALLOCATED := PACKETS_ALLOCATED w' + PACKET_ALLOCATION_STEP w',
                     PACKET_ALLOCATION_STEP := PACKET_ALLOCATION_STEP w' * 2\<rparr>))
      else Inl Packet_allocation_overflow)"

definition preallocate :: "nat \<Rightarrow> world \<Rightarrow> world res" where
  "preallocate n w = loopR (\<lambda>w. PACKETS_ALLOCATED w < n) preallocate_step w"

definition allocate :: "world \<Rightarrow> (packet \<times> world) res" where
  "allocate w =
     bindR (if FL w = [] then preallocate_step w else Inr w) (\<lambda>w.
       case FL w of
         [] \<Rightarrow> Inl Index_out_of_bounds
       | p # ps \<Rightarrow> Inr (p, w\<lparr>FL := ps\<rparr>))"

definition clone :: "packet \<Rightarrow> world \<Rightarrow> (packet \<times> world) res" where
  "clone p w =
     bindR (allocate w) (\<lambda>(cp, w).
       Inr (cp\<lparr>p_data := copy (p_data cp) (p_data p) (unat (p_length p)), p_length := p_length p\<rparr>, w))"

section \<open>Invariant\<close>

definition packet_ok :: "packet \<Rightarrow> bool" where
  "packet_ok p \<longleftrightarrow> length (p_data p) = PAYLOAD_SIZE"

text \<open>
  The pool invariant, with the number \<open>n\<close> of packets that are in use: every packet ever allocated
  is either in use or on the freelist, and the allocation steps have doubled so far.
\<close>

definition pool_ok :: "world \<Rightarrow> nat \<Rightarrow> bool" where
  "pool_ok w n \<longleftrightarrow>
     (\<exists>k \<le> 9. PACKETS_ALLOCATED w = 1000 * (2 ^ k - 1) \<and> PACKET_ALLOCATION_STEP w = 1000 * 2 ^ k) \<and>
     length (FL w) + n = PACKETS_ALLOCATED w \<and>
     (\<forall>p \<in> set (FL w). packet_ok p \<and> p_length p = 0)"

named_theorems pool_simps \<open>the freelist as a pool of packets\<close>

definition pool_max :: nat where "pool_max = 511000"

lemma pool_ok_n_le: "pool_ok w n \<Longrightarrow> n \<le> pool_max"
proof -
  assume "pool_ok w n"
  then obtain k where k: "k \<le> 9" "PACKETS_ALLOCATED w = 1000 * (2 ^ k - 1)"
      "length (FL w) + n = PACKETS_ALLOCATED w"
    by (auto simp: pool_ok_def)
  have "(2 :: nat) ^ k \<le> 2 ^ 9" using k(1) by (intro power_increasing) simp_all
  then have "2 ^ k - 1 \<le> (511 :: nat)" by simp
  then show ?thesis using k(2,3) by (simp add: pool_max_def)
qed

lemma pool_ok_FL_le: "pool_ok w n \<Longrightarrow> length (FL w) + n \<le> MAX_PACKETS"
proof -
  assume p: "pool_ok w n"
  then have "pool_ok (w\<lparr>FL := []\<rparr>) (length (FL w) + n)"
    by (simp add: pool_ok_def)
  from pool_ok_n_le [OF this] show ?thesis
    by (simp add: pool_max_def MAX_PACKETS_def)
qed

lemma new_packet_noroot_ok [simp]: "packet_ok new_packet_noroot" "p_length new_packet_noroot = 0"
  by (simp_all add: packet_ok_def new_packet_noroot_def)

lemma free_new_eq:
  "length (FL w) + n \<le> MAX_PACKETS \<Longrightarrow>
   free_new n w = Inr (w\<lparr>FL := replicate n new_packet_noroot @ FL w\<rparr>)"
proof (induction n arbitrary: w)
  case (Suc n)
  have "new_packet_noroot\<lparr>p_length := 0\<rparr> = new_packet_noroot"
    by (simp add: new_packet_noroot_def)
  then have "free_internal new_packet_noroot w = Inr (w\<lparr>FL := new_packet_noroot # FL w\<rparr>)"
    using Suc.prems by (simp add: free_internal_def)
  then show ?case
    using Suc.IH [of "w\<lparr>FL := new_packet_noroot # FL w\<rparr>"] Suc.prems
    by (simp add: replicate_app_Cons_same)
qed simp

text \<open>A step doubles the pool as long as it stays within \<^const>\<open>MAX_PACKETS\<close>, nine times.\<close>

lemma preallocate_step_ok:
  assumes "pool_ok w n" and "PACKETS_ALLOCATED w < pool_max"
  shows "\<exists>w'. preallocate_step w = Inr w' \<and> pool_ok w' n \<and> STATS w' = STATS w \<and>
    PACKETS_ALLOCATED w' = PACKETS_ALLOCATED w + PACKET_ALLOCATION_STEP w \<and>
    length (FL w') = length (FL w) + PACKET_ALLOCATION_STEP w \<and> 0 < PACKET_ALLOCATION_STEP w"
proof -
  from assms(1) obtain k where k: "k \<le> 9" "PACKETS_ALLOCATED w = 1000 * (2 ^ k - 1)"
      "PACKET_ALLOCATION_STEP w = 1000 * 2 ^ k" "length (FL w) + n = PACKETS_ALLOCATED w"
      "\<forall>p \<in> set (FL w). packet_ok p \<and> p_length p = 0"
    by (auto simp: pool_ok_def)
  have "k \<noteq> 9" using assms(2) k(2) by (auto simp: pool_max_def)
  with k(1) have k9: "Suc k \<le> 9" by simp
  then have "(2 :: nat) ^ Suc k \<le> 2 ^ 9" by (rule power_increasing) simp
  then have pow: "(2 :: nat) ^ k \<le> 256" by simp
  have total: "PACKETS_ALLOCATED w + PACKET_ALLOCATION_STEP w = 1000 * (2 ^ Suc k - 1)"
  proof -
    have "(1 :: nat) \<le> 2 ^ k" by simp
    then show ?thesis unfolding k by simp
  qed
  have max: "PACKETS_ALLOCATED w + PACKET_ALLOCATION_STEP w \<le> MAX_PACKETS"
    unfolding total using pow by (simp add: MAX_PACKETS_def)
  let ?w = "w\<lparr>FL := replicate (PACKET_ALLOCATION_STEP w) new_packet_noroot @ FL w,
    PACKETS_ALLOCATED := PACKETS_ALLOCATED w + PACKET_ALLOCATION_STEP w,
    PACKET_ALLOCATION_STEP := PACKET_ALLOCATION_STEP w * 2\<rparr>"
  have "length (FL w) + PACKET_ALLOCATION_STEP w \<le> MAX_PACKETS"
    using max k(4) by simp
  then have "preallocate_step w = Inr ?w"
    using max by (simp add: preallocate_step_def free_new_eq)
  moreover have "pool_ok ?w n"
    unfolding pool_ok_def
  proof (intro conjI exI [of _ "Suc k"])
    show "Suc k \<le> 9" by (rule k9)
    show "PACKETS_ALLOCATED ?w = 1000 * (2 ^ Suc k - 1)" using total by simp
    show "PACKET_ALLOCATION_STEP ?w = 1000 * 2 ^ Suc k" using k(3) by simp
    show "length (FL ?w) + n = PACKETS_ALLOCATED ?w" using k(4) by simp
    show "\<forall>p \<in> set (FL ?w). packet_ok p \<and> p_length p = 0" using k(5) by auto
  qed
  ultimately show ?thesis by (simp add: k(3))
qed

lemma preallocate_step_panic:
  assumes "pool_ok w n" and "PACKETS_ALLOCATED w = pool_max"
  shows "preallocate_step w = Inl Packet_allocation_overflow"
proof -
  from assms(1) obtain k where k: "k \<le> 9" "PACKETS_ALLOCATED w = 1000 * (2 ^ k - 1)"
      "PACKET_ALLOCATION_STEP w = 1000 * 2 ^ k"
    by (auto simp: pool_ok_def)
  have "1000 * (2 ^ k - 1) = (511000 :: nat)"
    using assms(2) k(2) by (simp add: pool_max_def)
  then have "(2 :: nat) ^ k = 512" by simp
  then show ?thesis
    using k by (simp add: preallocate_step_def MAX_PACKETS_def)
qed

lemma allocate_ok:
  assumes "pool_ok w n" and "n < pool_max"
  shows "\<exists>p w'. allocate w = Inr (p, w') \<and> packet_ok p \<and> p_length p = 0 \<and>
    pool_ok w' (Suc n) \<and> STATS w' = STATS w"
proof -
  have pop: "\<exists>p w'. (case FL v of [] \<Rightarrow> Inl Index_out_of_bounds | p # ps \<Rightarrow> Inr (p, v\<lparr>FL := ps\<rparr>)) = Inr (p, w') \<and>
      packet_ok p \<and> p_length p = 0 \<and> pool_ok w' (Suc n) \<and> STATS w' = STATS v"
    if "pool_ok v n" and "FL v \<noteq> []" for v
    using that by (cases "FL v") (auto simp: pool_ok_def)
  show ?thesis
  proof (cases "FL w = []")
    case True
    then have "PACKETS_ALLOCATED w < pool_max"
      using assms by (auto simp: pool_ok_def)
    from preallocate_step_ok [OF assms(1) this] obtain v where
      v: "preallocate_step w = Inr v" "pool_ok v n" "STATS v = STATS w"
        "length (FL v) = length (FL w) + PACKET_ALLOCATION_STEP w" "0 < PACKET_ALLOCATION_STEP w"
      by blast
    then have "FL v \<noteq> []" by auto
    with pop [of v] True v show ?thesis by (auto simp: allocate_def)
  next
    case False
    with pop [OF assms(1)] show ?thesis by (auto simp: allocate_def)
  qed
qed

lemma allocate_panic:
  assumes "pool_ok w pool_max"
  shows "allocate w = Inl Packet_allocation_overflow"
proof -
  have "PACKETS_ALLOCATED w \<le> pool_max"
    using pool_ok_n_le [of "w\<lparr>FL := []\<rparr>" "PACKETS_ALLOCATED w"] assms by (auto simp: pool_ok_def)
  moreover have "length (FL w) + pool_max = PACKETS_ALLOCATED w"
    using assms by (simp add: pool_ok_def)
  ultimately have "length (FL w) = 0" and "PACKETS_ALLOCATED w = pool_max"
    by linarith+
  then show ?thesis
    using preallocate_step_panic [OF assms] by (simp add: allocate_def)
qed

text \<open>What \<^verbatim>\<open>free\<close> leaves behind.\<close>

definition freed :: "packet \<Rightarrow> world \<Rightarrow> world" where
  "freed p w = w\<lparr>FL := p\<lparr>p_length := 0\<rparr> # FL w,
     STATS := (STATS w)\<lparr>frees := frees (STATS w) + 1,
       freebytes := freebytes (STATS w) + ucast (p_length p),
       freebits := freebits (STATS w) + bitlength p\<rparr>\<rparr>"

lemma free_eq: "length (FL w) < MAX_PACKETS \<Longrightarrow> free p w = Inr (freed p w)"
  by (simp add: free_def free_internal_def freed_def add_frees_def add_freebytes_def add_freebits_def)

lemma freed_pool_ok: "pool_ok w (Suc n) \<Longrightarrow> packet_ok p \<Longrightarrow> pool_ok (freed p w) n"
  by (auto simp: pool_ok_def freed_def packet_ok_def)

lemma free_ok:
  assumes "pool_ok w (Suc n)"
  shows "free p w = Inr (freed p w)"
  using pool_ok_FL_le [OF assms] by (intro free_eq) simp

lemma initial_pool_ok: "pool_ok initial_world 0"
  by (auto simp: pool_ok_def initial_world_def intro: exI [of _ 0])

text \<open>The bytes of a packet that go on the wire. A packet's memory beyond them holds old data.\<close>

definition frame :: "packet \<Rightarrow> u8 list" where
  "frame p = take (unat (p_length p)) (p_data p)"

lemma clone_ok:
  assumes "pool_ok w n" and "n < pool_max" and "packet_ok p"
  shows "\<exists>q w'. clone p w = Inr (q, w') \<and> packet_ok q \<and> p_length q = p_length p \<and>
    take (unat (p_length p)) (p_data q) = take (unat (p_length p)) (p_data p) \<and>
    pool_ok w' (Suc n) \<and> STATS w' = STATS w"
proof -
  obtain q w' where q: "allocate w = Inr (q, w')" "packet_ok q" "pool_ok w' (Suc n)" "STATS w' = STATS w"
    using allocate_ok [OF assms(1,2)] by blast
  have "unat (p_length p) \<le> PAYLOAD_SIZE"
    using unat_u16_lt [of "p_length p"] by (simp add: PAYLOAD_SIZE_def del: unat_u16_lt)
  then show ?thesis
    using q assms(3) by (simp add: clone_def packet_ok_def take_copy)
qed

lemma unat_bitlength: "unat (bitlength p) = 8 * (24 + max (unat (p_length p)) 60)"
proof -
  let ?l = "ucast (p_length p) :: u64"
  have l: "unat ?l = unat (p_length p)" by (rule unat_ucast_up) simp
  have m: "unat (max ?l 60) = max (unat (p_length p)) 60"
    unfolding l [symmetric] by (simp add: max_def word_le_nat_alt)
  obtain x where x: "max (unat (p_length p)) 60 = x" "x < 65536" by simp
  have "unat (12 + 8 + max ?l 60 + 4) = 24 + x"
    using x(2) by (simp add: unat_word_ariths m x(1))
  then show ?thesis
    unfolding bitlength_def x(1) using x(2) by (simp add: unat_word_ariths m x(1))
qed

section \<open>Properties\<close>

text \<open>
  C30. Packets are conserved by allocation: from a pool with \<open>n\<close> packets in use, \<^verbatim>\<open>allocate\<close>
  hands out an empty, well-formed packet and leaves a pool with \<open>n + 1\<close> in use, growing the pool when
  the freelist is empty. It panics exactly when 511,000 packets are in use: the allocation step
  doubles from 1,000, and the tenth step would exceed \<^verbatim>\<open>MAX_PACKETS\<close>.
\<close>

theorem allocate_conserves:
  assumes "pool_ok w n"
  shows "if n < 511000
    then \<exists>p w'. allocate w = Inr (p, w') \<and> packet_ok p \<and> p_length p = 0 \<and> pool_ok w' (n + 1)
    else n = 511000 \<and> allocate w = Inl Packet_allocation_overflow"
  using allocate_ok [OF assms] allocate_panic [of w] pool_ok_n_le [OF assms] assms
  by (auto simp: pool_max_def)

theorem allocate_conserves_witness:
  "\<exists>p w'. allocate initial_world = Inr (p, w') \<and> packet_ok p \<and> p_length p = 0 \<and> pool_ok w' 1"
  using allocate_conserves [OF initial_pool_ok] by simp

text \<open>
  Freeing never panics: with at least one packet in use the freelist has room, the
  packet returns to it with length 0, and the statistics count it with its bytes and its bits on
  the wire.
\<close>

theorem free_conserves:
  assumes "pool_ok w (Suc n)" and "packet_ok p"
  shows "\<exists>w'. free p w = Inr w' \<and> pool_ok w' n \<and> FL w' = p\<lparr>p_length := 0\<rparr> # FL w \<and>
    frees (STATS w') = frees (STATS w) + 1 \<and>
    freebytes (STATS w') = freebytes (STATS w) + ucast (p_length p) \<and>
    freebits (STATS w') = freebits (STATS w) + bitlength p"
  using free_ok [OF assms(1), of p] freed_pool_ok [OF assms] by (simp add: freed_def)

theorem free_conserves_witness:
  "\<exists>p w w'. allocate initial_world = Inr (p, w) \<and> free p w = Inr w' \<and> pool_ok w' 0"
proof -
  obtain p w where "allocate initial_world = Inr (p, w)" "packet_ok p" "pool_ok w (Suc 0)"
    using allocate_ok [OF initial_pool_ok] by (auto simp: pool_max_def)
  then show ?thesis using free_conserves [of w 0 p] by blast
qed

text \<open>
  \<^verbatim>\<open>preallocate(n)\<close> terminates and makes at least \<open>n\<close> packets available without taking any
  into use, for every \<open>n\<close> up to 511,000; beyond that it ends in the allocation panic.
\<close>

theorem preallocate_terminates:
  assumes "pool_ok w u"
  shows "if n \<le> 511000 then \<exists>w'. preallocate n w = Inr w' \<and> n \<le> PACKETS_ALLOCATED w' \<and> pool_ok w' u
    else preallocate n w = Inl Packet_allocation_overflow"
proof (cases "n \<le> 511000")
  case True
  have "\<exists>w'. preallocate n w = Inr w' \<and> pool_ok w' u \<and> \<not> PACKETS_ALLOCATED w' < n"
    unfolding preallocate_def
  proof (rule loopR_rule [where m = "\<lambda>w. n - PACKETS_ALLOCATED w"])
    fix v assume v: "pool_ok v u" "PACKETS_ALLOCATED v < n"
    then have "PACKETS_ALLOCATED v < pool_max" using True by (simp add: pool_max_def)
    from preallocate_step_ok [OF v(1) this] v(2)
    show "\<exists>v'. preallocate_step v = Inr v' \<and> pool_ok v' u \<and>
        n - PACKETS_ALLOCATED v' < n - PACKETS_ALLOCATED v"
      by auto
  qed (rule assms)
  with True show ?thesis by auto
next
  case False
  have "preallocate n v = Inl Packet_allocation_overflow" if "pool_ok v u" for v
    using that
  proof (induction "pool_max - PACKETS_ALLOCATED v" arbitrary: v rule: less_induct)
    case less
    have le: "PACKETS_ALLOCATED v \<le> pool_max"
      using pool_ok_n_le [of "v\<lparr>FL := []\<rparr>" "PACKETS_ALLOCATED v"] less.prems
      by (auto simp: pool_ok_def)
    then have b: "PACKETS_ALLOCATED v < n" using False by (simp add: pool_max_def)
    show ?case
    proof (cases "PACKETS_ALLOCATED v = pool_max")
      case True
      then show ?thesis
        using preallocate_step_panic [OF less.prems] b by (simp add: preallocate_def)
    next
      case neq: False
      with le obtain v' where "preallocate_step v = Inr v'" "pool_ok v' u"
          "pool_max - PACKETS_ALLOCATED v' < pool_max - PACKETS_ALLOCATED v"
        using preallocate_step_ok [OF less.prems] by auto
      then show ?thesis
        using less.hyps [of v'] b by (simp add: preallocate_def)
    qed
  qed
  with assms False show ?thesis by simp
qed

theorem preallocate_terminates_witness:
  "\<exists>w'. preallocate 2000 initial_world = Inr w' \<and> 2000 \<le> PACKETS_ALLOCATED w' \<and> pool_ok w' 0"
  using preallocate_terminates [OF initial_pool_ok, of 2000] by simp

end
