(* ===== verification/Link.thy ===== *)
theory Link
  imports Packet
begin

text \<open>
  \<^verbatim>\<open>rush/src/link.rs\<close>: unidirectional links, implemented as ring buffers of 1024 slots, and the
  interface that the apps rely on. A link is shown to refine a bounded FIFO queue of 1023 packets
  that drops what does not fit. The interface is the locale \<open>channel\<close>; it is interpreted
  with the link operations, and the facts that the apps use are proved in it.
\<close>

section \<open>Data\<close>

definition LINK_RING_SIZE :: nat where "LINK_RING_SIZE = 1024"
definition LINK_MAX_PACKETS :: nat where "LINK_MAX_PACKETS = LINK_RING_SIZE - 1"

text \<open>A slot holds a pointer to a boxed packet, or null.\<close>

record link =
  packets :: "packet option list"
  read_cur :: i32
  write_cur :: i32
  txpackets :: u64
  txbytes :: u64
  txdrop :: u64
  rxpackets :: u64
  rxbytes :: u64

definition SIZE :: i32 where "SIZE = of_nat LINK_RING_SIZE"

section \<open>Operations\<close>

definition new_link :: link where
  "new_link =
     \<lparr>packets = replicate LINK_RING_SIZE None, read_cur = 0, write_cur = 0,
      txpackets = 0, txbytes = 0, txdrop = 0, rxpackets = 0, rxbytes = 0\<rparr>"

definition empty :: "link \<Rightarrow> bool" where
  "empty r \<longleftrightarrow> read_cur r = write_cur r"

definition full :: "link \<Rightarrow> bool" where
  "full r \<longleftrightarrow> (write_cur r + 1) AND (SIZE - 1) = read_cur r"

definition receive :: "link \<Rightarrow> (packet \<times> link) res" where
  "receive r =
     (if empty r then Inl Link_underflow
      else if length (packets r) \<le> unat (read_cur r) then Inl Index_out_of_bounds
      else case packets r ! unat (read_cur r) of
        None \<Rightarrow> Inl Null_pointer
      | Some p \<Rightarrow>
          Inr (p, r\<lparr>read_cur := (read_cur r + 1) AND (SIZE - 1),
                    rxpackets := rxpackets r + 1,
                    rxbytes := rxbytes r + ucast (p_length p)\<rparr>))"

definition transmit :: "link \<Rightarrow> packet \<Rightarrow> world \<Rightarrow> (link \<times> world) res" where
  "transmit r p w =
     (if full r then
        bindR (free p w) (\<lambda>w. Inr (r\<lparr>txdrop := txdrop r + 1\<rparr>, w))
      else if length (packets r) \<le> unat (write_cur r) then Inl Index_out_of_bounds
      else Inr (r\<lparr>txpackets := txpackets r + 1,
                  txbytes := txbytes r + ucast (p_length p),
                  packets := (packets r)[unat (write_cur r) := Some p],
                  write_cur := (write_cur r + 1) AND (SIZE - 1)\<rparr>, w))"

text \<open>The loop that most apps run: \<^verbatim>\<open>while !link::empty(&input) { let p = link::receive(&mut input); f(p) }\<close>.\<close>

definition drain :: "(packet \<Rightarrow> 's \<Rightarrow> 's res) \<Rightarrow> link \<Rightarrow> 's \<Rightarrow> (link \<times> 's) res" where
  "drain f input s =
     loopR (\<lambda>(input, s). \<not> empty input)
       (\<lambda>(input, s). bindR (receive input) (\<lambda>(p, input). bindR (f p s) (\<lambda>s. Inr (input, s))))
       (input, s)"

text \<open>\<^verbatim>\<open>Drop for Link\<close>: free what is still enqueued.\<close>

definition drop_link :: "link \<Rightarrow> world \<Rightarrow> (link \<times> world) res" where
  "drop_link r w = drain free r w"

section \<open>Abstraction and invariant\<close>

definition ring_next :: "nat \<Rightarrow> nat" where
  "ring_next i = (i + 1) mod LINK_RING_SIZE"

definition count :: "link \<Rightarrow> nat" where
  "count r = (unat (write_cur r) + LINK_RING_SIZE - unat (read_cur r)) mod LINK_RING_SIZE"

definition slot :: "link \<Rightarrow> nat \<Rightarrow> packet option" where
  "slot r i = packets r ! ((unat (read_cur r) + i) mod LINK_RING_SIZE)"

definition contents :: "link \<Rightarrow> packet list" where
  "contents r = map (\<lambda>i. the (slot r i)) [0..<count r]"

definition byte_total :: "packet list \<Rightarrow> u64" where
  "byte_total ps = sum_list (map (\<lambda>p. ucast (p_length p)) ps)"

definition link_ok :: "link \<Rightarrow> bool" where
  "link_ok r \<longleftrightarrow>
     length (packets r) = LINK_RING_SIZE \<and>
     unat (read_cur r) < LINK_RING_SIZE \<and> unat (write_cur r) < LINK_RING_SIZE \<and>
     (\<forall>i < count r. slot r i \<noteq> None) \<and>
     (\<forall>p \<in> set (contents r). packet_ok p) \<and>
     txpackets r = rxpackets r + of_nat (count r) \<and>
     txbytes r = rxbytes r + byte_total (contents r)"

section \<open>Cursor arithmetic\<close>

lemma unat_and_SIZE: "unat (x AND (SIZE - 1)) = unat x mod LINK_RING_SIZE"
proof -
  have "SIZE - 1 = mask 10"
    by (simp add: SIZE_def LINK_RING_SIZE_def mask_eq_exp_minus_1)
  then have "x AND (SIZE - 1) = take_bit 10 x"
    by (simp only: take_bit_eq_mask)
  then show ?thesis
    by (simp only: unsigned_take_bit_eq) (simp add: take_bit_eq_mod LINK_RING_SIZE_def)
qed

lemma unat_next_cursor:
  "unat c < LINK_RING_SIZE \<Longrightarrow> unat ((c + 1) AND (SIZE - 1)) = ring_next (unat c)"
  by (simp add: unat_and_SIZE ring_next_def unat_word_ariths LINK_RING_SIZE_def)

lemma ring_next_lt [simp]: "ring_next i < LINK_RING_SIZE"
  by (simp add: ring_next_def LINK_RING_SIZE_def)

lemma ring_next_if:
  "i < LINK_RING_SIZE \<Longrightarrow> ring_next i = (if i + 1 = LINK_RING_SIZE then 0 else i + 1)"
  by (auto simp: ring_next_def LINK_RING_SIZE_def)

definition ring_count :: "nat \<Rightarrow> nat \<Rightarrow> nat" where
  "ring_count rd wr = (wr + LINK_RING_SIZE - rd) mod LINK_RING_SIZE"

lemma ring_count_if:
  "rd < LINK_RING_SIZE \<Longrightarrow> wr < LINK_RING_SIZE \<Longrightarrow>
   ring_count rd wr = (if rd \<le> wr then wr - rd else wr + LINK_RING_SIZE - rd)"
  by (auto simp: ring_count_def LINK_RING_SIZE_def mod_if)

lemma mod_twice: "x < 2 * n \<Longrightarrow> x mod n = (if x < n then x else x - n)" for x n :: nat
  using mod_if [of "x - n" n] by (auto simp: mod_if [of x n])

lemma ring_empty:
  "rd < LINK_RING_SIZE \<Longrightarrow> wr < LINK_RING_SIZE \<Longrightarrow> ring_count rd wr = 0 \<longleftrightarrow> rd = wr"
  by (auto simp: ring_count_if)

lemma ring_full:
  "rd < LINK_RING_SIZE \<Longrightarrow> wr < LINK_RING_SIZE \<Longrightarrow>
   ring_count rd wr = LINK_MAX_PACKETS \<longleftrightarrow> ring_next wr = rd"
  by (auto simp: ring_count_if ring_next_if LINK_MAX_PACKETS_def LINK_RING_SIZE_def)

lemma ring_count_le: "ring_count rd wr \<le> LINK_MAX_PACKETS"
  using mod_less_divisor [of LINK_RING_SIZE "wr + LINK_RING_SIZE - rd"]
  by (simp add: ring_count_def LINK_MAX_PACKETS_def LINK_RING_SIZE_def del: mod_less_divisor)

lemma ring_end:
  "rd < LINK_RING_SIZE \<Longrightarrow> wr < LINK_RING_SIZE \<Longrightarrow>
   (rd + ring_count rd wr) mod LINK_RING_SIZE = wr"
  by (auto simp: ring_count_if)

lemma ring_receive:
  assumes "rd < LINK_RING_SIZE" and "wr < LINK_RING_SIZE" and "rd \<noteq> wr"
  shows "ring_count rd wr = Suc (ring_count (ring_next rd) wr)"
  using assms by (auto simp: ring_count_if ring_next_if LINK_RING_SIZE_def)

lemma ring_transmit:
  assumes "rd < LINK_RING_SIZE" and "wr < LINK_RING_SIZE" and "ring_next wr \<noteq> rd"
  shows "ring_count rd (ring_next wr) = Suc (ring_count rd wr)"
  using assms by (auto simp: ring_count_if ring_next_if LINK_RING_SIZE_def)

lemma ring_shift: "(ring_next rd + i) mod LINK_RING_SIZE = (rd + Suc i) mod LINK_RING_SIZE"
  by (simp add: ring_next_def mod_simps)

lemma ring_inj:
  assumes "rd < LINK_RING_SIZE" and "i < ring_count rd wr" and "wr < LINK_RING_SIZE"
  shows "(rd + i) mod LINK_RING_SIZE \<noteq> wr"
proof -
  have "rd + i < 2 * LINK_RING_SIZE"
    using assms ring_count_le [of rd wr] by (simp add: LINK_MAX_PACKETS_def LINK_RING_SIZE_def)
  then show ?thesis
    using assms by (auto simp: ring_count_if mod_twice split: if_splits)
qed

section \<open>The operations on the abstract queue\<close>

lemma count_ring: "count r = ring_count (unat (read_cur r)) (unat (write_cur r))"
  by (simp add: count_def ring_count_def)

lemma length_contents [simp]: "length (contents r) = count r"
  by (simp add: contents_def)

lemma link_okD:
  assumes "link_ok r"
  shows "length (packets r) = LINK_RING_SIZE" "unat (read_cur r) < LINK_RING_SIZE"
    "unat (write_cur r) < LINK_RING_SIZE" "\<And>i. i < count r \<Longrightarrow> \<exists>p. slot r i = Some p"
    "\<And>p. p \<in> set (contents r) \<Longrightarrow> packet_ok p" "txpackets r = rxpackets r + of_nat (count r)"
    "txbytes r = rxbytes r + byte_total (contents r)"
  using assms by (auto simp: link_ok_def)

lemma empty_iff: "link_ok r \<Longrightarrow> empty r \<longleftrightarrow> contents r = []"
proof -
  assume ok: "link_ok r"
  have "empty r \<longleftrightarrow> unat (read_cur r) = unat (write_cur r)"
    by (simp add: empty_def word_unat_eq_iff)
  also have "\<dots> \<longleftrightarrow> count r = 0"
    using ring_empty [OF link_okD(2) [OF ok] link_okD(3) [OF ok]] by (simp add: count_ring)
  finally show ?thesis by (simp flip: length_0_conv)
qed

lemma full_iff: "link_ok r \<Longrightarrow> full r \<longleftrightarrow> length (contents r) = LINK_MAX_PACKETS"
proof -
  assume ok: "link_ok r"
  have "full r \<longleftrightarrow> ring_next (unat (write_cur r)) = unat (read_cur r)"
    using unat_next_cursor [OF link_okD(3) [OF ok]] by (simp add: full_def word_unat_eq_iff)
  then show ?thesis
    using ring_full [OF link_okD(2) [OF ok] link_okD(3) [OF ok]] by (simp add: count_ring)
qed

lemma contents_bound: "link_ok r \<Longrightarrow> length (contents r) \<le> LINK_MAX_PACKETS"
  by (simp add: count_ring ring_count_le)

lemma new_link_ok: "link_ok new_link" and contents_new_link [simp]: "contents new_link = []"
  by (simp_all add: link_ok_def new_link_def count_def contents_def byte_total_def LINK_RING_SIZE_def)

lemma receive_eq:
  assumes ok: "link_ok r" and c: "contents r = p # ps"
  shows "\<exists>r'. receive r = Inr (p, r') \<and> link_ok r' \<and> contents r' = ps"
proof -
  let ?r = "r\<lparr>read_cur := (read_cur r + 1) AND (SIZE - 1), rxpackets := rxpackets r + 1,
    rxbytes := rxbytes r + ucast (p_length p)\<rparr>"
  note d = link_okD [OF ok]
  have ne: "unat (read_cur r) \<noteq> unat (write_cur r)"
    using empty_iff [OF ok] c by (simp add: empty_def word_unat_eq_iff)
  have rd: "unat (read_cur r + 1 AND SIZE - 1) = ring_next (unat (read_cur r))"
    using unat_next_cursor [OF d(2)] by simp
  have cnt: "count r = Suc (count ?r)"
    using ring_receive [OF d(2,3) ne] by (simp add: count_ring rd)
  have slot: "slot ?r i = slot r (Suc i)" for i
    by (simp add: slot_def rd ring_shift)
  have split: "contents r = the (slot r 0) # contents ?r"
    unfolding contents_def cnt by (simp add: upt_conv_Cons slot flip: map_Suc_upt del: upt_Suc)
  with c have p: "p = the (slot r 0)" and ps: "contents ?r = ps" by simp_all
  have s0: "packets r ! unat (read_cur r) = Some p"
    using d(4) [of 0] cnt p d(2) by (auto simp: slot_def)
  have "receive r = Inr (p, ?r)"
    using empty_iff [OF ok] c d(1,2) s0 by (simp add: receive_def)
  moreover have "link_ok ?r"
  proof -
    have "\<forall>i < count ?r. slot ?r i \<noteq> None"
      using d(4) cnt by (auto simp: slot)
    moreover have "\<forall>q \<in> set (contents ?r). packet_ok q"
      using d(5) c ps by auto
    moreover have "txpackets ?r = rxpackets ?r + of_nat (count ?r)"
      using d(6) cnt by simp
    moreover have "txbytes ?r = rxbytes ?r + byte_total (contents ?r)"
      using d(7) c ps by (simp add: byte_total_def add.assoc)
    ultimately show ?thesis
      using d(1,3) rd by (simp add: link_ok_def)
  qed
  ultimately show ?thesis using ps by blast
qed

lemma transmit_room:
  assumes ok: "link_ok r" and len: "length (contents r) < LINK_MAX_PACKETS" and p: "packet_ok p"
  shows "\<exists>r'. transmit r p w = Inr (r', w) \<and> link_ok r' \<and> contents r' = contents r @ [p]"
proof -
  let ?r = "r\<lparr>txpackets := txpackets r + 1, txbytes := txbytes r + ucast (p_length p),
    packets := (packets r)[unat (write_cur r) := Some p], write_cur := (write_cur r + 1) AND (SIZE - 1)\<rparr>"
  note d = link_okD [OF ok]
  have nf: "\<not> full r" using full_iff [OF ok] len by simp
  have wr: "unat (write_cur r + 1 AND SIZE - 1) = ring_next (unat (write_cur r))"
    using unat_next_cursor [OF d(3)] by simp
  have "ring_next (unat (write_cur r)) \<noteq> unat (read_cur r)"
    using nf wr by (auto simp: full_def word_unat_eq_iff)
  then have cnt: "count ?r = Suc (count r)"
    using ring_transmit [OF d(2,3)] by (simp add: count_ring wr)
  have old: "slot ?r i = slot r i" if "i < count r" for i
    using ring_inj [OF d(2) _ d(3), of i] that by (simp add: slot_def count_ring)
  have new: "slot ?r (count r) = Some p"
    using ring_end [OF d(2,3)] d(1,3) by (simp add: slot_def count_ring)
  have c: "contents ?r = contents r @ [p]"
    unfolding contents_def cnt by (simp add: old new)
  have "link_ok ?r"
  proof -
    have "\<forall>i < count ?r. slot ?r i \<noteq> None"
      using d(4) old new by (auto simp: cnt less_Suc_eq)
    moreover have "\<forall>q \<in> set (contents ?r). packet_ok q"
      using d(5) p by (auto simp: c)
    moreover have "txpackets ?r = rxpackets ?r + of_nat (count ?r)"
      using d(6) cnt by simp
    moreover have "txbytes ?r = rxbytes ?r + byte_total (contents ?r)"
      unfolding c using d(7) by (simp add: byte_total_def)
    ultimately show ?thesis
      using d(1,2) wr by (simp add: link_ok_def)
  qed
  moreover have "transmit r p w = Inr (?r, w)"
    using nf d(1,3) by (simp add: transmit_def)
  ultimately show ?thesis using c by blast
qed

lemma txdrop_irrelevant [simp]:
  "contents (r\<lparr>txdrop := x\<rparr>) = contents r" "link_ok (r\<lparr>txdrop := x\<rparr>) = link_ok r"
  by (simp_all add: contents_def count_def slot_def link_ok_def)

lemma transmit_full:
  assumes ok: "link_ok r" and len: "length (contents r) = LINK_MAX_PACKETS" and w: "pool_ok w (Suc n)"
  shows "\<exists>r'. transmit r p w = Inr (r', freed p w) \<and> link_ok r' \<and> contents r' = contents r"
proof -
  let ?r = "r\<lparr>txdrop := txdrop r + 1\<rparr>"
  have "transmit r p w = Inr (?r, freed p w)"
    using full_iff [OF ok] len by (simp add: transmit_def free_ok [OF w])
  then show ?thesis using ok by auto
qed

section \<open>The interface of a link\<close>

text \<open>
  What the apps rely on: a channel is a queue of well-formed packets of bounded length. Receiving
  takes the first packet; sending appends one if there is room and otherwise returns the packet to
  the pool.
\<close>

locale channel =
  fixes inv :: "'c \<Rightarrow> bool"
    and queue :: "'c \<Rightarrow> packet list"
    and bound :: nat
    and is_empty :: "'c \<Rightarrow> bool"
    and recv :: "'c \<Rightarrow> (packet \<times> 'c) res"
    and send :: "'c \<Rightarrow> packet \<Rightarrow> world \<Rightarrow> ('c \<times> world) res"
  assumes queue_packets: "inv c \<Longrightarrow> p \<in> set (queue c) \<Longrightarrow> packet_ok p"
    and queue_bound: "inv c \<Longrightarrow> length (queue c) \<le> bound"
    and is_empty_iff: "inv c \<Longrightarrow> is_empty c \<longleftrightarrow> queue c = []"
    and recv_first: "inv c \<Longrightarrow> queue c = p # ps \<Longrightarrow>
          \<exists>c'. recv c = Inr (p, c') \<and> inv c' \<and> queue c' = ps"
    and send_room: "inv c \<Longrightarrow> length (queue c) < bound \<Longrightarrow> packet_ok p \<Longrightarrow>
          \<exists>c'. send c p w = Inr (c', w) \<and> inv c' \<and> queue c' = queue c @ [p]"
    and send_full: "inv c \<Longrightarrow> length (queue c) = bound \<Longrightarrow> pool_ok w (Suc n) \<Longrightarrow>
          \<exists>c'. send c p w = Inr (c', freed p w) \<and> inv c' \<and> queue c' = queue c"
begin

text \<open>Sending one packet, whether it fits or not; \<open>n\<close> counts the packets in use.\<close>

lemma send_ok:
  assumes "inv c" and "packet_ok p" and "pool_ok w (Suc n)"
  shows "\<exists>c' w' n'. send c p w = Inr (c', w') \<and> inv c' \<and> queue c' = take bound (queue c @ [p]) \<and>
    pool_ok w' n' \<and> n' + length (queue c) + 1 = Suc n + length (queue c')"
proof (cases "length (queue c) < bound")
  case True
  with send_room [OF assms(1) True assms(2), of w] assms(3) show ?thesis by force
next
  case False
  with queue_bound [OF assms(1)] have len: "length (queue c) = bound" by simp
  from send_full [OF assms(1) len assms(3), of p] obtain c' where
    "send c p w = Inr (c', freed p w)" "inv c'" "queue c' = queue c"
    by blast
  with freed_pool_ok [OF assms(3,2)] len show ?thesis
    by (intro exI [of _ c'] exI [of _ "freed p w"] exI [of _ n]) simp
qed

text \<open>Sending a list of packets: the channel takes what fits, in order.\<close>

lemma send_all:
  assumes "inv c" and "\<forall>p \<in> set ps. packet_ok p" and "pool_ok w (n + length ps)"
  shows "\<exists>c' w' n'. foldR (\<lambda>p (c, w). send c p w) ps (c, w) = Inr (c', w') \<and> inv c' \<and>
    queue c' = take bound (queue c @ ps) \<and>
    pool_ok w' n' \<and> n' + length (queue c) = n + length (queue c')"
  using assms
proof (induction ps arbitrary: c w n)
  case Nil
  then show ?case using queue_bound [of c] by auto
next
  case (Cons p ps)
  have "pool_ok w (Suc (n + length ps))" using Cons.prems(3) by simp
  from send_ok [OF Cons.prems(1) _ this, of p] Cons.prems(2) obtain c1 w1 n1 where
    1: "send c p w = Inr (c1, w1)" "inv c1" "queue c1 = take bound (queue c @ [p])" "pool_ok w1 n1"
       "n1 + length (queue c) + 1 = Suc (n + length ps) + length (queue c1)"
    by auto
  define m where "m = n1 - length ps"
  have "length (queue c1) \<le> length (queue c) + 1" and "length (queue c) \<le> length (queue c1)"
    using 1(3) queue_bound [OF Cons.prems(1)] by auto
  then have m: "n1 = m + length ps" using 1(5) by (simp add: m_def)
  from Cons.IH [OF 1(2), of w1 m] Cons.prems(2) 1(4) obtain c' w' n' where
    2: "foldR (\<lambda>p (c, w). send c p w) ps (c1, w1) = Inr (c', w')" "inv c'"
       "queue c' = take bound (queue c1 @ ps)" "pool_ok w' n'"
       "n' + length (queue c1) = m + length (queue c')"
    by (auto simp: m)
  have "take bound (queue c1 @ ps) = take bound (queue c @ p # ps)"
    unfolding 1(3) using queue_bound [OF Cons.prems(1)]
    by (cases "length (queue c) < bound") auto
  then show ?case
    using 1 2 m by (intro exI [of _ c'] exI [of _ w'] exI [of _ n']) auto
qed

text \<open>The loop that empties a channel runs its body on the packets of the queue, in order.\<close>

lemma drain_all:
  assumes "inv c" and "foldR f (queue c) s = Inr s'"
  shows "\<exists>c'. loopR (\<lambda>(c, s). \<not> is_empty c)
      (\<lambda>(c, s). bindR (recv c) (\<lambda>(p, c). bindR (f p s) (\<lambda>s. Inr (c, s)))) (c, s) = Inr (c', s') \<and>
    inv c' \<and> queue c' = []"
  using assms
proof (induction "queue c" arbitrary: c s)
  case Nil
  from Nil(1) [symmetric] is_empty_iff [OF Nil.prems(1)] Nil.prems show ?case by auto
next
  case (Cons p ps)
  obtain c1 where c1: "recv c = Inr (p, c1)" "inv c1" "queue c1 = ps"
    using recv_first [OF Cons.prems(1)] Cons.hyps(2) by metis
  obtain s1 where s1: "f p s = Inr s1" "foldR f ps s1 = Inr s'"
    using Cons.prems(2) Cons.hyps(2) [symmetric] by (auto simp: bindR_eq_Inr)
  have "\<not> is_empty c"
    using is_empty_iff [OF Cons.prems(1)] Cons.hyps(2) by auto
  with Cons.hyps(1) [of c1 s1] c1 s1 show ?case by simp
qed

end

interpretation ch: channel link_ok contents LINK_MAX_PACKETS empty receive transmit
  by unfold_locales
    (auto intro: link_okD(5) contents_bound receive_eq transmit_room transmit_full simp: empty_iff simp del: length_contents)

lemma free_all:
  assumes "\<forall>p \<in> set ps. packet_ok p" and "pool_ok w (n + length ps)"
  shows "\<exists>w'. foldR free ps w = Inr w' \<and> pool_ok w' n"
  using assms
proof (induction ps arbitrary: w)
  case (Cons p ps)
  have "pool_ok w (Suc (n + length ps))" using Cons.prems(2) by simp
  then have "free p w = Inr (freed p w)" and "pool_ok (freed p w) (n + length ps)"
    using Cons.prems(1) by (simp_all add: free_ok freed_pool_ok)
  with Cons.IH [of "freed p w"] Cons.prems(1) show ?case by simp
qed simp

lemma drain_ok:
  assumes "link_ok r" and "foldR f (contents r) s = Inr s'"
  shows "\<exists>r'. drain f r s = Inr (r', s') \<and> link_ok r' \<and> contents r' = []"
  unfolding drain_def by (rule ch.drain_all [OF assms])

section \<open>Histories\<close>

text \<open>
  The links that occur: created empty and then used by any interleaving of \<^verbatim>\<open>receive\<close> and
  \<^verbatim>\<open>transmit\<close>. The history records the packets accepted, the packets delivered, and how many were
  dropped.
\<close>

inductive link_history :: "packet list \<Rightarrow> packet list \<Rightarrow> nat \<Rightarrow> link \<Rightarrow> bool" where
  created: "link_history [] [] 0 new_link"
| received: "link_history acc del k r \<Longrightarrow> receive r = Inr (p, r') \<Longrightarrow> link_history acc (del @ [p]) k r'"
| accepted: "link_history acc del k r \<Longrightarrow> \<not> full r \<Longrightarrow> packet_ok p \<Longrightarrow>
    transmit r p w = Inr (r', w') \<Longrightarrow> link_history (acc @ [p]) del k r'"
| dropped: "link_history acc del k r \<Longrightarrow> full r \<Longrightarrow>
    transmit r p w = Inr (r', w') \<Longrightarrow> link_history acc del (Suc k) r'"

lemma drop_link_ok:
  assumes "link_ok r" and "pool_ok w (n + length (contents r))"
  shows "\<exists>r' w'. drop_link r w = Inr (r', w') \<and> link_ok r' \<and> contents r' = [] \<and> pool_ok w' n"
proof -
  obtain w' where w': "foldR free (contents r) w = Inr w'" "pool_ok w' n"
    using free_all [of "contents r" w n] link_okD(5) [OF assms(1)] assms(2) by auto
  with drain_ok [OF assms(1) w'(1)] show ?thesis
    unfolding drop_link_def by auto
qed

lemma receive_underflow: "empty r \<Longrightarrow> receive r = Inl Link_underflow"
  by (simp add: receive_def)

lemma receive_inv:
  assumes "link_ok r" and "receive r = Inr (p, r')"
  shows "contents r = p # contents r'" and "link_ok r'" and "rxpackets r' = rxpackets r + 1"
    and "txpackets r' = txpackets r" and "txdrop r' = txdrop r"
proof -
  have "contents r \<noteq> []"
    using empty_iff [OF assms(1)] assms(2) by (auto simp: receive_def split: if_splits)
  then obtain q qs where c: "contents r = q # qs" by (cases "contents r") auto
  from receive_eq [OF assms(1) c] assms(2) c
  show "contents r = p # contents r'" and "link_ok r'" by auto
  from assms(2)
  show "rxpackets r' = rxpackets r + 1" and "txpackets r' = txpackets r" and "txdrop r' = txdrop r"
    by (auto simp: receive_def split: if_splits option.splits)
qed

lemma transmit_inv_room:
  assumes "link_ok r" and "\<not> full r" and "packet_ok p" and "transmit r p w = Inr (r', w')"
  shows "contents r' = contents r @ [p]" and "link_ok r'" and "txpackets r' = txpackets r + 1"
    and "rxpackets r' = rxpackets r" and "txdrop r' = txdrop r"
proof -
  have "length (contents r) < LINK_MAX_PACKETS"
    using full_iff [OF assms(1)] assms(2) contents_bound [OF assms(1)] by linarith
  from transmit_room [OF assms(1) this assms(3), of w] assms(4)
  show "contents r' = contents r @ [p]" and "link_ok r'" by auto
  from assms(2,4)
  show "txpackets r' = txpackets r + 1" and "rxpackets r' = rxpackets r" and "txdrop r' = txdrop r"
    by (auto simp: transmit_def split: if_splits)
qed

lemma transmit_inv_full:
  assumes "link_ok r" and "full r" and "transmit r p w = Inr (r', w')"
  shows "contents r' = contents r" and "link_ok r'" and "txpackets r' = txpackets r"
    and "rxpackets r' = rxpackets r" and "txdrop r' = txdrop r + 1"
proof -
  have r': "r' = r\<lparr>txdrop := txdrop r + 1\<rparr>"
    using assms(2,3) by (auto simp: transmit_def bindR_eq_Inr)
  with assms(1) show "contents r' = contents r" and "link_ok r'" by simp_all
  show "txpackets r' = txpackets r" and "rxpackets r' = rxpackets r" and "txdrop r' = txdrop r + 1"
    by (simp_all add: r')
qed

section \<open>Properties\<close>

text \<open>
  C11. A link is a FIFO queue with exact accounting: whatever sequence of transmissions and
  receptions has been performed on it, the packets accepted are the packets delivered followed by
  those still queued, in order; at most 1023 are queued; and the counters count the accepted,
  delivered and dropped packets (modulo their 64 bits).
\<close>

theorem link_is_fifo:
  assumes "link_history acc del k r"
  shows "acc = del @ contents r \<and> length (contents r) \<le> 1023 \<and> link_ok r \<and>
    txpackets r = of_nat (length acc) \<and> rxpackets r = of_nat (length del) \<and> txdrop r = of_nat k"
proof -
  have "acc = del @ contents r \<and> link_ok r \<and>
    txpackets r = of_nat (length acc) \<and> rxpackets r = of_nat (length del) \<and> txdrop r = of_nat k"
    using assms
  proof (induction rule: link_history.induct)
    case created
    then show ?case using new_link_ok by (simp add: new_link_def contents_new_link [unfolded new_link_def])
  next
    case (received acc del k r p r')
    with receive_inv [of r p r'] show ?case by simp
  next
    case (accepted acc del k r p w r' w')
    with transmit_inv_room [of r p w r' w'] show ?case by simp
  next
    case (dropped acc del k r p w r' w')
    with transmit_inv_full [of r p w r' w'] show ?case by (simp del: length_contents)
  qed
  moreover from this have "length (contents r) \<le> 1023"
    using contents_bound [of r] by (simp add: LINK_MAX_PACKETS_def LINK_RING_SIZE_def)
  ultimately show ?thesis by blast
qed

theorem link_is_fifo_witness:
  "\<exists>r. link_history [new_packet_noroot] [] 0 r \<and> contents r = [new_packet_noroot]"
proof -
  obtain r where r: "transmit new_link new_packet_noroot initial_world = Inr (r, initial_world)"
    using transmit_room [OF new_link_ok, of new_packet_noroot initial_world]
    by (auto simp: LINK_MAX_PACKETS_def LINK_RING_SIZE_def count_def new_link_def)
  have "\<not> full new_link"
    using full_iff [OF new_link_ok] by (simp add: LINK_MAX_PACKETS_def LINK_RING_SIZE_def count_def new_link_def)
  then have "link_history [new_packet_noroot] [] 0 r"
    using link_history.accepted [OF created _ _ r] by simp
  moreover from this have "contents r = [new_packet_noroot]"
    using link_is_fifo by fastforce
  ultimately show ?thesis by blast
qed

text \<open>
  Every branch of \<^verbatim>\<open>transmit\<close>, without panics: with room the packet is appended and the
  pool untouched; on a full link the packet returns to the freelist and the queue is unchanged. In
  both cases the link stays well-formed.
\<close>

theorem transmit_refines_queue:
  assumes "link_ok r" and "packet_ok p" and "pool_ok w (Suc n)"
  shows "\<exists>r' w'. transmit r p w = Inr (r', w') \<and> link_ok r' \<and>
    (if length (contents r) < 1023 then contents r' = contents r @ [p] \<and> w' = w
     else contents r' = contents r \<and> w' = freed p w \<and> pool_ok w' n)"
proof (cases "length (contents r) < 1023")
  case True
  then show ?thesis
    using transmit_room [OF assms(1) _ assms(2), of w]
    by (auto simp: LINK_MAX_PACKETS_def LINK_RING_SIZE_def)
next
  case False
  then have "length (contents r) = LINK_MAX_PACKETS"
    using contents_bound [OF assms(1)] by (simp add: LINK_MAX_PACKETS_def LINK_RING_SIZE_def)
  from transmit_full [OF assms(1) this assms(3), of p] freed_pool_ok [OF assms(3,2)] False
  show ?thesis by auto
qed

theorem transmit_refines_queue_witness:
  "\<exists>p w r'. allocate initial_world = Inr (p, w) \<and> transmit new_link p w = Inr (r', w) \<and> contents r' = [p]"
proof -
  obtain p w where "allocate initial_world = Inr (p, w)" "packet_ok p" "pool_ok w (Suc 0)"
    using allocate_ok [OF initial_pool_ok] by (auto simp: pool_max_def)
  then show ?thesis
    using transmit_refines_queue [OF new_link_ok, of p w 0] by auto
qed

text \<open>
  Receiving takes the oldest packet, and panics with an underflow exactly on an empty
  link.
\<close>

theorem receive_refines_queue:
  assumes "link_ok r"
  shows "case contents r of
      [] \<Rightarrow> receive r = Inl Link_underflow
    | p # ps \<Rightarrow> (\<exists>r'. receive r = Inr (p, r') \<and> link_ok r' \<and> contents r' = ps)"
  using receive_eq [OF assms] receive_underflow [of r] empty_iff [OF assms]
  by (auto split: list.split)

theorem receive_refines_queue_witness: "receive new_link = Inl Link_underflow"
  using receive_refines_queue [OF new_link_ok] by simp

text \<open>
  Dropping a link terminates and leaks nothing: every packet still queued returns to the
  pool.
\<close>

theorem drop_link_frees_all:
  assumes "link_ok r" and "pool_ok w (n + length (contents r))"
  shows "\<exists>r' w'. drop_link r w = Inr (r', w') \<and> contents r' = [] \<and> pool_ok w' n"
  using drop_link_ok [OF assms] by blast

theorem drop_link_frees_all_witness:
  "\<exists>r' w'. drop_link new_link initial_world = Inr (r', w') \<and> contents r' = [] \<and> pool_ok w' 0"
  using drop_link_frees_all [OF new_link_ok, of initial_world 0] initial_pool_ok by simp

end
