(* ===== verification/App.thy ===== *)
theory App
  imports Link
begin

text \<open>
  What an app sees of the engine (\<^verbatim>\<open>AppState\<close> of \<^verbatim>\<open>rush/src/engine.rs\<close>): maps from port names to
  shared links. Links are \<^verbatim>\<open>Rc<RefCell<Link>>\<close>: a port holds a reference (a number), the links are in
  a store, and two ports may hold the same reference, which the runtime borrow check of \<^verbatim>\<open>borrow_mut\<close>
  turns into a panic. A \<^verbatim>\<open>HashMap\<close> is an association list, its order being the order in which the map
  is iterated.

  The locale \<open>packet_app\<close> is the contract of the apps that handle one packet at a time; what a
  whole callback does is proved from it once.
\<close>

declare length_contents [simp del] take_append [simp del]

section \<open>Ports, links and callbacks\<close>

record ports =
  app_input :: "(string \<times> nat) list"
  app_output :: "(string \<times> nat) list"

record io =
  io_links :: "nat \<Rightarrow> link"
  io_world :: world

definition PULL_NPACKETS :: nat where "PULL_NPACKETS = LINK_MAX_PACKETS div 10"

text \<open>
  \<^verbatim>\<open>let mut input = app.input.get("input").unwrap().borrow_mut(); let mut output =
  app.output.get("output").unwrap().borrow_mut();\<close>
\<close>

definition borrow_io :: "ports \<Rightarrow> (nat \<times> nat) res" where
  "borrow_io a =
     bindR (unwrap (map_of (app_input a) ''input'')) (\<lambda>i.
     bindR (unwrap (map_of (app_output a) ''output'')) (\<lambda>j.
     if i = j then Inl Already_borrowed else Inr (i, j)))"

text \<open>
  The \<^verbatim>\<open>push\<close> of an app that borrows its input and output for the whole callback and runs \<open>f\<close> on every
  packet received; \<open>x\<close> is the state the app keeps of its own.
\<close>

definition push_through ::
  "(packet \<Rightarrow> link \<times> world \<times> 'x \<Rightarrow> (link \<times> world \<times> 'x) res) \<Rightarrow> ports \<Rightarrow> 'x \<Rightarrow> io \<Rightarrow> ('x \<times> io) res" where
  "push_through f a x s =
     bindR (borrow_io a) (\<lambda>(i, j).
     bindR (drain f (io_links s i) (io_links s j, io_world s, x)) (\<lambda>(inp, out, w, x).
     Inr (x, s\<lparr>io_links := (io_links s)(i := inp, j := out), io_world := w\<rparr>)))"

section \<open>Well-formed states\<close>

definition ports_ok :: "ports \<Rightarrow> nat \<Rightarrow> nat \<Rightarrow> bool" where
  "ports_ok a i j \<longleftrightarrow> map_of (app_input a) ''input'' = Some i \<and> map_of (app_output a) ''output'' = Some j \<and> i \<noteq> j"

text \<open>All links are well formed, and \<open>n\<close> packets are in use.\<close>

definition io_ok :: "io \<Rightarrow> nat \<Rightarrow> bool" where
  "io_ok s n \<longleftrightarrow> (\<forall>i. link_ok (io_links s i)) \<and> pool_ok (io_world s) n"

lemma borrow_io_ok: "ports_ok a i j \<Longrightarrow> borrow_io a = Inr (i, j)"
  by (simp add: ports_ok_def borrow_io_def)

lemma io_okD: "io_ok s n \<Longrightarrow> link_ok (io_links s i)" "io_ok s n \<Longrightarrow> pool_ok (io_world s) n"
  by (simp_all add: io_ok_def)

lemma take_take_append: "take b (take b xs @ ys) = take b (xs @ ys)"
  by (cases "length xs < b") (simp_all add: take_append)

section \<open>Apps that handle one packet at a time\<close>

text \<open>
  The packets that a sequence of packets turns into, and the state it leaves, when each packet \<open>p\<close>
  turns into \<open>emit x p\<close> and moves the state \<open>x\<close> to \<open>nxt x p\<close>.
\<close>

fun emitted :: "('x \<Rightarrow> packet \<Rightarrow> 'v list) \<Rightarrow> ('x \<Rightarrow> packet \<Rightarrow> 'x) \<Rightarrow> 'x \<Rightarrow> packet list \<Rightarrow> 'v list" where
  "emitted emit nxt x [] = []"
| "emitted emit nxt x (p # ps) = emit x p @ emitted emit nxt (nxt x p) ps"

lemma emitted_map: "emitted (\<lambda>_ p. [g p]) nxt x ps = map g ps"
  by (induction ps arbitrary: x) simp_all

text \<open>
  \<open>view\<close> is what is observed of a packet: the packet itself, or the bytes of it that go on the wire.
  \<open>extra\<close> bounds the packets that a step allocates; a step that allocates none cannot exhaust the
  pool.
\<close>

locale packet_app =
  fixes step :: "packet \<Rightarrow> link \<times> world \<times> 'x \<Rightarrow> (link \<times> world \<times> 'x) res"
    and okp :: "packet \<Rightarrow> bool"
    and okx :: "'x \<Rightarrow> bool"
    and view :: "packet \<Rightarrow> 'v"
    and emit :: "'x \<Rightarrow> packet \<Rightarrow> 'v list"
    and nxt :: "'x \<Rightarrow> packet \<Rightarrow> 'x"
    and extra :: nat
  assumes step_ok: "link_ok out \<Longrightarrow> packet_ok p \<Longrightarrow> okp p \<Longrightarrow> okx x \<Longrightarrow> pool_ok w (Suc n) \<Longrightarrow>
      extra = 0 \<or> Suc n + extra \<le> pool_max \<Longrightarrow>
      \<exists>out' w' n'. step p (out, w, x) = Inr (out', w', nxt x p) \<and> link_ok out' \<and>
        map view (contents out') = take LINK_MAX_PACKETS (map view (contents out) @ emit x p) \<and>
        pool_ok w' n' \<and> n' + length (contents out) = n + length (contents out')"
    and okx_nxt: "okx x \<Longrightarrow> okp p \<Longrightarrow> okx (nxt x p)"
begin

lemma steps_ok:
  assumes "link_ok out" and "\<forall>p \<in> set ps. packet_ok p \<and> okp p" and "okx x"
    and "pool_ok w (n + length ps)"
    and "extra = 0 \<or> n + length ps + (LINK_MAX_PACKETS - length (contents out)) + extra \<le> pool_max"
  shows "\<exists>out' w' n'. foldR step ps (out, w, x) = Inr (out', w', foldl nxt x ps) \<and> link_ok out' \<and>
    map view (contents out') = take LINK_MAX_PACKETS (map view (contents out) @ emitted emit nxt x ps) \<and>
    pool_ok w' n' \<and> n' + length (contents out) = n + length (contents out')"
  using assms
proof (induction ps arbitrary: out w x n)
  case Nil
  then show ?case using contents_bound [of out] by auto
next
  case (Cons p ps)
  have "pool_ok w (Suc (n + length ps))" using Cons.prems(4) by simp
  moreover have "extra = 0 \<or> Suc (n + length ps) + extra \<le> pool_max" using Cons.prems(5) by auto
  ultimately obtain out1 w1 n1 where
    1: "step p (out, w, x) = Inr (out1, w1, nxt x p)" "link_ok out1"
       "map view (contents out1) = take LINK_MAX_PACKETS (map view (contents out) @ emit x p)" "pool_ok w1 n1"
       "n1 + length (contents out) = n + length ps + length (contents out1)"
    using step_ok [OF Cons.prems(1) _ _ Cons.prems(3), of p w "n + length ps"] Cons.prems(2) by auto
  have grow: "length (contents out) \<le> length (contents out1)"
    using contents_bound [OF Cons.prems(1)] arg_cong [OF 1(3), of length] by (simp add: take_append)
  define m where "m = n1 - length ps"
  have m: "n1 = m + length ps" "m + length (contents out) = n + length (contents out1)"
    using 1(5) grow by (simp_all add: m_def)
  have "okx (nxt x p)" using okx_nxt Cons.prems(2,3) by simp
  moreover have "extra = 0 \<or>
      m + length ps + (LINK_MAX_PACKETS - length (contents out1)) + extra \<le> pool_max"
    using Cons.prems(5) m(2) contents_bound [OF 1(2)] contents_bound [OF Cons.prems(1)]
    by simp arith
  ultimately obtain out' w' n' where
    2: "foldR step ps (out1, w1, nxt x p) = Inr (out', w', foldl nxt (nxt x p) ps)" "link_ok out'"
       "map view (contents out') = take LINK_MAX_PACKETS (map view (contents out1) @ emitted emit nxt (nxt x p) ps)"
       "pool_ok w' n'" "n' + length (contents out1) = m + length (contents out')"
    using Cons.IH [OF 1(2), of "nxt x p" w1 m] Cons.prems(2) 1(4) m(1) by auto
  have "map view (contents out') = take LINK_MAX_PACKETS (map view (contents out) @ emit x p @ emitted emit nxt (nxt x p) ps)"
    unfolding 2(3) 1(3) by (simp only: take_take_append append_assoc)
  then show ?case
    using 1(1) 2 m(2) by (intro exI [of _ out'] exI [of _ w'] exI [of _ n']) auto
qed

text \<open>A whole callback: the input is drained and everything it turns into is sent, in order.\<close>

lemma push_ok:
  assumes "ports_ok a i j" and "io_ok s n" and "okx x"
    and "\<forall>p \<in> set (contents (io_links s i)). okp p"
    and "extra = 0 \<or> n + LINK_MAX_PACKETS + extra \<le> pool_max"
    and "length (contents (io_links s i)) \<le> n"
  shows "\<exists>s' n'. push_through step a x s = Inr (foldl nxt x (contents (io_links s i)), s') \<and> io_ok s' n' \<and>
    contents (io_links s' i) = [] \<and>
    map view (contents (io_links s' j)) =
      take LINK_MAX_PACKETS (map view (contents (io_links s j)) @ emitted emit nxt x (contents (io_links s i))) \<and>
    (\<forall>k. k \<noteq> i \<longrightarrow> k \<noteq> j \<longrightarrow> io_links s' k = io_links s k) \<and>
    n' + length (contents (io_links s i)) + length (contents (io_links s j)) =
      n + length (contents (io_links s' j))"
proof -
  let ?in = "io_links s i" and ?out = "io_links s j"
  have ok: "link_ok ?in" "link_ok ?out" "pool_ok (io_world s) n"
    using assms(2) by (simp_all add: io_ok_def)
  define m where "m = n - length (contents ?in)"
  have m: "n = m + length (contents ?in)" using assms(6) by (simp add: m_def)
  have ps: "\<forall>p \<in> set (contents ?in). packet_ok p \<and> okp p"
    using assms(4) link_okD(5) [OF ok(1)] by blast
  have "extra = 0 \<or>
      m + length (contents ?in) + (LINK_MAX_PACKETS - length (contents ?out)) + extra \<le> pool_max"
    using assms(5) m by simp arith
  from steps_ok [OF ok(2) ps assms(3) _ this, of "io_world s"] ok(3) m obtain out' w' n' where
    1: "foldR step (contents ?in) (?out, io_world s, x) = Inr (out', w', foldl nxt x (contents ?in))"
       "link_ok out'"
       "map view (contents out') = take LINK_MAX_PACKETS (map view (contents ?out) @ emitted emit nxt x (contents ?in))"
       "pool_ok w' n'" "n' + length (contents ?out) = m + length (contents out')"
    by auto
  from drain_ok [OF ok(1) 1(1)] obtain inp' where
    2: "drain step ?in (?out, io_world s, x) = Inr (inp', out', w', foldl nxt x (contents ?in))"
       "link_ok inp'" "contents inp' = []"
    by auto
  let ?s = "s\<lparr>io_links := (io_links s)(i := inp', j := out'), io_world := w'\<rparr>"
  have ij: "i \<noteq> j" using assms(1) by (simp add: ports_ok_def)
  have "push_through step a x s = Inr (foldl nxt x (contents ?in), ?s)"
    using 2(1) by (simp add: push_through_def borrow_io_ok [OF assms(1)])
  moreover have "io_ok ?s n'"
    using assms(2) 1(2,4) 2(2) by (simp add: io_ok_def)
  ultimately show ?thesis
    using 1(3,5) 2(3) ij m
    by (intro exI [of _ ?s] exI [of _ n'] conjI) auto
qed

end

text \<open>A step that frees its packet.\<close>

lemma free_step:
  assumes "link_ok out" and "packet_ok p" and "pool_ok w (Suc n)"
  shows "free p w = Inr (freed p w)" "pool_ok (freed p w) n"
    "take LINK_MAX_PACKETS (contents out @ []) = contents out"
  using assms contents_bound [OF assms(1)] by (simp_all add: free_ok freed_pool_ok)

section \<open>A state to evaluate callbacks on\<close>

text \<open>One input link that holds one packet, one empty output link.\<close>

definition demo_ports :: ports where
  "demo_ports = \<lparr>app_input = [(''input'', 0)], app_output = [(''output'', 1)]\<rparr>"

definition demo_link :: "packet \<Rightarrow> link" where
  "demo_link p = fst (projr (transmit new_link p initial_world))"

definition demo_io :: "packet \<Rightarrow> io" where
  "demo_io p = \<lparr>io_links = (\<lambda>_. new_link)(0 := demo_link p), io_world = snd (projr (allocate initial_world))\<rparr>"

lemma demo_link_ok: "packet_ok p \<Longrightarrow> link_ok (demo_link p) \<and> contents (demo_link p) = [p]"
  using transmit_room [OF new_link_ok, of p initial_world]
  by (auto simp: demo_link_def LINK_MAX_PACKETS_def LINK_RING_SIZE_def)

lemma demo_world_ok: "pool_ok (snd (projr (allocate initial_world))) (Suc 0)"
  using allocate_ok [OF initial_pool_ok] by (auto simp: pool_max_def)

lemma demo_io_ok:
  "ports_ok demo_ports 0 1" "packet_ok p \<Longrightarrow> io_ok (demo_io p) 1"
  "packet_ok p \<Longrightarrow> contents (io_links (demo_io p) 0) = [p]"
  "k \<noteq> 0 \<Longrightarrow> contents (io_links (demo_io p) k) = []"
  by (simp_all add: demo_ports_def demo_io_def ports_ok_def io_ok_def new_link_ok demo_world_ok demo_link_ok)

end
