(* ===== verification/Rawsocket.thy ===== *)
theory Rawsocket
  imports App
begin

text \<open>
  \<^verbatim>\<open>rush/src/rawsocket_app.rs\<close>: the app \<^verbatim>\<open>RawSocket\<close>, which moves packets between a network device and the app
  network. The system calls are a parameter: a record of functions on the state of the network, which
  return what the calls return; the calls on files are those of the app \<^verbatim>\<open>Top\<close> (\<^verbatim>\<open>rush/src/flow.rs\<close>), where
  \<open>os_mmap\<close> tells whether the mapping succeeded. \<open>os_select_read\<close> and \<open>os_select_write\<close> stand for \<^verbatim>\<open>select(2)\<close> with the
  socket in the read or the write set and a zero timeout, and return the result and \<^verbatim>\<open>errno\<close>.
\<close>

section \<open>System calls\<close>

record 'n os =
  os_select_read :: "i32 \<Rightarrow> 'n \<Rightarrow> int \<times> int \<times> 'n"
  os_select_write :: "i32 \<Rightarrow> 'n \<Rightarrow> int \<times> int \<times> 'n"
  os_read :: "i32 \<Rightarrow> nat \<Rightarrow> 'n \<Rightarrow> int \<times> u8 list \<times> 'n"
  os_write :: "i32 \<Rightarrow> u8 list \<Rightarrow> 'n \<Rightarrow> int \<times> 'n"
  os_if_nametoindex :: "string \<Rightarrow> 'n \<Rightarrow> u32"
  os_socket :: "'n \<Rightarrow> i32 \<times> 'n"
  os_bind :: "i32 \<Rightarrow> u32 \<Rightarrow> 'n \<Rightarrow> int \<times> 'n"
  os_close :: "i32 \<Rightarrow> 'n \<Rightarrow> 'n"
  os_open :: "string \<Rightarrow> 'n \<Rightarrow> int \<times> 'n"
  os_ftruncate :: "int \<Rightarrow> nat \<Rightarrow> 'n \<Rightarrow> int \<times> 'n"
  os_mmap :: "int \<Rightarrow> nat \<Rightarrow> 'n \<Rightarrow> bool \<times> 'n"

definition EAGAIN :: int where "EAGAIN = 11"
definition EINTR :: int where "EINTR = 4"

section \<open>The app\<close>

text \<open>\<^verbatim>\<open>CString::new(s).expect("cstr failed")\<close>, which fails on a string with a zero byte.\<close>

definition cstr :: "string \<Rightarrow> string res" where
  "cstr s = (if CHR 0x00 \<in> set s then Inl Unwrap_err else Inr s)"

definition open_raw_socket :: "'n os \<Rightarrow> string \<Rightarrow> 'n \<Rightarrow> (i32 \<times> 'n) res" where
  "open_raw_socket os ifname net =
     bindR (cstr ifname) (\<lambda>ifname.
      let index = os_if_nametoindex os ifname net in
      if index = 0 then Inl (Assertion_failed ''invalid ifname'')
      else let (sock, net) = os_socket os net in
        if sock = - 1 then Inl (Assertion_failed ''cannot create socket'')
        else let (r, net) = os_bind os sock index net in
          if r = - 1 then Inl (Assertion_failed ''cannot bind to interface'')
          else Inr (sock, net))"

definition rawsocket_stop :: "'n os \<Rightarrow> i32 \<Rightarrow> 'n \<Rightarrow> 'n" where
  "rawsocket_stop os sock net = os_close os sock net"

text \<open>The loop that retries \<^verbatim>\<open>select\<close> as long as it is interrupted.\<close>

definition select_loop :: "('n \<Rightarrow> int \<times> int \<times> 'n) \<Rightarrow> 'n \<Rightarrow> (bool \<times> 'n) res" where
  "select_loop sel net =
     bindR (loopR (\<lambda>(ret, err, net). ret = - 1 \<and> (err = EAGAIN \<or> err = EINTR))
             (\<lambda>(ret, err, net). Inr (sel net)) (- 1, EAGAIN, net)) (\<lambda>(ret, err, net).
     if ret = - 1 then Inl (Assertion_failed ''cannot select(2) on raw socket'') else Inr (ret = 1, net))"

definition can_receive :: "'n os \<Rightarrow> i32 \<Rightarrow> 'n \<Rightarrow> (bool \<times> 'n) res" where
  "can_receive os sock = select_loop (os_select_read os sock)"

definition can_transmit :: "'n os \<Rightarrow> i32 \<Rightarrow> 'n \<Rightarrow> (bool \<times> 'n) res" where
  "can_transmit os sock = select_loop (os_select_write os sock)"

definition sock_receive :: "'n os \<Rightarrow> i32 \<Rightarrow> world \<times> 'n \<Rightarrow> (packet \<times> world \<times> 'n) res" where
  "sock_receive os sock = (\<lambda>(w, net).
     bindR (allocate w) (\<lambda>(p, w).
     let (r, bytes, net) = os_read os sock PAYLOAD_SIZE net;
         p = p\<lparr>p_data := bytes @ drop (length bytes) (p_data p)\<rparr>
     in if r \<le> 0 then Inl (Assertion_failed ''cannot read(2) packet'')
        else Inr (p\<lparr>p_length := of_int r\<rparr>, w, net)))"

definition sock_transmit :: "'n os \<Rightarrow> i32 \<Rightarrow> packet \<Rightarrow> world \<times> 'n \<Rightarrow> (world \<times> 'n) res" where
  "sock_transmit os sock p = (\<lambda>(w, net).
     let (written, net) = os_write os sock (take (unat (p_length p)) (p_data p)) net in
     if written \<noteq> int (unat (p_length p)) then Inl (Assertion_failed ''cannot write(2) packet'')
     else bindR (free p w) (\<lambda>w. Inr (w, net)))"

text \<open>\<^verbatim>\<open>while limit > 0 && can_receive(..)\<close>, by recursion on the limit.\<close>

fun rawsocket_pull_loop :: "'n os \<Rightarrow> i32 \<Rightarrow> nat \<Rightarrow> link \<times> world \<times> 'n \<Rightarrow> (link \<times> world \<times> 'n) res" where
  "rawsocket_pull_loop os sock 0 s = Inr s"
| "rawsocket_pull_loop os sock (Suc limit) (out, w, net) =
     bindR (can_receive os sock net) (\<lambda>(b, net).
     if b then
       bindR (sock_receive os sock (w, net)) (\<lambda>(p, w, net).
       bindR (transmit out p w) (\<lambda>(out, w). rawsocket_pull_loop os sock limit (out, w, net)))
     else Inr (out, w, net))"

definition rawsocket_pull :: "'n os \<Rightarrow> i32 \<Rightarrow> ports \<Rightarrow> io \<times> 'n \<Rightarrow> (io \<times> 'n) res" where
  "rawsocket_pull os sock a = (\<lambda>(s, net).
     case map_of (app_output a) ''output'' of
       None \<Rightarrow> Inr (s, net)
     | Some j \<Rightarrow>
         bindR (rawsocket_pull_loop os sock PULL_NPACKETS (io_links s j, io_world s, net)) (\<lambda>(out, w, net).
         Inr (s\<lparr>io_links := (io_links s)(j := out), io_world := w\<rparr>, net)))"

text \<open>
  \<^verbatim>\<open>while !link::empty(&input) && can_transmit(..)\<close>: the condition has an effect and is evaluated
  before the loop and at the end of its body.
\<close>

definition push_ready :: "'n os \<Rightarrow> i32 \<Rightarrow> link \<Rightarrow> 'n \<Rightarrow> (bool \<times> 'n) res" where
  "push_ready os sock inp net = (if empty inp then Inr (False, net) else can_transmit os sock net)"

definition rawsocket_push_loop :: "'n os \<Rightarrow> i32 \<Rightarrow> link \<times> world \<times> 'n \<Rightarrow> (link \<times> world \<times> 'n) res" where
  "rawsocket_push_loop os sock = (\<lambda>(inp, w, net).
     bindR (push_ready os sock inp net) (\<lambda>(go, net).
     bindR (loopR fst (\<lambda>(go, inp, w, net).
              bindR (receive inp) (\<lambda>(p, inp).
              bindR (sock_transmit os sock p (w, net)) (\<lambda>(w, net).
              bindR (push_ready os sock inp net) (\<lambda>(go, net). Inr (go, inp, w, net)))))
            (go, inp, w, net)) (\<lambda>(_, inp, w, net). Inr (inp, w, net))))"

definition rawsocket_push :: "'n os \<Rightarrow> i32 \<Rightarrow> ports \<Rightarrow> io \<times> 'n \<Rightarrow> (io \<times> 'n) res" where
  "rawsocket_push os sock a = (\<lambda>(s, net).
     case map_of (app_input a) ''input'' of
       None \<Rightarrow> Inr (s, net)
     | Some i \<Rightarrow>
         bindR (rawsocket_push_loop os sock (io_links s i, io_world s, net)) (\<lambda>(inp, w, net).
         Inr (s\<lparr>io_links := (io_links s)(i := inp), io_world := w\<rparr>, net)))"

section \<open>A network that works\<close>

declare length_contents [simp del] take_append [simp del]

text \<open>
  The documented behaviour of the calls on a socket in working order: \<open>inbox\<close> are the frames waiting to be read and
  \<open>outbox\<close> those written. \<^verbatim>\<open>select\<close> reports the socket readable if a frame is waiting, and writable;
  \<^verbatim>\<open>read\<close> returns the first frame waiting if it fits; \<^verbatim>\<open>write\<close> takes the whole frame.
\<close>

definition os_works :: "'n os \<Rightarrow> i32 \<Rightarrow> ('n \<Rightarrow> u8 list list) \<Rightarrow> ('n \<Rightarrow> u8 list list) \<Rightarrow> bool" where
  "os_works os sock inbox outbox \<longleftrightarrow>
     (\<forall>net. os_select_read os sock net = (if inbox net = [] then 0 else 1, 0, net)) \<and>
     (\<forall>net. os_select_write os sock net = (1, 0, net)) \<and>
     (\<forall>net f fs n. inbox net = f # fs \<longrightarrow> length f \<le> n \<longrightarrow>
        (\<exists>net'. os_read os sock n net = (int (length f), f, net') \<and> inbox net' = fs \<and> outbox net' = outbox net)) \<and>
     (\<forall>net f. \<exists>net'. os_write os sock f net = (int (length f), net') \<and>
        inbox net' = inbox net \<and> outbox net' = outbox net @ [f])"

definition frames_ok :: "u8 list list \<Rightarrow> bool" where
  "frames_ok fs \<longleftrightarrow> (\<forall>f \<in> set fs. 0 < length f \<and> length f \<le> PAYLOAD_SIZE)"

lemma can_receive_eq:
  "os_works os sock inbox outbox \<Longrightarrow> can_receive os sock net = Inr (inbox net \<noteq> [], net)"
  by (simp add: os_works_def can_receive_def select_loop_def)

lemma can_transmit_eq: "os_works os sock inbox outbox \<Longrightarrow> can_transmit os sock net = Inr (True, net)"
  by (simp add: os_works_def can_transmit_def select_loop_def)

lemma sock_receive_ok:
  assumes "os_works os sock inbox outbox" and "inbox net = f # fs" and "0 < length f" "length f \<le> PAYLOAD_SIZE"
    and "pool_ok w n" and "n < pool_max"
  shows "\<exists>p w' net'. sock_receive os sock (w, net) = Inr (p, w', net') \<and> packet_ok p \<and> frame p = f \<and>
    pool_ok w' (Suc n) \<and> inbox net' = fs \<and> outbox net' = outbox net"
proof -
  obtain p w' where p: "allocate w = Inr (p, w')" "packet_ok p" "pool_ok w' (Suc n)"
    using allocate_ok [OF assms(5,6)] by blast
  obtain net' where net': "os_read os sock PAYLOAD_SIZE net = (int (length f), f, net')" "inbox net' = fs"
      "outbox net' = outbox net"
    using assms(1,2,4) unfolding os_works_def by blast
  let ?p = "p\<lparr>p_data := f @ drop (length f) (p_data p), p_length := of_nat (length f)\<rparr>"
  have "unat (of_nat (length f) :: u16) = length f"
    using assms(4) by (intro unat_of_nat_small) (simp add: PAYLOAD_SIZE_def)
  then have "packet_ok ?p" "frame ?p = f"
    using p(2) assms(4) by (simp_all add: packet_ok_def frame_def take_append)
  moreover have "sock_receive os sock (w, net) = Inr (?p, w', net')"
    using p(1) net'(1) assms(3) by (simp add: sock_receive_def Let_def)
  ultimately show ?thesis using p(3) net' by blast
qed

lemma rawsocket_pull_loop_ok:
  assumes "os_works os sock inbox outbox" and "frames_ok (inbox net)" and "link_ok out" and "pool_ok w n"
    and "n + (LINK_MAX_PACKETS - length (contents out)) < pool_max"
  shows "\<exists>out' w' net' n'. rawsocket_pull_loop os sock k (out, w, net) = Inr (out', w', net') \<and> link_ok out' \<and>
    map frame (contents out') = take LINK_MAX_PACKETS (map frame (contents out) @ take k (inbox net)) \<and>
    inbox net' = drop k (inbox net) \<and> outbox net' = outbox net \<and>
    pool_ok w' n' \<and> n' + length (contents out) = n + length (contents out')"
  using assms(2-5)
proof (induction k arbitrary: out w net n)
  case 0
  then show ?case using contents_bound [OF 0(2)] by auto
next
  case (Suc k)
  show ?case
  proof (cases "inbox net")
    case Nil
    then show ?thesis
      using Suc.prems contents_bound [OF Suc.prems(2)] by (auto simp: can_receive_eq [OF assms(1)])
  next
    case (Cons f fs)
    have f: "0 < length f" "length f \<le> PAYLOAD_SIZE" "frames_ok fs" and n: "n < pool_max"
      using Suc.prems(1,4) Cons by (simp_all add: frames_ok_def)
    from sock_receive_ok [OF assms(1) Cons f(1,2) Suc.prems(3) n] obtain p w1 net1 where
      p: "sock_receive os sock (w, net) = Inr (p, w1, net1)" "packet_ok p" "frame p = f"
        "pool_ok w1 (Suc n)" "inbox net1 = fs" "outbox net1 = outbox net"
      by blast
    from ch.send_ok [OF Suc.prems(2) p(2,4)] obtain out1 w2 n1 where
      t: "transmit out p w1 = Inr (out1, w2)" "link_ok out1"
         "contents out1 = take LINK_MAX_PACKETS (contents out @ [p])" "pool_ok w2 n1"
         "n1 + length (contents out) + 1 = Suc n + length (contents out1)"
      by blast
    have grow: "length (contents out) \<le> length (contents out1)" "length (contents out1) \<le> LINK_MAX_PACKETS"
      using contents_bound [OF Suc.prems(2)] by (simp_all add: t(3) take_append)
    have "n1 + (LINK_MAX_PACKETS - length (contents out1)) < pool_max"
      using Suc.prems(4) t(5) grow by linarith
    from Suc.IH [OF _ t(2,4) this, of net1] f(3) p(5) obtain out' w' net' n' where
      r: "rawsocket_pull_loop os sock k (out1, w2, net1) = Inr (out', w', net')" "link_ok out'"
        "map frame (contents out') = take LINK_MAX_PACKETS (map frame (contents out1) @ take k fs)"
        "inbox net' = drop k fs" "outbox net' = outbox net1" "pool_ok w' n'"
        "n' + length (contents out1) = n1 + length (contents out')"
      by auto
    have "map frame (contents out1) = take LINK_MAX_PACKETS (map frame (contents out) @ [f])"
      by (simp add: t(3) take_map [symmetric] p(3))
    then have "map frame (contents out') =
        take LINK_MAX_PACKETS (map frame (contents out) @ take (Suc k) (inbox net))"
      unfolding r(3) Cons by (simp add: take_take_append)
    moreover have "rawsocket_pull_loop os sock (Suc k) (out, w, net) = Inr (out', w', net')"
      using p(1) t(1) r(1) Cons by (simp add: can_receive_eq [OF assms(1)])
    ultimately show ?thesis
      using r t(5) p(6) Cons by (intro exI [of _ out'] exI [of _ w'] exI [of _ net'] exI [of _ n']) simp
  qed
qed

lemma rawsocket_push_run:
  assumes "os_works os sock inbox outbox" and "link_ok inp" and "pool_ok w (n + length (contents inp))"
  shows "\<exists>inp' w' net'. rawsocket_push_loop os sock (inp, w, net) = Inr (inp', w', net') \<and> link_ok inp' \<and>
    contents inp' = [] \<and> outbox net' = outbox net @ map frame (contents inp) \<and> inbox net' = inbox net \<and>
    pool_ok w' n"
  using assms(2,3)
proof (induction "contents inp" arbitrary: inp w net)
  case Nil
  then have "empty inp" using ch.is_empty_iff by simp
  then show ?case using Nil by (simp add: rawsocket_push_loop_def push_ready_def)
next
  case (Cons p ps)
  obtain inp1 where i: "receive inp = Inr (p, inp1)" "link_ok inp1" "contents inp1 = ps"
    using ch.recv_first [OF Cons.prems(1) Cons.hyps(2) [symmetric]] by blast
  have ne: "\<not> empty inp" using ch.is_empty_iff [OF Cons.prems(1)] Cons.hyps(2) by auto
  have ok: "packet_ok p" using link_okD(5) [OF Cons.prems(1), of p] Cons.hyps(2) [symmetric] by simp
  have pool: "pool_ok w (Suc (n + length ps))" using Cons.prems(2) Cons.hyps(2) [symmetric] by simp
  have fr: "length (frame p) = unat (p_length p)"
    using ok unat_u16_lt [of "p_length p"] by (simp add: frame_def packet_ok_def PAYLOAD_SIZE_def del: unat_u16_lt)
  obtain net1 where n1: "os_write os sock (frame p) net = (int (length (frame p)), net1)"
      "inbox net1 = inbox net" "outbox net1 = outbox net @ [frame p]"
    using assms(1) unfolding os_works_def by blast
  have t: "sock_transmit os sock p (w, net) = Inr (freed p w, net1)"
    using n1(1) free_ok [OF pool, of p] by (simp add: sock_transmit_def frame_def [symmetric] fr)
  have step: "rawsocket_push_loop os sock (inp, w, net) = rawsocket_push_loop os sock (inp1, freed p w, net1)"
    using ne i(1) t
    by (cases "empty inp1")
      (simp_all add: rawsocket_push_loop_def push_ready_def can_transmit_eq [OF assms(1)])
  have "pool_ok (freed p w) (n + length (contents inp1))"
    using freed_pool_ok [OF pool ok] i(3) by simp
  from Cons.hyps(1) [OF i(3) [symmetric] i(2) this, of net1] show ?case
    unfolding step Cons.hyps(2) [symmetric] i(3) by (auto simp: n1)
qed

section \<open>Properties\<close>

text \<open>
  C24. The app \<^verbatim>\<open>RawSocket\<close> on a network in working order: \<^verbatim>\<open>pull\<close> reads at most 102 waiting frames, in order, and puts
  them unchanged on its output link; \<^verbatim>\<open>push\<close> writes every packet of its input link, in order and
  byte for byte, and returns the packets to the freelist.
\<close>

theorem rawsocket_moves_frames:
  assumes "os_works os sock inbox outbox" and "frames_ok (inbox net)" and "io_ok s n"
    and "map_of (app_output a) ''output'' = Some j" and "map_of (app_input a) ''input'' = Some i"
    and "n + LINK_MAX_PACKETS < pool_max" and "length (contents (io_links s i)) \<le> n"
  shows "(\<exists>s' net' n'. rawsocket_pull os sock a (s, net) = Inr (s', net') \<and> io_ok s' n' \<and>
      map frame (contents (io_links s' j)) =
        take LINK_MAX_PACKETS (map frame (contents (io_links s j)) @ take 102 (inbox net)) \<and>
      inbox net' = drop 102 (inbox net) \<and> outbox net' = outbox net) \<and>
    (\<exists>s' net'. rawsocket_push os sock a (s, net) = Inr (s', net') \<and>
      io_ok s' (n - length (contents (io_links s i))) \<and> contents (io_links s' i) = [] \<and>
      outbox net' = outbox net @ map frame (contents (io_links s i)) \<and> inbox net' = inbox net)"
proof
  have k: "PULL_NPACKETS = 102" by (simp add: PULL_NPACKETS_def LINK_MAX_PACKETS_def LINK_RING_SIZE_def)
  have r: "n + (LINK_MAX_PACKETS - length (contents (io_links s j))) < pool_max" using assms(6) by simp
  from rawsocket_pull_loop_ok [OF assms(1,2) io_okD(1) [OF assms(3)] io_okD(2) [OF assms(3)] r, of 102]
  obtain out' w' net' n' where
    p: "rawsocket_pull_loop os sock 102 (io_links s j, io_world s, net) = Inr (out', w', net')" "link_ok out'"
      "map frame (contents out') = take LINK_MAX_PACKETS (map frame (contents (io_links s j)) @ take 102 (inbox net))"
      "inbox net' = drop 102 (inbox net)" "outbox net' = outbox net" "pool_ok w' n'"
    by blast
  then show "\<exists>s' net' n'. rawsocket_pull os sock a (s, net) = Inr (s', net') \<and> io_ok s' n' \<and>
      map frame (contents (io_links s' j)) =
        take LINK_MAX_PACKETS (map frame (contents (io_links s j)) @ take 102 (inbox net)) \<and>
      inbox net' = drop 102 (inbox net) \<and> outbox net' = outbox net"
    using assms(3,4) by (intro exI [of _ "s\<lparr>io_links := (io_links s)(j := out'), io_world := w'\<rparr>"]
        exI [of _ net'] exI [of _ n']) (simp add: rawsocket_pull_def k io_ok_def)
next
  have "pool_ok (io_world s) (n - length (contents (io_links s i)) + length (contents (io_links s i)))"
    using io_okD(2) [OF assms(3)] assms(7) by simp
  from rawsocket_push_run [OF assms(1) io_okD(1) [OF assms(3)] this, of net] obtain inp' w' net' where
    p: "rawsocket_push_loop os sock (io_links s i, io_world s, net) = Inr (inp', w', net')" "link_ok inp'"
      "contents inp' = []" "outbox net' = outbox net @ map frame (contents (io_links s i))"
      "inbox net' = inbox net" "pool_ok w' (n - length (contents (io_links s i)))"
    by blast
  then show "\<exists>s' net'. rawsocket_push os sock a (s, net) = Inr (s', net') \<and>
      io_ok s' (n - length (contents (io_links s i))) \<and> contents (io_links s' i) = [] \<and>
      outbox net' = outbox net @ map frame (contents (io_links s i)) \<and> inbox net' = inbox net"
    using assms(3,5) by (intro exI [of _ "s\<lparr>io_links := (io_links s)(i := inp'), io_world := w'\<rparr>"]
        exI [of _ net']) (simp add: rawsocket_push_def io_ok_def)
qed

text \<open>A network of two lists of frames.\<close>

definition demo_os :: "(u8 list list \<times> u8 list list) os" where
  "demo_os =
     \<lparr>os_select_read = (\<lambda>_ net. (if fst net = [] then 0 else 1, 0, net)),
      os_select_write = (\<lambda>_ net. (1, 0, net)),
      os_read = (\<lambda>_ n net. case fst net of
        [] \<Rightarrow> (- 1, [], net) | f # fs \<Rightarrow> (int (length (take n f)), take n f, (fs, snd net))),
      os_write = (\<lambda>_ f net. (int (length f), (fst net, snd net @ [f]))),
      os_if_nametoindex = (\<lambda>_ _. 1), os_socket = (\<lambda>net. (3, net)), os_bind = (\<lambda>_ _ net. (0, net)),
      os_close = (\<lambda>_ net. net), os_open = (\<lambda>_ net. (4, net)), os_ftruncate = (\<lambda>_ _ net. (0, net)),
      os_mmap = (\<lambda>_ _ net. (True, net))\<rparr>"

lemma demo_os_works: "os_works demo_os sock fst snd"
  by (auto simp: os_works_def demo_os_def)

theorem rawsocket_moves_frames_witness:
  "(\<exists>s' net'. rawsocket_pull demo_os 3 demo_ports (demo_io new_packet_noroot, ([[1, 2, 3]], [])) = Inr (s', net') \<and>
      map frame (contents (io_links s' 1)) = [[1, 2, 3]] \<and> net' = ([], [])) \<and>
   (\<exists>s' net'. rawsocket_push demo_os 3 demo_ports (demo_io new_packet_noroot, ([[1, 2, 3]], [])) = Inr (s', net') \<and>
      contents (io_links s' 0) = [] \<and> snd net' = [frame new_packet_noroot])"
proof -
  have "frames_ok [[1, 2, 3 :: u8]]" "Suc 0 + LINK_MAX_PACKETS < pool_max"
    by (simp_all add: frames_ok_def PAYLOAD_SIZE_def LINK_MAX_PACKETS_def LINK_RING_SIZE_def pool_max_def)
  then show ?thesis
    using rawsocket_moves_frames [OF demo_os_works [of 3], of "([[1, 2, 3]], [])" "demo_io new_packet_noroot" 1 demo_ports 1 0]
    by (auto simp: demo_io_ok demo_io_ok(2) [unfolded One_nat_def] demo_ports_def LINK_MAX_PACKETS_def LINK_RING_SIZE_def
        prod_eq_iff)
qed

end
