(* ===== verification/Qos.thy ===== *)
theory Qos
  imports App
begin

text \<open>
  \<^verbatim>\<open>rush/src/qos.rs\<close>: the apps that impair traffic: \<^verbatim>\<open>Loss\<close>, \<^verbatim>\<open>Latency\<close>, \<^verbatim>\<open>Jitter\<close> and \<^verbatim>\<open>RateLimiter\<close>. A point in time is
  a number of nanoseconds; \<open>now\<close> is what \<^verbatim>\<open>engine::now()\<close> returns during the callback.

  The random number generator of the \<^verbatim>\<open>rand\<close> crate is a parameter: the sequence of the numerators of
  the values \<^verbatim>\<open>gen::<f64>()\<close> returns, which are multiples of \<open>2 ^ -53\<close> below 1.
\<close>

section \<open>Floating point\<close>

datatype f64 = Fin rat | Inf | NegInf | NaN

fun f64_le :: "f64 \<Rightarrow> f64 \<Rightarrow> bool" where
  "f64_le NaN y = False"
| "f64_le x NaN = False"
| "f64_le NegInf y = True"
| "f64_le x Inf = True"
| "f64_le (Fin a) (Fin b) = (a \<le> b)"
| "f64_le x y = False"

fun f64_lt :: "f64 \<Rightarrow> f64 \<Rightarrow> bool" where
  "f64_lt NaN y = False"
| "f64_lt x NaN = False"
| "f64_lt x NegInf = False"
| "f64_lt NegInf y = True"
| "f64_lt (Fin a) (Fin b) = (a < b)"
| "f64_lt (Fin a) Inf = True"
| "f64_lt Inf y = False"

type_synonym rng = "nat \<Rightarrow> nat"

text \<open>\<^verbatim>\<open>rng.gen::<f64>()\<close>: the numerator of the next draw.\<close>

definition gen_f64 :: "rng \<Rightarrow> nat \<times> rng" where
  "gen_f64 r = (r 0, \<lambda>i. r (Suc i))"

definition draw_val :: "nat \<Rightarrow> f64" where
  "draw_val k = Fin (of_nat k / 2 ^ 53)"

text \<open>
  A natural number rounded to 53 significant bits, ties to even: the conversion \<^verbatim>\<open>u64 as f64\<close>, and the
  product of two integers in floating point.
\<close>

fun bit_length :: "nat \<Rightarrow> nat" where
  "bit_length n = (if n = 0 then 0 else Suc (bit_length (n div 2)))"

declare bit_length.simps [simp del]

definition round53 :: "nat \<Rightarrow> nat" where
  "round53 n =
     (if bit_length n \<le> 53 then n
      else let s = bit_length n - 53;
               q = n div 2 ^ s;
               r = n mod 2 ^ s;
               half = 2 ^ (s - 1)
           in (if r < half \<or> (r = half \<and> even q) then q else q + 1) * 2 ^ s)"

section \<open>Loss\<close>

definition loss_new :: "f64 \<Rightarrow> f64 res" where
  "loss_new ratio =
     (if f64_le (Fin 0) ratio \<and> f64_le ratio (Fin 1) then Inr ratio
      else Inl (Assertion_failed ''Ratio must be within 0.0 and 1.0''))"

definition loss_step :: "f64 \<Rightarrow> packet \<Rightarrow> link \<times> world \<times> rng \<Rightarrow> (link \<times> world \<times> rng) res" where
  "loss_step ratio p = (\<lambda>(out, w, rng).
     let (d, rng) = gen_f64 rng in
     if f64_le ratio (draw_val d)
     then bindR (transmit out p w) (\<lambda>(out, w). Inr (out, w, rng))
     else bindR (free p w) (\<lambda>w. Inr (out, w, rng)))"

definition loss_push :: "f64 \<Rightarrow> rng \<Rightarrow> ports \<Rightarrow> io \<Rightarrow> (rng \<times> io) res" where
  "loss_push ratio rng a s = push_through (loss_step ratio) a rng s"

section \<open>DelayQueue\<close>

datatype delayed_packet = Delay nat | Packet packet

record delay_queue =
  dq_packets :: "delayed_packet list"
  dq_capacity :: nat

definition dq_new :: "nat \<Rightarrow> delay_queue" where
  "dq_new c = \<lparr>dq_packets = [], dq_capacity = c\<rparr>"

definition dq_full :: "delay_queue \<Rightarrow> bool" where
  "dq_full q \<longleftrightarrow> dq_capacity q \<le> length (dq_packets q)"

definition dq_empty :: "delay_queue \<Rightarrow> bool" where
  "dq_empty q \<longleftrightarrow> dq_packets q = []"

definition peek :: "delay_queue \<Rightarrow> delayed_packet res" where
  "peek q = (case dq_packets q of [] \<Rightarrow> Inl Queue_underflow | d # _ \<Rightarrow> Inr d)"

definition enqueue_delay :: "nat \<Rightarrow> delay_queue \<Rightarrow> delay_queue res" where
  "enqueue_delay ttx q =
     (if dq_full q then Inl Queue_overflow else Inr (q\<lparr>dq_packets := dq_packets q @ [Delay ttx]\<rparr>))"

definition enqueue_packet :: "packet \<Rightarrow> delay_queue \<Rightarrow> delay_queue res" where
  "enqueue_packet p q =
     (if dq_full q then Inl Queue_overflow else Inr (q\<lparr>dq_packets := dq_packets q @ [Packet p]\<rparr>))"

text \<open>\<^verbatim>\<open>need_tx\<close> removes a delay that has passed.\<close>

definition need_tx :: "nat \<Rightarrow> delay_queue \<Rightarrow> (bool \<times> delay_queue) res" where
  "need_tx now q =
     bindR (peek q) (\<lambda>d. case d of
       Packet _ \<Rightarrow> Inr (True, q)
     | Delay ttx \<Rightarrow>
         if ttx \<le> now then Inr (True, q\<lparr>dq_packets := tl (dq_packets q)\<rparr>) else Inr (False, q))"

definition dequeue_packet :: "delay_queue \<Rightarrow> (packet \<times> delay_queue) res" where
  "dequeue_packet q =
     (case dq_packets q of
        Packet p # ds \<Rightarrow> Inr (p, q\<lparr>dq_packets := ds\<rparr>)
      | Delay _ # _ \<Rightarrow> Inl Expected_packet
      | [] \<Rightarrow> Inl Queue_underflow)"

text \<open>\<^verbatim>\<open>Drop for DelayQueue\<close>.\<close>

definition drop_queue :: "delay_queue \<Rightarrow> world \<Rightarrow> (delay_queue \<times> world) res" where
  "drop_queue q w =
     loopR (\<lambda>(q, w). \<not> dq_empty q)
       (\<lambda>(q, w). bindR (peek q) (\<lambda>d. case d of
          Packet _ \<Rightarrow> bindR (dequeue_packet q) (\<lambda>(p, q). bindR (free p w) (\<lambda>w. Inr (q, w)))
        | Delay _ \<Rightarrow> Inr (q\<lparr>dq_packets := tl (dq_packets q)\<rparr>, w)))
       (q, w)"

section \<open>Latency\<close>

text \<open>
  The second loop of \<^verbatim>\<open>LatencyApp::push\<close>, on the borrowed input link and the queue.
\<close>

definition latency_enqueue :: "link \<Rightarrow> delay_queue \<Rightarrow> (link \<times> delay_queue) res" where
  "latency_enqueue inp q =
     loopR (\<lambda>(inp, q). \<not> empty inp \<and> \<not> dq_full q)
       (\<lambda>(inp, q). bindR (receive inp) (\<lambda>(p, inp). bindR (enqueue_packet p q) (\<lambda>q. Inr (inp, q))))
       (inp, q)"

definition latency_push :: "u64 \<Rightarrow> nat \<Rightarrow> delay_queue \<Rightarrow> ports \<Rightarrow> io \<Rightarrow> (delay_queue \<times> io) res" where
  "latency_push ms now q a s =
     bindR (unwrap (map_of (app_input a) ''input'')) (\<lambda>i.
     let inp = io_links s i in
     bindR (if \<not> empty inp \<and> \<not> dq_full q then enqueue_delay (now + unat ms * 1000000) q else Inr q) (\<lambda>q.
     bindR (latency_enqueue inp q) (\<lambda>(inp, q).
     Inr (q, s\<lparr>io_links := (io_links s)(i := inp)\<rparr>))))"

text \<open>
  \<^verbatim>\<open>while !queue.empty() && queue.need_tx() { link::transmit(&mut output, queue.dequeue_packet()) }\<close>: the
  condition has an effect, so it is evaluated before the loop and at the end of its body. \<^verbatim>\<open>LatencyApp\<close>
  and \<^verbatim>\<open>JitterApp\<close> have the same \<^verbatim>\<open>pull\<close>.
\<close>

definition pull_cond :: "nat \<Rightarrow> delay_queue \<Rightarrow> (bool \<times> delay_queue) res" where
  "pull_cond now q = (if dq_empty q then Inr (False, q) else need_tx now q)"

definition pull_body ::
  "nat \<Rightarrow> bool \<times> delay_queue \<times> link \<times> world \<Rightarrow> (bool \<times> delay_queue \<times> link \<times> world) res" where
  "pull_body now = (\<lambda>(_, q, out, w).
     bindR (dequeue_packet q) (\<lambda>(p, q).
     bindR (transmit out p w) (\<lambda>(out, w).
     bindR (pull_cond now q) (\<lambda>(go, q). Inr (go, q, out, w)))))"

definition pull_loop :: "nat \<Rightarrow> delay_queue \<Rightarrow> link \<Rightarrow> world \<Rightarrow> (delay_queue \<times> link \<times> world) res" where
  "pull_loop now q out w =
     bindR (pull_cond now q) (\<lambda>(go, q).
     bindR (loopR fst (pull_body now) (go, q, out, w)) (\<lambda>(_, q, out, w). Inr (q, out, w)))"

definition delay_pull :: "nat \<Rightarrow> delay_queue \<Rightarrow> ports \<Rightarrow> io \<Rightarrow> (delay_queue \<times> io) res" where
  "delay_pull now q a s =
     bindR (unwrap (map_of (app_output a) ''output'')) (\<lambda>j.
     bindR (pull_loop now q (io_links s j) (io_world s)) (\<lambda>(q, out, w).
     Inr (q, s\<lparr>io_links := (io_links s)(j := out), io_world := w\<rparr>)))"

section \<open>Jitter\<close>

text \<open>\<^verbatim>\<open>self.ms as f64 * 1000.0\<close>.\<close>

definition jitter_us :: "u64 \<Rightarrow> nat" where
  "jitter_us ms = round53 (round53 (unat ms) * 1000)"

text \<open>\<^verbatim>\<open>(self.us * rng.gen::<f64>()) as u64\<close>, with a conversion that saturates.\<close>

definition jitter_amount :: "nat \<Rightarrow> nat \<Rightarrow> nat" where
  "jitter_amount us d = min (round53 (us * d) div 2 ^ 53) (2 ^ 64 - 1)"

definition jitter_body ::
  "nat \<Rightarrow> f64 \<Rightarrow> bool \<Rightarrow> nat \<Rightarrow> link \<times> link \<times> world \<times> delay_queue \<times> rng \<Rightarrow>
   (link \<times> link \<times> world \<times> delay_queue \<times> rng) res" where
  "jitter_body us strength reorder now = (\<lambda>(inp, out, w, q, rng).
     let (d, rng) = gen_f64 rng;
         add_jitter = f64_lt (draw_val d) strength
     in bindR (if add_jitter
               then let (e, rng) = gen_f64 rng
                    in bindR (enqueue_delay (now + jitter_amount us e * 1000) q) (\<lambda>q. Inr (q, rng))
               else Inr (q, rng)) (\<lambda>(q, rng).
        if \<not> add_jitter \<and> reorder then
          bindR (receive inp) (\<lambda>(p, inp). bindR (transmit out p w) (\<lambda>(out, w). Inr (inp, out, w, q, rng)))
        else if \<not> dq_full q then
          bindR (receive inp) (\<lambda>(p, inp). bindR (enqueue_packet p q) (\<lambda>q. Inr (inp, out, w, q, rng)))
        else Inr (inp, out, w, q, rng)))"

definition jitter_push ::
  "nat \<Rightarrow> f64 \<Rightarrow> bool \<Rightarrow> nat \<Rightarrow> delay_queue \<Rightarrow> rng \<Rightarrow> ports \<Rightarrow> io \<Rightarrow> (delay_queue \<times> rng \<times> io) res" where
  "jitter_push us strength reorder now q rng a s =
     bindR (borrow_io a) (\<lambda>(i, j).
     bindR (loopR (\<lambda>(inp, out, w, q, rng). \<not> empty inp \<and> \<not> dq_full q) (jitter_body us strength reorder now)
             (io_links s i, io_links s j, io_world s, q, rng)) (\<lambda>(inp, out, w, q, rng).
     Inr (q, rng, s\<lparr>io_links := (io_links s)(i := inp, j := out), io_world := w\<rparr>)))"

text \<open>\<^verbatim>\<open>JitterApp::pull\<close> has the loop of \<^verbatim>\<open>LatencyApp::pull\<close>.\<close>

definition jitter_pull :: "nat \<Rightarrow> delay_queue \<Rightarrow> ports \<Rightarrow> io \<Rightarrow> (delay_queue \<times> io) res" where
  [simp]: "jitter_pull = delay_pull"

section \<open>RateLimiter\<close>

record bitrate_bucket =
  bk_capacity :: u64
  bk_tokens :: u64
  bk_last_time :: "nat option"

record rate_limiter =
  rl_rate :: u64
  rl_scale :: u64
  rl_tick :: u64
  rl_bucket :: bitrate_bucket

definition rate_limiter_new :: "u64 \<Rightarrow> rate_limiter" where
  "rate_limiter_new rate =
     (let scale = 1000000; tick = 100;
          capacity = rate * scale;
          initial_tokens = rate * scale div (1000000 div tick)
      in \<lparr>rl_rate = rate, rl_scale = scale, rl_tick = tick,
          rl_bucket = \<lparr>bk_capacity = capacity, bk_tokens = initial_tokens, bk_last_time = None\<rparr>\<rparr>)"

definition replenish :: "rate_limiter \<Rightarrow> nat \<Rightarrow> bitrate_bucket \<Rightarrow> bitrate_bucket" where
  "replenish rl now b =
     (case bk_last_time b of
        Some last_time \<Rightarrow>
          let us_elapsed = of_nat ((now - last_time) div 1000) :: u64 in
          if rl_tick rl \<le> us_elapsed
          then b\<lparr>bk_last_time := Some now,
                 bk_tokens := min (bk_tokens b + rl_rate rl * us_elapsed) (bk_capacity b)\<rparr>
          else b
      | None \<Rightarrow> b\<lparr>bk_last_time := Some now\<rparr>)"

definition rate_step :: "u64 \<Rightarrow> packet \<Rightarrow> link \<times> world \<times> bitrate_bucket \<Rightarrow> (link \<times> world \<times> bitrate_bucket) res" where
  "rate_step scale p = (\<lambda>(out, w, b).
     let tokens = bitlength p * scale in
     if tokens \<le> bk_tokens b
     then bindR (transmit out p w) (\<lambda>(out, w). Inr (out, w, b\<lparr>bk_tokens := bk_tokens b - tokens\<rparr>))
     else bindR (free p w) (\<lambda>w. Inr (out, w, b)))"

definition rate_limiter_push :: "rate_limiter \<Rightarrow> nat \<Rightarrow> ports \<Rightarrow> io \<Rightarrow> (rate_limiter \<times> io) res" where
  "rate_limiter_push rl now a s =
     bindR (push_through (rate_step (rl_scale rl)) a (replenish rl now (rl_bucket rl)) s) (\<lambda>(b, s).
     Inr (rl\<lparr>rl_bucket := b\<rparr>, s))"

section \<open>Loss and rate limit, packet by packet\<close>

definition loss_emit :: "f64 \<Rightarrow> rng \<Rightarrow> packet \<Rightarrow> packet list" where
  "loss_emit ratio rng p = (if f64_le ratio (draw_val (rng 0)) then [p] else [])"

definition rng_next :: "rng \<Rightarrow> packet \<Rightarrow> rng" where
  "rng_next rng p = (\<lambda>i. rng (Suc i))"

definition rate_emit :: "u64 \<Rightarrow> bitrate_bucket \<Rightarrow> packet \<Rightarrow> packet list" where
  "rate_emit scale b p = (if bitlength p * scale \<le> bk_tokens b then [p] else [])"

definition rate_next :: "u64 \<Rightarrow> bitrate_bucket \<Rightarrow> packet \<Rightarrow> bitrate_bucket" where
  "rate_next scale b p =
     (if bitlength p * scale \<le> bk_tokens b then b\<lparr>bk_tokens := bk_tokens b - bitlength p * scale\<rparr> else b)"

interpretation lo: packet_app "loss_step ratio" "\<lambda>_. True" "\<lambda>_. True" "\<lambda>p. p" "loss_emit ratio" rng_next 0
  for ratio
proof unfold_locales
  fix out p w n rng
  assume h: "link_ok out" "packet_ok p" "pool_ok w (Suc n)"
  show "\<exists>out' w' n'. loss_step ratio p (out, w, rng) = Inr (out', w', rng_next rng p) \<and> link_ok out' \<and>
      map (\<lambda>p. p) (contents out') = take LINK_MAX_PACKETS (map (\<lambda>p. p) (contents out) @ loss_emit ratio rng p) \<and>
      pool_ok w' n' \<and> n' + length (contents out) = n + length (contents out')"
    using ch.send_ok [OF h] free_step [OF h] h(1)
    by (auto simp: loss_step_def loss_emit_def gen_f64_def rng_next_def)
qed simp

interpretation ra: packet_app "rate_step scale" "\<lambda>_. True" "\<lambda>_. True" "\<lambda>p. p" "rate_emit scale" "rate_next scale" 0
  for scale
proof unfold_locales
  fix out p w n b
  assume h: "link_ok out" "packet_ok p" "pool_ok w (Suc n)"
  show "\<exists>out' w' n'. rate_step scale p (out, w, b) = Inr (out', w', rate_next scale b p) \<and> link_ok out' \<and>
      map (\<lambda>p. p) (contents out') = take LINK_MAX_PACKETS (map (\<lambda>p. p) (contents out) @ rate_emit scale b p) \<and>
      pool_ok w' n' \<and> n' + length (contents out) = n + length (contents out')"
    using ch.send_ok [OF h] free_step [OF h] h(1)
    by (auto simp: rate_step_def rate_emit_def rate_next_def Let_def)
qed simp

text \<open>The packets that survive a sequence of draws.\<close>

lemma emitted_loss:
  "emitted (loss_emit ratio) rng_next rng ps =
   map fst (filter (\<lambda>(p, i). f64_le ratio (draw_val (rng i))) (zip ps [0..<length ps]))"
proof (induction ps arbitrary: rng)
  case (Cons p ps)
  have "zip ps [Suc 0..<Suc (length ps)] = map (apsnd Suc) (zip ps [0..<length ps])"
    by (simp add: map_Suc_upt [symmetric] zip_map2 del: upt_Suc) (simp add: apsnd_def map_prod_def case_prod_unfold)
  then have z: "zip (p # ps) [0..<length (p # ps)] = (p, 0) # map (apsnd Suc) (zip ps [0..<length ps])"
    by (simp add: upt_rec [of 0] del: upt_Suc)
  show ?case
    unfolding z emitted.simps Cons.IH
    by (simp add: loss_emit_def rng_next_def filter_map comp_def case_prod_unfold)
qed simp

lemma foldl_rng: "foldl rng_next rng ps = (\<lambda>i. rng (i + length ps))"
  by (induction ps arbitrary: rng) (simp_all add: rng_next_def)

section \<open>Delay queues\<close>

text \<open>
  The abstract view of a delay queue: packets in order, each with the time from which it may leave.
  A packet's time is that of the last delay before it; a packet with no delay before it may leave
  at once.
\<close>

fun stamped :: "nat \<Rightarrow> delayed_packet list \<Rightarrow> (nat \<times> packet) list" where
  "stamped t [] = []"
| "stamped t (Delay t' # ds) = stamped t' ds"
| "stamped t (Packet p # ds) = (t, p) # stamped t ds"

text \<open>Well-formed: every delay is followed by a packet.\<close>

fun delays_ok :: "delayed_packet list \<Rightarrow> bool" where
  "delays_ok [] = True"
| "delays_ok (Packet p # ds) = (packet_ok p \<and> delays_ok ds)"
| "delays_ok (Delay t # Packet p # ds) = (packet_ok p \<and> delays_ok ds)"
| "delays_ok (Delay t # ds) = False"

fun last_delay :: "nat \<Rightarrow> delayed_packet list \<Rightarrow> nat" where
  "last_delay t [] = t"
| "last_delay t (Delay t' # ds) = last_delay t' ds"
| "last_delay t (Packet p # ds) = last_delay t ds"

lemma stamped_append: "stamped t (xs @ ys) = stamped t xs @ stamped (last_delay t xs) ys"
  by (induction t xs rule: stamped.induct) simp_all

lemma stamped_packets: "stamped t (map Packet ps) = map (Pair t) ps"
  by (induction ps) simp_all

lemma delays_ok_append: "delays_ok xs \<Longrightarrow> delays_ok ys \<Longrightarrow> delays_ok (xs @ ys)"
  by (induction xs rule: delays_ok.induct) simp_all

lemma delays_ok_packets: "delays_ok (map Packet ps) \<longleftrightarrow> (\<forall>p \<in> set ps. packet_ok p)"
  by (induction ps) simp_all

text \<open>What \<^verbatim>\<open>pull\<close> removes from a queue at a given time, as long as it does not panic.\<close>

fun release :: "nat \<Rightarrow> delayed_packet list \<Rightarrow> delayed_packet list" where
  "release now [] = []"
| "release now (Packet p # ds) = release now ds"
| "release now (Delay t # ds) = (if t \<le> now then release now ds else Delay t # ds)"

fun released :: "nat \<Rightarrow> delayed_packet list \<Rightarrow> packet list" where
  "released now [] = []"
| "released now (Packet p # ds) = p # released now ds"
| "released now (Delay t # ds) = (if t \<le> now then released now ds else [])"

lemma stamped_release:
  "delays_ok ds \<Longrightarrow> t \<le> now \<Longrightarrow>
   stamped 0 (release now ds) = dropWhile (\<lambda>(t, p). t \<le> now) (stamped t ds) \<and>
   released now ds = map snd (takeWhile (\<lambda>(t, p). t \<le> now) (stamped t ds))"
proof (induction ds arbitrary: t rule: delays_ok.induct)
  case (3 t' p ds)
  have ds: "delays_ok ds" using "3.prems"(1) by simp
  show ?case
  proof (cases "t' \<le> now")
    case True
    from "3.IH" [OF ds True] True show ?thesis by simp
  qed simp
qed simp_all

lemma delays_ok_release: "delays_ok ds \<Longrightarrow> delays_ok (release now ds)"
  by (induction ds rule: delays_ok.induct) simp_all

lemma pull_body_packet:
  assumes "dq_packets q = Packet p # ds" and "transmit out p w = Inr (out', w')"
  shows "loopR fst (pull_body now) (True, q, out, w) =
    bindR (pull_cond now (q\<lparr>dq_packets := ds\<rparr>)) (\<lambda>(go, q). loopR fst (pull_body now) (go, q, out', w'))"
  using assms
  by (simp add: pull_body_def dequeue_packet_def del: loopR_step add: loopR_step [of fst "(True, q, out, w)"])
    (cases "pull_cond now (q\<lparr>dq_packets := ds\<rparr>)"; simp add: case_prod_unfold)

text \<open>The queue that \<^verbatim>\<open>pull\<close> leaves and what it sends, from a state in which the loop stands.\<close>

definition pulls ::
  "nat \<Rightarrow> delay_queue \<Rightarrow> link \<Rightarrow> nat \<Rightarrow> (bool \<times> delay_queue \<times> link \<times> world) res \<Rightarrow> bool" where
  "pulls now q out n r \<longleftrightarrow>
     (\<exists>out' w' n'. r = Inr (False, q\<lparr>dq_packets := release now (dq_packets q)\<rparr>, out', w') \<and> link_ok out' \<and>
       contents out' = take LINK_MAX_PACKETS (contents out @ released now (dq_packets q)) \<and>
       pool_ok w' n' \<and>
       n' + length (contents out) + length (released now (dq_packets q)) = n + length (contents out'))"

lemma pulls_packet:
  assumes "packet_ok p" and "dq_packets q = Packet p # ds" and "link_ok out" and "pool_ok w n"
    and "Suc (length (released now ds)) \<le> n"
    and rest: "\<And>out w n. link_ok out \<Longrightarrow> pool_ok w n \<Longrightarrow> length (released now ds) \<le> n \<Longrightarrow>
      pulls now (q\<lparr>dq_packets := ds\<rparr>) out n
        (bindR (pull_cond now (q\<lparr>dq_packets := ds\<rparr>)) (\<lambda>(go, q). loopR fst (pull_body now) (go, q, out, w)))"
  shows "pulls now q out n (loopR fst (pull_body now) (True, q, out, w))"
proof -
  obtain m where m: "n = Suc m" using assms(5) by (cases n) auto
  from ch.send_ok [OF assms(3,1) assms(4) [unfolded m]] obtain out1 w1 n1 where
    t: "transmit out p w = Inr (out1, w1)" "link_ok out1"
      "contents out1 = take LINK_MAX_PACKETS (contents out @ [p])" "pool_ok w1 n1"
      "n1 + length (contents out) + 1 = n + length (contents out1)"
    unfolding m by blast
  have "length (contents out) \<le> length (contents out1)"
    using contents_bound [OF assms(3)] by (simp add: t(3) take_append)
  then have "length (released now ds) \<le> n1" using assms(5) t(5) by simp
  from rest [OF t(2,4) this] obtain out' w' n' where
    r: "bindR (pull_cond now (q\<lparr>dq_packets := ds\<rparr>)) (\<lambda>(go, q). loopR fst (pull_body now) (go, q, out1, w1)) =
        Inr (False, q\<lparr>dq_packets := release now ds\<rparr>, out', w')" "link_ok out'"
      "contents out' = take LINK_MAX_PACKETS (contents out1 @ released now ds)" "pool_ok w' n'"
      "n' + length (contents out1) + length (released now ds) = n1 + length (contents out')"
    unfolding pulls_def by auto
  have "contents out' = take LINK_MAX_PACKETS (contents out @ p # released now ds)"
    unfolding r(3) t(3) by (simp add: take_take_append)
  then show ?thesis
    unfolding pulls_def pull_body_packet [OF assms(2) t(1)] r(1)
    using r t(5) by (intro exI [of _ out'] exI [of _ w'] exI [of _ n']) (simp add: assms(2))
qed

lemma pulls_ok:
  assumes "delays_ok ds" and "dq_packets q = ds" and "link_ok out" and "pool_ok w n"
    and "length (released now ds) \<le> n"
  shows "pulls now q out n
    (bindR (pull_cond now q) (\<lambda>(go, q). loopR fst (pull_body now) (go, q, out, w)))"
  using assms
proof (induction ds arbitrary: q out w n rule: delays_ok.induct)
  case 1
  then have "pull_cond now q = Inr (False, q)" "q\<lparr>dq_packets := []\<rparr> = q"
    by (simp_all add: pull_cond_def dq_empty_def)
  then show ?case
    using "1.prems" contents_bound [OF "1.prems"(3)] by (auto simp: pulls_def)
next
  case (2 p ds)
  have "pull_cond now q = Inr (True, q)"
    using "2.prems"(2) by (simp add: pull_cond_def dq_empty_def need_tx_def peek_def)
  moreover have "pulls now q out n (loopR fst (pull_body now) (True, q, out, w))"
    using "2.prems" by (intro pulls_packet [of p q ds] "2.IH") simp_all
  ultimately show ?case by simp
next
  case (3 t p ds)
  show ?case
  proof (cases "t \<le> now")
    case True
    let ?q = "q\<lparr>dq_packets := Packet p # ds\<rparr>"
    have "pull_cond now q = Inr (True, ?q)"
      using "3.prems"(2) True by (simp add: pull_cond_def dq_empty_def need_tx_def peek_def)
    moreover have "pulls now ?q out n (loopR fst (pull_body now) (True, ?q, out, w))"
      using "3.prems" True by (intro pulls_packet [of p ?q ds] "3.IH") simp_all
    ultimately show ?thesis
      using "3.prems"(2) True by (simp add: pulls_def)
  next
    case False
    then have "pull_cond now q = Inr (False, q)" "q\<lparr>dq_packets := dq_packets q\<rparr> = q"
      using "3.prems"(2) by (simp_all add: pull_cond_def dq_empty_def need_tx_def peek_def)
    then show ?thesis
      using "3.prems" False contents_bound [OF "3.prems"(3)] by (auto simp: pulls_def)
  qed
qed simp_all

lemma pull_loop_ok:
  assumes "delays_ok (dq_packets q)" and "link_ok out" and "pool_ok w n"
    and "length (released now (dq_packets q)) \<le> n"
  shows "\<exists>out' w' n'. pull_loop now q out w = Inr (q\<lparr>dq_packets := release now (dq_packets q)\<rparr>, out', w') \<and>
    link_ok out' \<and>
    contents out' = take LINK_MAX_PACKETS (contents out @ released now (dq_packets q)) \<and>
    pool_ok w' n' \<and>
    n' + length (contents out) + length (released now (dq_packets q)) = n + length (contents out')"
proof -
  have "pull_loop now q out w = bindR (bindR (pull_cond now q)
      (\<lambda>(go, q). loopR fst (pull_body now) (go, q, out, w))) (\<lambda>(_, q, out, w). Inr (q, out, w))"
    by (cases "pull_cond now q") (simp_all add: pull_loop_def case_prod_unfold)
  then show ?thesis
    using pulls_ok [OF assms(1) refl assms(2-4)] by (auto simp: pulls_def)
qed

text \<open>The batch that \<^verbatim>\<open>LatencyApp::push\<close> moves into the queue.\<close>

lemma latency_enqueue_ok:
  assumes "link_ok inp"
  defines "k q \<equiv> dq_capacity q - length (dq_packets q)"
  shows "\<exists>inp'. latency_enqueue inp q =
      Inr (inp', q\<lparr>dq_packets := dq_packets q @ map Packet (take (k q) (contents inp))\<rparr>) \<and>
    link_ok inp' \<and> contents inp' = drop (k q) (contents inp)"
  using assms(1) unfolding k_def
proof (induction "contents inp" arbitrary: inp q)
  case Nil
  then have "empty inp" using ch.is_empty_iff by simp
  then show ?case using Nil by (simp add: latency_enqueue_def Nil.hyps [symmetric])
next
  case (Cons p ps)
  show ?case
  proof (cases "dq_full q")
    case True
    then show ?thesis using Cons.prems by (simp add: latency_enqueue_def dq_full_def)
  next
    case False
    obtain inp1 where i: "receive inp = Inr (p, inp1)" "link_ok inp1" "contents inp1 = ps"
      using ch.recv_first [OF Cons.prems Cons.hyps(2) [symmetric]] by blast
    let ?q = "q\<lparr>dq_packets := dq_packets q @ [Packet p]\<rparr>"
    have "\<not> empty inp" using ch.is_empty_iff [OF Cons.prems] Cons.hyps(2) by auto
    then have step: "latency_enqueue inp q = latency_enqueue inp1 ?q"
      using False i(1) by (simp add: latency_enqueue_def enqueue_packet_def)
    have n: "dq_capacity q - length (dq_packets q) = Suc (dq_capacity q - Suc (length (dq_packets q)))"
      using False by (simp add: dq_full_def)
    from Cons.hyps(1) [OF i(3) [symmetric] i(2), of ?q]
    show ?thesis unfolding step Cons.hyps(2) [symmetric] n i(3) by simp
  qed
qed

text \<open>A delay at the end of the queue, with no packet after it, makes \<^verbatim>\<open>pull\<close> panic once it is reached.\<close>

lemma trailing_packet:
  assumes "packet_ok p" and "dq_packets q = Packet p # ds" and "link_ok out" and "pool_ok w n" and "Suc m \<le> n"
    and rest: "\<And>out w n. link_ok out \<Longrightarrow> pool_ok w n \<Longrightarrow> m \<le> n \<Longrightarrow>
      bindR (pull_cond now (q\<lparr>dq_packets := ds\<rparr>)) (\<lambda>(go, q). loopR fst (pull_body now) (go, q, out, w)) = r"
  shows "loopR fst (pull_body now) (True, q, out, w) = r"
proof -
  obtain n' where n: "n = Suc n'" using assms(5) by (cases n) auto
  from ch.send_ok [OF assms(3,1) assms(4) [unfolded n]] obtain out1 w1 n1 where
    t: "transmit out p w = Inr (out1, w1)" "link_ok out1"
      "contents out1 = take LINK_MAX_PACKETS (contents out @ [p])" "pool_ok w1 n1"
      "n1 + length (contents out) + 1 = n + length (contents out1)"
    unfolding n by blast
  have "length (contents out) \<le> length (contents out1)"
    using contents_bound [OF assms(3)] by (simp add: t(3) take_append)
  then have "m \<le> n1" using assms(5) t(5) by simp
  from rest [OF t(2,4) this] show ?thesis by (simp add: pull_body_packet [OF assms(2) t(1)])
qed

lemma pull_trailing:
  assumes "delays_ok ds" and "dq_packets q = ds @ [Delay t]" and "link_ok out" and "pool_ok w n"
    and "length (released now ds) \<le> n" and "release now ds = []" and "t \<le> now"
  shows "bindR (pull_cond now q) (\<lambda>(go, q). loopR fst (pull_body now) (go, q, out, w)) = Inl Queue_underflow"
  using assms
proof (induction ds arbitrary: q out w n rule: delays_ok.induct)
  case 1
  then have "pull_cond now q = Inr (True, q\<lparr>dq_packets := []\<rparr>)"
    by (simp add: pull_cond_def dq_empty_def need_tx_def peek_def)
  then show ?case by (simp add: pull_body_def dequeue_packet_def)
next
  case (2 p ds)
  have "pull_cond now q = Inr (True, q)"
    using "2.prems"(2) by (simp add: pull_cond_def dq_empty_def need_tx_def peek_def)
  moreover have "loopR fst (pull_body now) (True, q, out, w) = Inl Queue_underflow"
    using "2.prems" by (intro trailing_packet [of p q "ds @ [Delay t]" _ _ _ "length (released now ds)"] "2.IH") simp_all
  ultimately show ?case by simp
next
  case (3 t' p ds)
  let ?q = "q\<lparr>dq_packets := Packet p # ds @ [Delay t]\<rparr>"
  have t': "t' \<le> now" using "3.prems"(6) by (simp split: if_splits)
  then have "pull_cond now q = Inr (True, ?q)"
    using "3.prems"(2) by (simp add: pull_cond_def dq_empty_def need_tx_def peek_def)
  moreover have "loopR fst (pull_body now) (True, ?q, out, w) = Inl Queue_underflow"
    using "3.prems" t' by (intro trailing_packet [of p ?q "ds @ [Delay t]" _ _ _ "length (released now ds)"] "3.IH") simp_all
  ultimately show ?case by simp
qed simp_all

lemma pull_loop_trailing:
  assumes "delays_ok ds" and "dq_packets q = ds @ [Delay t]" and "link_ok out" and "pool_ok w n"
    and "length (released now ds) \<le> n" and "release now ds = []" and "t \<le> now"
  shows "pull_loop now q out w = Inl Queue_underflow"
  using pull_trailing [OF assms]
  by (cases "pull_cond now q") (auto simp: pull_loop_def)

lemma released_all: "release now ds = [] \<Longrightarrow> released now ds = map snd (stamped t ds)"
  by (induction ds arbitrary: t rule: released.induct) (auto split: if_splits)

section \<open>The token bucket\<close>

definition bits :: "packet list \<Rightarrow> nat" where
  "bits ps = sum_list (map (\<lambda>p. unat (bitlength p)) ps)"

lemma bits_simps [simp]: "bits [] = 0" "bits (p # ps) = unat (bitlength p) + bits ps" "bits (ps @ qs) = bits ps + bits qs"
  by (simp_all add: bits_def)

text \<open>The packets that a push of the rate limiter forwards.\<close>

definition rate_forwarded :: "rate_limiter \<Rightarrow> nat \<Rightarrow> packet list \<Rightarrow> packet list" where
  "rate_forwarded rl now ps =
     emitted (rate_emit (rl_scale rl)) (rate_next (rl_scale rl)) (replenish rl now (rl_bucket rl)) ps"

definition rate_bucket_after :: "rate_limiter \<Rightarrow> nat \<Rightarrow> packet list \<Rightarrow> bitrate_bucket" where
  "rate_bucket_after rl now ps = foldl (rate_next (rl_scale rl)) (replenish rl now (rl_bucket rl)) ps"

lemma unat_tokens: "unat (bitlength p * 1000000) = 1000000 * unat (bitlength p)"
proof -
  have "unat (p_length p) < 65536" by simp
  then have "unat (bitlength p) \<le> 524472"
    unfolding unat_bitlength by (simp add: max_def del: unat_u16_lt)
  then show ?thesis by (simp add: unat_word_ariths)
qed

lemma tokens_conserved:
  "1000000 * bits (emitted (rate_emit 1000000) (rate_next 1000000) b ps) +
   unat (bk_tokens (foldl (rate_next 1000000) b ps)) = unat (bk_tokens b)"
proof (induction ps arbitrary: b)
  case (Cons p ps)
  show ?case
  proof (cases "bitlength p * 1000000 \<le> bk_tokens b")
    case True
    then have "unat (bk_tokens b - bitlength p * 1000000) = unat (bk_tokens b) - 1000000 * unat (bitlength p)"
      and "1000000 * unat (bitlength p) \<le> unat (bk_tokens b)"
      by (simp_all add: unat_sub unat_tokens word_le_nat_alt)
    then show ?thesis
      using True Cons.IH [of "rate_next 1000000 b p"] by (simp add: rate_emit_def rate_next_def)
  next
    case False
    then show ?thesis
      using Cons.IH [of b] by (simp add: rate_emit_def rate_next_def)
  qed
qed simp

lemma bucket_unchanged:
  "bk_last_time (foldl (rate_next c) b ps) = bk_last_time b"
  "bk_capacity (foldl (rate_next c) b ps) = bk_capacity b"
  by (induction ps arbitrary: b) (simp_all add: rate_next_def)

lemma unat_add_mult_le: "unat (a + b * of_nat k :: u64) \<le> unat a + unat b * k"
proof -
  have "unat (a + b * of_nat k) \<le> unat a + unat (b * of_nat k)"
    by (simp add: unat_plus_mod)
  also have "unat (b * of_nat k) \<le> unat b * unat (of_nat k :: u64)"
    by (simp add: unat_word_ariths)
  also have "\<dots> \<le> unat b * k"
    by (simp add: unat_of_nat_mod)
  finally show ?thesis by simp
qed

text \<open>
  Replenishing adds at most the tokens of the time that has passed, whether or not the 64-bit
  arithmetic wraps around.
\<close>

lemma replenish_bound:
  assumes "bk_last_time (rl_bucket rl) = Some l" and "t0 \<le> l" and "l \<le> now"
  shows "\<exists>l'. bk_last_time (replenish rl now (rl_bucket rl)) = Some l' \<and> l \<le> l' \<and> l' \<le> now \<and>
    unat (bk_tokens (replenish rl now (rl_bucket rl))) + unat (rl_rate rl) * ((l - t0) div 1000) \<le>
    unat (bk_tokens (rl_bucket rl)) + unat (rl_rate rl) * ((l' - t0) div 1000)"
proof (cases "rl_tick rl \<le> of_nat ((now - l) div 1000)")
  case False
  then show ?thesis using assms by (auto simp: replenish_def Let_def)
next
  case True
  let ?b = "rl_bucket rl" and ?us = "(now - l) div 1000"
  have "bk_tokens (replenish rl now ?b) \<le> bk_tokens ?b + rl_rate rl * of_nat ?us"
    using True assms by (simp add: replenish_def Let_def)
  then have "unat (bk_tokens (replenish rl now ?b)) \<le> unat (bk_tokens ?b + rl_rate rl * of_nat ?us)"
    by (simp add: word_le_nat_alt)
  also have "\<dots> \<le> unat (bk_tokens ?b) + unat (rl_rate rl) * ?us"
    by (rule unat_add_mult_le)
  finally have "unat (bk_tokens (replenish rl now ?b)) + unat (rl_rate rl) * ((l - t0) div 1000) \<le>
      unat (bk_tokens ?b) + unat (rl_rate rl) * (?us + (l - t0) div 1000)"
    by (simp add: algebra_simps)
  also have "?us + (l - t0) div 1000 \<le> (now - t0) div 1000"
  proof -
    have "now - t0 = (now - l) + (l - t0)" using assms by simp
    then show ?thesis by (simp only: div_add1_eq [of "now - l" "l - t0"])
  qed
  finally have "unat (bk_tokens (replenish rl now ?b)) + unat (rl_rate rl) * ((l - t0) div 1000) \<le>
      unat (bk_tokens ?b) + unat (rl_rate rl) * ((now - t0) div 1000)"
    by simp
  moreover have "bk_last_time (replenish rl now ?b) = Some now"
    using True assms by (simp add: replenish_def Let_def)
  ultimately show ?thesis using assms(3) by blast
qed

lemma replenish_capacity:
  "bk_tokens (rl_bucket rl) \<le> bk_capacity (rl_bucket rl) \<Longrightarrow>
   bk_tokens (replenish rl now (rl_bucket rl)) \<le> bk_capacity (rl_bucket rl)"
  by (simp add: replenish_def Let_def split: option.split)

lemma replenish_capacity_eq [simp]: "bk_capacity (replenish rl now b) = bk_capacity b"
  by (simp add: replenish_def Let_def split: option.split)

text \<open>
  The packets that a callback has put on a link: what is on it afterwards behind what was there before.
\<close>

definition put_on :: "nat \<Rightarrow> io \<Rightarrow> io \<Rightarrow> packet list" where
  "put_on j s s' = drop (length (contents (io_links s j))) (contents (io_links s' j))"

text \<open>
  The runs of a rate limiter: it is created, and then pushed at increasing times on any links;
  the history records the time of the first and of the last push, and the bits of the packets that were put on the outputs.
\<close>

inductive rate_history :: "u64 \<Rightarrow> rate_limiter \<Rightarrow> nat \<Rightarrow> nat \<Rightarrow> nat \<Rightarrow> bool" for rate where
  first: "ports_ok a i j \<Longrightarrow> io_ok s n \<Longrightarrow> length (contents (io_links s i)) \<le> n \<Longrightarrow>
    rate_limiter_push (rate_limiter_new rate) t a s = Inr (rl', s') \<Longrightarrow>
    rate_history rate rl' t t (bits (put_on j s s'))"
| later: "rate_history rate rl t0 t b \<Longrightarrow> t \<le> now \<Longrightarrow>
    ports_ok a i j \<Longrightarrow> io_ok s n \<Longrightarrow> length (contents (io_links s i)) \<le> n \<Longrightarrow>
    rate_limiter_push rl now a s = Inr (rl', s') \<Longrightarrow>
    rate_history rate rl' t0 now (b + bits (put_on j s s'))"

lemma rate_limiter_push_ok:
  assumes "ports_ok a i j" and "io_ok s n" and "length (contents (io_links s i)) \<le> n"
  shows "\<exists>s' n'. rate_limiter_push rl now a s =
      Inr (rl\<lparr>rl_bucket := rate_bucket_after rl now (contents (io_links s i))\<rparr>, s') \<and> io_ok s' n' \<and>
    contents (io_links s' i) = [] \<and>
    contents (io_links s' j) = take LINK_MAX_PACKETS
      (contents (io_links s j) @ rate_forwarded rl now (contents (io_links s i))) \<and>
    (\<forall>k. k \<noteq> i \<longrightarrow> k \<noteq> j \<longrightarrow> io_links s' k = io_links s k) \<and>
    n' + length (contents (io_links s i)) + length (contents (io_links s j)) =
      n + length (contents (io_links s' j))"
  using ra.push_ok [OF assms(1,2) _ _ _ assms(3), of "rl_scale rl" "replenish rl now (rl_bucket rl)"]
  by (auto simp: rate_limiter_push_def rate_bucket_after_def rate_forwarded_def)

text \<open>A push in terms of the bucket: what it puts on the output is covered by the tokens that it takes.\<close>

lemma bits_take: "bits (take k ps) \<le> bits ps"
  by (metis append_take_drop_id bits_simps(3) le_add1)

lemma rate_limiter_push_takes:
  assumes "ports_ok a i j" and "io_ok s n" and "length (contents (io_links s i)) \<le> n"
    and "rate_limiter_push rl now a s = Inr (rl', s')" and "rl_scale rl = 1000000"
  shows "\<exists>b. rl' = rl\<lparr>rl_bucket := b\<rparr> \<and> bk_last_time b = bk_last_time (replenish rl now (rl_bucket rl)) \<and>
    bk_capacity b = bk_capacity (rl_bucket rl) \<and>
    1000000 * bits (put_on j s s') + unat (bk_tokens b) \<le> unat (bk_tokens (replenish rl now (rl_bucket rl)))"
proof -
  let ?ps = "contents (io_links s i)" and ?out = "contents (io_links s j)"
  have p: "rl' = rl\<lparr>rl_bucket := rate_bucket_after rl now ?ps\<rparr>"
      "contents (io_links s' j) = take LINK_MAX_PACKETS (?out @ rate_forwarded rl now ?ps)"
    using rate_limiter_push_ok [OF assms(1-3), of rl now] assms(4) by auto
  have "put_on j s s' = take (LINK_MAX_PACKETS - length ?out) (rate_forwarded rl now ?ps)"
    using contents_bound [OF io_okD(1) [OF assms(2)], of j] unfolding put_on_def p(2) by (simp add: take_append)
  then have "bits (put_on j s s') \<le> bits (rate_forwarded rl now ?ps)" using bits_take by simp
  moreover have "1000000 * bits (rate_forwarded rl now ?ps) + unat (bk_tokens (rate_bucket_after rl now ?ps)) =
      unat (bk_tokens (replenish rl now (rl_bucket rl)))"
    using tokens_conserved [of "replenish rl now (rl_bucket rl)" ?ps] by (simp add: rate_forwarded_def rate_bucket_after_def assms(5))
  ultimately show ?thesis
    by (intro exI [of _ "rate_bucket_after rl now ?ps"]) (simp add: p(1) rate_bucket_after_def bucket_unchanged)
qed

lemma rate_limiter_new_fields:
  "rl_scale (rate_limiter_new rate) = 1000000" "rl_rate (rate_limiter_new rate) = rate"
  "bk_last_time (rl_bucket (rate_limiter_new rate)) = None"
  "bk_capacity (rl_bucket (rate_limiter_new rate)) = rate * 1000000"
  "bk_tokens (rl_bucket (rate_limiter_new rate)) = rate * 1000000 div 10000"
  by (simp_all add: rate_limiter_new_def Let_def)

text \<open>The invariant of a run: bits sent and tokens left are covered by the time that has passed.\<close>

lemma rate_history_invariant:
  assumes "rate_history rate rl t0 t b"
  shows "rl_scale rl = 1000000 \<and> rl_rate rl = rate \<and> bk_capacity (rl_bucket rl) = rate * 1000000 \<and>
    bk_tokens (rl_bucket rl) \<le> bk_capacity (rl_bucket rl) \<and>
    (\<exists>l. bk_last_time (rl_bucket rl) = Some l \<and> t0 \<le> l \<and> l \<le> t \<and>
      1000000 * b + unat (bk_tokens (rl_bucket rl)) \<le>
      unat (rate * 1000000 div 10000) + unat rate * ((l - t0) div 1000))"
  using assms
proof induction
  case (first a i j s n t rl' s')
  let ?rl = "rate_limiter_new rate"
  have r: "replenish ?rl t (rl_bucket ?rl) = (rl_bucket ?rl)\<lparr>bk_last_time := Some t\<rparr>"
    by (simp add: replenish_def rate_limiter_new_fields)
  from rate_limiter_push_takes [OF first.hyps] obtain b where
    b: "rl' = ?rl\<lparr>rl_bucket := b\<rparr>" "bk_last_time b = Some t" "bk_capacity b = rate * 1000000"
      "1000000 * bits (put_on j s s') + unat (bk_tokens b) \<le> unat (rate * 1000000 div 10000)"
    unfolding r by (auto simp: rate_limiter_new_fields)
  have "unat (bk_tokens b) \<le> unat (rate * 1000000 div 10000)" using b(4) by simp
  also have "\<dots> \<le> unat (rate * 1000000)" by (simp add: unat_div)
  finally have "bk_tokens b \<le> rate * 1000000" by (simp add: word_le_nat_alt)
  with b show ?case by (simp add: rate_limiter_new_fields)
next
  case (later rl t0 t b now a i j s n rl' s')
  let ?r = "replenish rl now (rl_bucket rl)"
  obtain l where l: "bk_last_time (rl_bucket rl) = Some l" "t0 \<le> l" "l \<le> t"
      "1000000 * b + unat (bk_tokens (rl_bucket rl)) \<le>
       unat (rate * 1000000 div 10000) + unat rate * ((l - t0) div 1000)"
    and f: "rl_scale rl = 1000000" "rl_rate rl = rate" "bk_capacity (rl_bucket rl) = rate * 1000000"
      "bk_tokens (rl_bucket rl) \<le> rate * 1000000"
    using later.IH by auto
  have "l \<le> now" using l(3) later.hyps(2) by simp
  from replenish_bound [OF l(1,2) this] obtain l' where
    l': "bk_last_time ?r = Some l'" "l \<le> l'" "l' \<le> now"
      "unat (bk_tokens ?r) + unat rate * ((l - t0) div 1000) \<le>
       unat (bk_tokens (rl_bucket rl)) + unat rate * ((l' - t0) div 1000)"
    unfolding f by blast
  from rate_limiter_push_takes [OF later.hyps(3-6) f(1)] obtain b' where
    b': "rl' = rl\<lparr>rl_bucket := b'\<rparr>" "bk_last_time b' = Some l'" "bk_capacity b' = rate * 1000000"
      "1000000 * bits (put_on j s s') + unat (bk_tokens b') \<le> unat (bk_tokens ?r)"
    unfolding f l' by blast
  have "bk_tokens ?r \<le> rate * 1000000" using replenish_capacity [of rl now] f by simp
  then have "bk_tokens b' \<le> rate * 1000000" using b'(4) by (simp add: word_le_nat_alt)
  moreover have "1000000 * (b + bits (put_on j s s')) + unat (bk_tokens b') \<le>
      unat (rate * 1000000 div 10000) + unat rate * ((l' - t0) div 1000)"
    using b'(4) l(4) l'(4) by simp
  moreover have "t0 \<le> l'" using l(2) l'(2) by simp
  ultimately show ?case using l'(3) f b' by simp
qed

lemma stamped_Nil: "delays_ok ds \<Longrightarrow> stamped t ds = [] \<Longrightarrow> ds = []"
  by (induction ds rule: delays_ok.induct) simp_all

lemma release_Nil:
  assumes "delays_ok ds" and "\<forall>(t, p) \<in> set (stamped 0 ds). t \<le> now"
  shows "release now ds = []"
proof -
  have "stamped 0 (release now ds) = dropWhile (\<lambda>(t, p). t \<le> now) (stamped 0 ds)"
    using stamped_release [OF assms(1), of 0 now] by simp
  also have "\<dots> = []" using assms(2) by (simp add: dropWhile_eq_Nil_conv)
  finally show ?thesis using stamped_Nil [OF delays_ok_release [OF assms(1)]] by blast
qed

text \<open>A packet to evaluate the definitions on, and a run of the rate limiter on it.\<close>

definition demo_payload :: packet where
  "demo_payload = new_packet_noroot\<lparr>p_length := 60\<rparr>"

lemma demo_payload_ok: "packet_ok demo_payload"
  by (simp add: demo_payload_def packet_ok_def new_packet_noroot_def)

lemma demo_rate_forwarded: "rate_forwarded (rate_limiter_new 10000000) 5 [demo_payload] = [demo_payload]" "bits [demo_payload] = 672"
proof -
  have "bitlength demo_payload = 672" by (simp add: demo_payload_def bitlength_def max_def)
  then show "rate_forwarded (rate_limiter_new 10000000) 5 [demo_payload] = [demo_payload]" "bits [demo_payload] = 672"
    by (simp_all add: rate_forwarded_def rate_emit_def replenish_def rate_limiter_new_def Let_def)
qed

lemma demo_rate_history: "\<exists>rl. rate_history 10000000 rl 5 5 672"
proof -
  have n: "length (contents (io_links (demo_io demo_payload) 0)) \<le> 1"
    by (simp add: demo_io_ok demo_payload_ok)
  from rate_limiter_push_ok [OF demo_io_ok(1) demo_io_ok(2) [OF demo_payload_ok] n, of "rate_limiter_new 10000000" 5] obtain rl' s' where
    p: "rate_limiter_push (rate_limiter_new 10000000) 5 demo_ports (demo_io demo_payload) = Inr (rl', s')"
      "contents (io_links s' 1) = take LINK_MAX_PACKETS (contents (io_links (demo_io demo_payload) 1) @ [demo_payload])"
    by (auto simp: demo_io_ok demo_payload_ok demo_rate_forwarded)
  have "bits (put_on 1 (demo_io demo_payload) s') = 672"
    using demo_rate_forwarded(2) unfolding put_on_def p(2)
    by (simp add: demo_io_ok demo_payload_ok LINK_MAX_PACKETS_def LINK_RING_SIZE_def)
  with rate_history.first [OF demo_io_ok(1) demo_io_ok(2) [OF demo_payload_ok] n p(1)] show ?thesis by auto
qed

text \<open>\<^verbatim>\<open>LatencyApp::push\<close> as a whole.\<close>

lemma latency_push_ok:
  assumes "map_of (app_input a) ''input'' = Some i" and "io_ok s n" and "delays_ok (dq_packets q)"
    and "contents (io_links s i) = [] \<or> length (dq_packets q) + 2 \<le> dq_capacity q"
  defines "k \<equiv> dq_capacity q - length (dq_packets q) - 1"
  shows "\<exists>q' s'. latency_push ms now q a s = Inr (q', s') \<and> delays_ok (dq_packets q') \<and>
    stamped 0 (dq_packets q') =
      stamped 0 (dq_packets q) @ map (Pair (now + unat ms * 1000000)) (take k (contents (io_links s i))) \<and>
    contents (io_links s' i) = drop k (contents (io_links s i)) \<and> io_ok s' n \<and>
    (\<forall>j. j \<noteq> i \<longrightarrow> io_links s' j = io_links s j) \<and> (length (dq_packets q) \<le> dq_capacity q \<longrightarrow> length (dq_packets q') \<le> dq_capacity q')"
proof (cases "contents (io_links s i) = []")
  case True
  have ok: "link_ok (io_links s i)" by (rule io_okD(1) [OF assms(2)])
  then have "empty (io_links s i)" using True ch.is_empty_iff by blast
  then have "latency_push ms now q a s = Inr (q, s\<lparr>io_links := (io_links s)(i := io_links s i)\<rparr>)"
    using assms(1) by (simp add: latency_push_def latency_enqueue_def Let_def)
  then show ?thesis using True assms(2,3) by simp
next
  case False
  let ?in = "io_links s i"
  have ok: "link_ok ?in" by (rule io_okD(1) [OF assms(2)])
  have "\<not> empty ?in" using False ch.is_empty_iff [OF ok] by blast
  moreover have room: "length (dq_packets q) + 2 \<le> dq_capacity q" using assms(4) False by simp
  then have "\<not> dq_full q" by (simp add: dq_full_def)
  moreover define q1 where "q1 = q\<lparr>dq_packets := dq_packets q @ [Delay (now + unat ms * 1000000)]\<rparr>"
  have k: "dq_capacity q1 - length (dq_packets q1) = k" by (simp add: q1_def k_def)
  obtain inp' where e: "latency_enqueue ?in q1 =
      Inr (inp', q1\<lparr>dq_packets := dq_packets q1 @ map Packet (take k (contents ?in))\<rparr>)"
    "link_ok inp'" "contents inp' = drop k (contents ?in)"
    using latency_enqueue_ok [OF ok, of q1] unfolding k by blast
  ultimately have "latency_push ms now q a s =
      Inr (q1\<lparr>dq_packets := dq_packets q1 @ map Packet (take k (contents ?in))\<rparr>, s\<lparr>io_links := (io_links s)(i := inp')\<rparr>)"
    using assms(1) by (simp add: latency_push_def enqueue_delay_def Let_def q1_def [symmetric])
  moreover have "delays_ok (dq_packets q1 @ map Packet (take k (contents ?in)))"
  proof -
    obtain p ps where ps: "take k (contents ?in) = p # ps"
      using False room by (cases "contents ?in"; cases k) (auto simp: k_def)
    have "\<forall>p \<in> set (p # ps). packet_ok p"
      using link_okD(5) [OF ok] ps by (metis in_set_takeD)
    then show ?thesis
      using delays_ok_packets [of ps] unfolding ps q1_def by (simp add: delays_ok_append [OF assms(3)])
  qed
  ultimately show ?thesis
    using e assms(2) room by (simp add: q1_def stamped_append stamped_packets io_ok_def k_def)
qed

section \<open>Properties\<close>

text \<open>
  C31. The app \<^verbatim>\<open>Loss\<close>: \<^verbatim>\<open>push\<close> consumes one random draw per packet and forwards, in order, exactly
  the packets whose draw is at least the ratio; the others return to the freelist.
\<close>

theorem loss_push_correct:
  assumes "ports_ok a i j" and "io_ok s n" and "length (contents (io_links s i)) \<le> n"
  shows "\<exists>s' n'. loss_push ratio rng a s = Inr (\<lambda>k. rng (k + length (contents (io_links s i))), s') \<and>
    io_ok s' n' \<and> contents (io_links s' i) = [] \<and>
    contents (io_links s' j) = take LINK_MAX_PACKETS (contents (io_links s j) @
      map fst (filter (\<lambda>(p, k). f64_le ratio (draw_val (rng k)))
        (zip (contents (io_links s i)) [0..<length (contents (io_links s i))]))) \<and>
    n' + length (contents (io_links s i)) + length (contents (io_links s j)) =
      n + length (contents (io_links s' j))"
  using lo.push_ok [OF assms(1,2) _ _ _ assms(3), of ratio rng]
  by (auto simp: loss_push_def emitted_loss foldl_rng)

theorem loss_push_correct_witness:
  "\<exists>s'. loss_push (Fin (1 / 2)) (\<lambda>_. 2 ^ 52) demo_ports (demo_io demo_payload) = Inr (\<lambda>_. 2 ^ 52, s') \<and>
    contents (io_links s' 1) = [demo_payload]"
  using loss_push_correct [OF demo_io_ok(1,2), of demo_payload "Fin (1 / 2)" "\<lambda>_. 2 ^ 52"]
  by (auto simp: demo_io_ok demo_payload_ok draw_val_def LINK_MAX_PACKETS_def LINK_RING_SIZE_def)

text \<open>
  The loss ratio at its ends: as the draws are below 1, a ratio of 0 loses no packet and a
  ratio of 1 loses every packet; a ratio outside of 0 to 1 (or not a number) is refused when the app
  is created.
\<close>

theorem loss_ratio_ends:
  assumes "\<forall>k. rng k < 2 ^ 53"
  shows "emitted (loss_emit (Fin 0)) rng_next rng ps = ps \<and> emitted (loss_emit (Fin 1)) rng_next rng ps = [] \<and>
    (\<forall>r. loss_new r = Inr r \<or> loss_new r = Inl (Assertion_failed ''Ratio must be within 0.0 and 1.0'')) \<and>
    (\<forall>r. loss_new r = Inr r \<longleftrightarrow> (\<exists>x. r = Fin x \<and> 0 \<le> x \<and> x \<le> 1))"
proof -
  have "emitted (loss_emit (Fin 0)) rng_next rng ps = ps"
    by (induction ps arbitrary: rng) (simp_all add: loss_emit_def draw_val_def)
  moreover have "emitted (loss_emit (Fin 1)) rng_next rng ps = []"
    using assms
  proof (induction ps arbitrary: rng)
    case (Cons p ps)
    have "rng 0 < 2 ^ 53" using Cons.prems by blast
    then have "(of_nat (rng 0) :: rat) < of_nat (2 ^ 53)" by (simp only: of_nat_less_iff)
    then have "\<not> (1 :: rat) \<le> of_nat (rng 0) / 2 ^ 53" by (simp add: divide_simps)
    then show ?case
      using Cons.IH [of "rng_next rng p"] Cons.prems by (simp add: loss_emit_def draw_val_def rng_next_def)
  qed simp
  moreover have "loss_new r = Inr r \<longleftrightarrow> (\<exists>x. r = Fin x \<and> 0 \<le> x \<and> x \<le> 1)" for r
    by (cases r) (auto simp: loss_new_def)
  moreover have "loss_new r = Inr r \<or> loss_new r = Inl (Assertion_failed ''Ratio must be within 0.0 and 1.0'')" for r
    by (simp add: loss_new_def)
  ultimately show ?thesis by blast
qed

theorem loss_ratio_ends_witness:
  "emitted (loss_emit (Fin 1)) rng_next (\<lambda>_. 2 ^ 53 - 1) [demo_payload] = []"
  using loss_ratio_ends [of "\<lambda>_. 2 ^ 53 - 1" "[demo_payload]"] by simp

text \<open>
  C16. \<^verbatim>\<open>Latency\<close>, entering: \<^verbatim>\<open>push\<close> refines appending to a queue of time-stamped packets: every
  packet it takes from the input gets the time \<open>now + ms\<close>, in order, and it takes as many as the
  queue has room for after the delay entry. This needs room for the delay and one packet.
\<close>

theorem latency_push_stamps:
  assumes "map_of (app_input a) ''input'' = Some i" and "io_ok s n" and "delays_ok (dq_packets q)"
    and "contents (io_links s i) = [] \<or> length (dq_packets q) + 2 \<le> dq_capacity q"
  defines "k \<equiv> dq_capacity q - length (dq_packets q) - 1"
  shows "\<exists>q' s'. latency_push ms now q a s = Inr (q', s') \<and> delays_ok (dq_packets q') \<and>
    stamped 0 (dq_packets q') =
      stamped 0 (dq_packets q) @ map (Pair (now + unat ms * 1000000)) (take k (contents (io_links s i))) \<and>
    contents (io_links s' i) = drop k (contents (io_links s i)) \<and> io_ok s' n \<and>
    (\<forall>j. j \<noteq> i \<longrightarrow> io_links s' j = io_links s j)"
  unfolding k_def using latency_push_ok [OF assms(1-4)] by blast

theorem latency_push_stamps_witness:
  "\<exists>q' s'. latency_push 20 7 (dq_new 2) demo_ports (demo_io demo_payload) = Inr (q', s') \<and>
    stamped 0 (dq_packets q') = [(20000007, demo_payload)] \<and> contents (io_links s' 0) = []"
  using latency_push_stamps [of demo_ports 0 "demo_io demo_payload" 1 "dq_new 2" 20 7]
  by (auto simp: demo_io_ok demo_io_ok(2) [unfolded One_nat_def] demo_payload_ok dq_new_def demo_ports_def)

text \<open>
  C15. \<^verbatim>\<open>Latency\<close> and \<^verbatim>\<open>Jitter\<close>, leaving: on a well-formed queue \<^verbatim>\<open>pull\<close> sends exactly the packets at the head of the
  time-stamped queue whose time has come, in order, keeps the rest, and never panics.
\<close>

theorem delay_pull_releases:
  assumes "map_of (app_output a) ''output'' = Some j" and "io_ok s n" and "delays_ok (dq_packets q)"
    and "length (stamped 0 (dq_packets q)) \<le> n"
  shows "\<exists>q' s' n'. delay_pull now q a s = Inr (q', s') \<and> delays_ok (dq_packets q') \<and>
    stamped 0 (dq_packets q') = dropWhile (\<lambda>(t, p). t \<le> now) (stamped 0 (dq_packets q)) \<and>
    contents (io_links s' j) = take LINK_MAX_PACKETS (contents (io_links s j) @
      map snd (takeWhile (\<lambda>(t, p). t \<le> now) (stamped 0 (dq_packets q)))) \<and>
    (\<forall>k. k \<noteq> j \<longrightarrow> io_links s' k = io_links s k) \<and> io_ok s' n' \<and>
    n' + length (contents (io_links s j)) + length (takeWhile (\<lambda>(t, p). t \<le> now) (stamped 0 (dq_packets q))) =
      n + length (contents (io_links s' j))"
proof -
  have r: "stamped 0 (release now (dq_packets q)) = dropWhile (\<lambda>(t, p). t \<le> now) (stamped 0 (dq_packets q))"
    "released now (dq_packets q) = map snd (takeWhile (\<lambda>(t, p). t \<le> now) (stamped 0 (dq_packets q)))"
    using stamped_release [OF assms(3), of 0 now] by simp_all
  have "length (released now (dq_packets q)) \<le> n"
    using assms(4) length_takeWhile_le [of "\<lambda>(t, p). t \<le> now" "stamped 0 (dq_packets q)"] by (simp add: r(2))
  from pull_loop_ok [OF assms(3) io_okD(1) [OF assms(2)] io_okD(2) [OF assms(2)] this, of j]
  obtain out' w' n' where
    p: "pull_loop now q (io_links s j) (io_world s) = Inr (q\<lparr>dq_packets := release now (dq_packets q)\<rparr>, out', w')"
      "link_ok out'" "pool_ok w' n'"
      "contents out' = take LINK_MAX_PACKETS (contents (io_links s j) @ released now (dq_packets q))"
      "n' + length (contents (io_links s j)) + length (released now (dq_packets q)) = n + length (contents out')"
    by blast
  have "delay_pull now q a s = Inr (q\<lparr>dq_packets := release now (dq_packets q)\<rparr>,
      s\<lparr>io_links := (io_links s)(j := out'), io_world := w'\<rparr>)"
    using assms(1) p(1) by (simp add: delay_pull_def)
  then show ?thesis
    using p delays_ok_release [OF assms(3)] assms(2)
    by (intro exI [of _ "q\<lparr>dq_packets := release now (dq_packets q)\<rparr>"] exI
        [of _ "s\<lparr>io_links := (io_links s)(j := out'), io_world := w'\<rparr>"] exI [of _ n'])
      (simp add: r io_ok_def)
qed

theorem delay_pull_releases_witness:
  "\<exists>q' s'. delay_pull 9 \<lparr>dq_packets = [Delay 5, Packet demo_payload], dq_capacity = 4\<rparr> demo_ports
      (demo_io demo_payload) = Inr (q', s') \<and> contents (io_links s' 1) = [demo_payload] \<and>
    stamped 0 (dq_packets q') = []"
  using delay_pull_releases [of demo_ports 1 "demo_io demo_payload" 1
      "\<lparr>dq_packets = [Delay 5, Packet demo_payload], dq_capacity = 4\<rparr>" 9]
  by (auto simp: demo_io_ok demo_io_ok(2) [unfolded One_nat_def] demo_payload_ok demo_ports_def
      LINK_MAX_PACKETS_def LINK_RING_SIZE_def)

text \<open>
  C22. A delay queue with a single free slot: \<^verbatim>\<open>push\<close> enqueues the delay, has no room for the packet, and leaves
  a delay with nothing after it. Once every time in the queue has come, \<^verbatim>\<open>pull\<close> panics with a queue
  underflow; the packet is not dropped, the engine goes down.
\<close>

theorem latency_full_queue_panics:
  assumes "map_of (app_input a) ''input'' = Some i" and "map_of (app_output a) ''output'' = Some j"
    and "io_ok s n" and "contents (io_links s i) \<noteq> []"
    and "delays_ok (dq_packets q)" and "length (dq_packets q) + 1 = dq_capacity q"
    and "\<forall>(t, p) \<in> set (stamped 0 (dq_packets q)). t \<le> later" and "now + unat ms * 1000000 \<le> later"
    and "length (stamped 0 (dq_packets q)) \<le> n"
  shows "\<exists>q' s'. latency_push ms now q a s = Inr (q', s') \<and> delay_pull later q' a s' = Inl Queue_underflow"
proof -
  let ?in = "io_links s i"
  define q' where "q' = q\<lparr>dq_packets := dq_packets q @ [Delay (now + unat ms * 1000000)]\<rparr>"
  have "\<not> empty ?in" using assms(4) ch.is_empty_iff [OF io_okD(1) [OF assms(3)]] by blast
  moreover have "\<not> dq_full q" "dq_full q'" using assms(6) by (simp_all add: dq_full_def q'_def)
  ultimately have "latency_push ms now q a s = Inr (q', s\<lparr>io_links := (io_links s)(i := ?in)\<rparr>)"
    using assms(1) by (simp add: latency_push_def enqueue_delay_def latency_enqueue_def Let_def q'_def [symmetric])
  then have p: "latency_push ms now q a s = Inr (q', s)" by simp
  have r: "release later (dq_packets q) = []" by (rule release_Nil [OF assms(5,7)])
  have "length (released later (dq_packets q)) \<le> n"
    using assms(9) by (simp add: released_all [OF r, of 0])
  from pull_loop_trailing [OF assms(5) _ io_okD(1) [OF assms(3)] io_okD(2) [OF assms(3)] this r assms(8), of q' j]
  have "delay_pull later q' a s = Inl Queue_underflow"
    using assms(2) by (simp add: delay_pull_def q'_def)
  with p show ?thesis by blast
qed

theorem latency_full_queue_panics_witness:
  "\<exists>q' s'. latency_push 20 7 (dq_new 1) demo_ports (demo_io demo_payload) = Inr (q', s') \<and>
    delay_pull 30000000 q' demo_ports s' = Inl Queue_underflow"
  using latency_full_queue_panics [of demo_ports 0 1 "demo_io demo_payload" 1 "dq_new 1" 30000000 7 20]
  by (auto simp: demo_io_ok demo_io_ok(2) [unfolded One_nat_def] demo_payload_ok demo_ports_def dq_new_def)

text \<open>
  The rate limiter as an app: \<^verbatim>\<open>push\<close> replenishes the bucket, forwards in order the packets for
  which tokens are left when they are reached, and drops the others.
\<close>

theorem rate_limiter_push_correct:
  assumes "ports_ok a i j" and "io_ok s n" and "length (contents (io_links s i)) \<le> n"
  shows "\<exists>s' n'. rate_limiter_push rl now a s =
      Inr (rl\<lparr>rl_bucket := rate_bucket_after rl now (contents (io_links s i))\<rparr>, s') \<and> io_ok s' n' \<and>
    contents (io_links s' i) = [] \<and>
    contents (io_links s' j) = take LINK_MAX_PACKETS
      (contents (io_links s j) @ rate_forwarded rl now (contents (io_links s i))) \<and>
    (\<forall>k. k \<noteq> i \<longrightarrow> k \<noteq> j \<longrightarrow> io_links s' k = io_links s k) \<and>
    n' + length (contents (io_links s i)) + length (contents (io_links s j)) =
      n + length (contents (io_links s' j))"
  by (rule rate_limiter_push_ok [OF assms])

theorem rate_limiter_push_correct_witness:
  "\<exists>s'. rate_limiter_push (rate_limiter_new 10000000) 5 demo_ports (demo_io demo_payload) =
      Inr ((rate_limiter_new 10000000)\<lparr>rl_bucket :=
        rate_bucket_after (rate_limiter_new 10000000) 5 [demo_payload]\<rparr>, s') \<and>
    contents (io_links s' 1) = [demo_payload]"
proof -
  note demo_rate_forwarded(1)
  then show ?thesis
    using rate_limiter_push_correct [OF demo_io_ok(1,2), of demo_payload "rate_limiter_new 10000000" 5]
    by (auto simp: demo_io_ok demo_payload_ok LINK_MAX_PACKETS_def LINK_RING_SIZE_def)
qed

text \<open>
  C14. The rate limit over time: whatever traffic is offered and whenever the engine breathes, the
  bits of the packets that the rate limiter puts on its output, from the first push up to any later one, are at most the configured rate times
  the time that has passed plus the 100 microseconds of initial tokens (rates for which the bucket fits 64 bits).
\<close>

theorem rate_limit_bound:
  assumes "rate_history rate rl t0 t b" and "unat rate * 1000000 < 2 ^ 64"
  shows "1000000 * b \<le> unat rate * (100 + (t - t0) div 1000)"
proof -
  from rate_history_invariant [OF assms(1)] obtain l where
    l: "l \<le> t" "1000000 * b \<le> unat (rate * 1000000 div 10000) + unat rate * ((l - t0) div 1000)"
    by auto
  have "unat (rate * 1000000 div 10000) = unat rate * 100"
  proof -
    have "unat (rate * 1000000) = unat rate * 1000000"
      using assms(2) by (simp add: unat_word_ariths)
    then show ?thesis by (simp add: unat_div)
  qed
  moreover have "unat rate * ((l - t0) div 1000) \<le> unat rate * ((t - t0) div 1000)"
    using l(1) by (intro mult_le_mono2 div_le_mono) simp
  ultimately show ?thesis using l(2) unfolding distrib_left by linarith
qed

theorem rate_limit_bound_witness:
  "\<exists>rl. rate_history 10000000 rl 5 5 672 \<and> 1000000 * 672 \<le> unat (10000000 :: u64) * (100 + (5 - 5) div 1000)"
  using demo_rate_history rate_limit_bound [of 10000000 _ 5 5 672] by fastforce

text \<open>
  Bursts: at any point of a run, the packets that a single push forwards carry at most \<open>rate\<close> bits, the
  capacity of the bucket.
\<close>

theorem rate_burst_bound:
  assumes "rate_history rate rl t0 t b" and "unat rate * 1000000 < 2 ^ 64"
  shows "bits (rate_forwarded rl now ps) \<le> unat rate"
proof -
  have f: "rl_scale rl = 1000000" "bk_capacity (rl_bucket rl) = rate * 1000000"
    "bk_tokens (rl_bucket rl) \<le> bk_capacity (rl_bucket rl)"
    using rate_history_invariant [OF assms(1)] by blast+
  have "1000000 * bits (rate_forwarded rl now ps) \<le> unat (bk_tokens (replenish rl now (rl_bucket rl)))"
    using tokens_conserved [of "replenish rl now (rl_bucket rl)" ps] by (simp add: rate_forwarded_def f(1))
  also have "\<dots> \<le> unat (rate * 1000000)"
    using replenish_capacity [OF f(3), of now] unfolding f(2) by (simp add: word_le_nat_alt)
  also have "\<dots> = unat rate * 1000000"
    using assms(2) by (simp add: unat_word_ariths)
  finally show ?thesis by simp
qed

theorem rate_burst_bound_witness:
  "\<exists>rl. rate_history 10000000 rl 5 5 672 \<and>
    bits (rate_forwarded rl 6 [demo_payload]) \<le> unat (10000000 :: u64)"
  using demo_rate_history rate_burst_bound [of 10000000 _ 5 5 672] by fastforce

end
