(* ===== verification/Header.thy ===== *)
theory Header
  imports Lib
begin

text \<open>
  \<^verbatim>\<open>rush/src/header.rs\<close>: protocol headers as \<^verbatim>\<open>repr(C, packed)\<close> structs laid over memory. A struct type is
  a record with its size and its memory image (little-endian words); \<^verbatim>\<open>from_mem\<close> checks the slice it
  is given, \<^verbatim>\<open>header_ref\<close> reads the struct at an offset of the memory, and a write through
  \<^verbatim>\<open>header_mut\<close> changes the memory itself, which is what makes headers and packet data alias.

  The locale \<open>packed_struct\<close> is the contract between a struct type and these operations. It is
  interpreted for each of the four header types.
\<close>

section \<open>Words in memory\<close>

definition rd16 :: "u8 list \<Rightarrow> nat \<Rightarrow> u16" where
  "rd16 bs i = of_nat (le_nat (take 2 (drop i bs)))"

definition rd32 :: "u8 list \<Rightarrow> nat \<Rightarrow> u32" where
  "rd32 bs i = of_nat (le_nat (take 4 (drop i bs)))"

definition wr16 :: "u16 \<Rightarrow> u8 list" where
  "wr16 v = [ucast v, ucast (drop_bit 8 v)]"

definition wr32 :: "u32 \<Rightarrow> u8 list" where
  "wr32 v = [ucast v, ucast (drop_bit 8 v), ucast (drop_bit 16 v), ucast (drop_bit 24 v)]"

section \<open>Header operations\<close>

text \<open>\<^verbatim>\<open>from_mem::<T>(&mut m[ofs..])\<close>: the slice expression and the assertion may panic.\<close>

definition from_mem :: "nat \<Rightarrow> u8 list \<Rightarrow> nat \<Rightarrow> unit res" where
  "from_mem sz m ofs =
     (if length m < ofs then Inl Index_out_of_bounds
      else if length m - ofs < sz then Inl (Assertion_failed ''ptr.len() >= size_of'')
      else Inr ())"

definition header_slice :: "nat \<Rightarrow> u8 list \<Rightarrow> nat \<Rightarrow> u8 list" where
  "header_slice sz m ofs = take sz (drop ofs m)"

definition header_ref :: "nat \<Rightarrow> (u8 list \<Rightarrow> 't) \<Rightarrow> u8 list \<Rightarrow> nat \<Rightarrow> 't" where
  "header_ref sz of_bytes m ofs = of_bytes (header_slice sz m ofs)"

text \<open>A write of the whole struct through the pointer.\<close>

definition header_put :: "nat \<Rightarrow> ('t \<Rightarrow> u8 list) \<Rightarrow> u8 list \<Rightarrow> nat \<Rightarrow> 't \<Rightarrow> u8 list" where
  "header_put sz to_bytes m ofs h = take ofs m @ to_bytes h @ drop (ofs + sz) m"

text \<open>\<^verbatim>\<open>new::<T>()\<close>: the memory of a header of its own, with the default of the struct, and \<^verbatim>\<open>copy\<close>.\<close>

definition header_new :: "('t \<Rightarrow> u8 list) \<Rightarrow> 't \<Rightarrow> u8 list" where
  "header_new to_bytes dflt = to_bytes dflt"

definition header_copy :: "nat \<Rightarrow> u8 list \<Rightarrow> nat \<Rightarrow> u8 list \<Rightarrow> u8 list" where
  "header_copy sz m ofs dst = copy dst (header_slice sz m ofs) sz"

section \<open>Properties of the memory image of words\<close>

lemma digit256: "x mod 256 + 256 * (x div 256) = (x :: nat)"
  by simp

lemma le_nat_wr16: "le_nat (wr16 v) = unat v"
proof -
  have "unat v div 256 < 256"
    using less_mult_imp_div_less [of "unat v" 256 256] unat_u16_lt [of v] by simp
  then show ?thesis
    by (simp add: wr16_def unat_ucast_mod unat_drop_bit_div)
qed

lemma le_nat_wr32: "le_nat (wr32 v) = unat v"
proof -
  let ?x = "unat v"
  have d2: "?x div 65536 = ?x div 256 div 256" and d3: "?x div 16777216 = ?x div 256 div 256 div 256"
    by (simp_all only: div_mult2_eq [symmetric]) simp_all
  have "?x div 16777216 < 256"
    using less_mult_imp_div_less [of ?x 256 16777216] unat_u32_lt [of v] by simp
  then have "le_nat (wr32 v) = ?x mod 256 + 256 * (?x div 256 mod 256 +
      256 * (?x div 256 div 256 mod 256 + 256 * (?x div 256 div 256 div 256)))"
    by (simp add: wr32_def unat_ucast_mod unat_drop_bit_div d2 d3)
  then show ?thesis by (simp only: digit256)
qed

lemma length_wr [simp]: "length (wr16 v) = 2" "length (wr32 w) = 4"
  by (simp_all add: wr16_def wr32_def)

lemma rd16_wr16: "drop i bs = wr16 v @ r \<Longrightarrow> rd16 bs i = v"
  by (intro word_eq_unatI) (simp add: rd16_def le_nat_wr16)

lemma rd32_wr32: "drop i bs = wr32 v @ r \<Longrightarrow> rd32 bs i = v"
  by (intro word_eq_unatI) (simp add: rd32_def le_nat_wr32)

text \<open>A word stored in network byte order has its most significant byte first.\<close>

lemma wr16_htons: "wr16 (htons s) = [ucast (drop_bit 8 s), ucast s]"
proof -
  have "ucast (swap_bytes16 s) = (ucast (drop_bit 8 s) :: u8)"
    by (rule bit_word_eqI) (simp add: bit_ucast_iff bit_drop_bit_eq bit_swap_bytes16 add.commute)
  moreover have "ucast (drop_bit 8 (swap_bytes16 s)) = (ucast s :: u8)"
    by (rule bit_word_eqI) (simp add: bit_ucast_iff bit_drop_bit_eq bit_swap_bytes16)
  ultimately show ?thesis by (simp add: wr16_def htons_def)
qed

text \<open>The bytes of a word made of bytes.\<close>

lemma byte_of_nat:
  assumes "n < 2 ^ LENGTH('a)"
  shows "(ucast (drop_bit k (of_nat n :: 'a::len word)) :: u8) = of_nat (n div 2 ^ k)"
  by (rule word_eq_unatI)
    (simp only: unat_ucast_mod unat_drop_bit_div unat_of_nat_mod mod_less [OF assms])

lemma byte0_of_nat:
  assumes "n < 2 ^ LENGTH('a)"
  shows "(ucast (of_nat n :: 'a::len word) :: u8) = of_nat n"
  using byte_of_nat [OF assms, of 0] by simp

lemma of_nat_le_nat: "(of_nat (le_nat (a # bs)) :: u8) = a"
proof -
  have "(of_nat 256 :: u8) = 0" by simp
  then show ?thesis
    by (simp only: le_nat.simps of_nat_add of_nat_mult mult_zero_left add_0_right of_nat_unat ucast_id)
qed

lemma le_nat_div: "le_nat (a # bs) div 256 = le_nat bs"
  by simp

lemma le_nat_divs:
  "le_nat (a # b # bs) div 2 ^ 8 = le_nat (b # bs)"
  "le_nat (a # b # c # bs) div 2 ^ 16 = le_nat (c # bs)"
  "le_nat (a # b # c # d # bs) div 2 ^ 24 = le_nat (d # bs)"
proof -
  have "n div 2 ^ 8 = n div 256" for n :: nat by simp
  then show "le_nat (a # b # bs) div 2 ^ 8 = le_nat (b # bs)"
    by (simp only: le_nat_div)
  have "n div 2 ^ 16 = n div 256 div 256" "n div 2 ^ 24 = n div 256 div 256 div 256" for n :: nat
    by (simp_all only: div_mult2_eq [symmetric]) simp_all
  then show "le_nat (a # b # c # bs) div 2 ^ 16 = le_nat (c # bs)"
    and "le_nat (a # b # c # d # bs) div 2 ^ 24 = le_nat (d # bs)"
    by (simp_all only: le_nat_div)
qed

lemma wr16_of_nat: "wr16 (of_nat (le_nat [a, b])) = [a, b]"
proof -
  have "le_nat [a, b] < 2 ^ LENGTH(16)"
    using le_nat_lt [of "[a, b]"] by simp
  then show ?thesis
    unfolding wr16_def by (simp only: byte_of_nat byte0_of_nat le_nat_divs of_nat_le_nat)
qed

lemma wr32_of_nat: "wr32 (of_nat (le_nat [a, b, c, d])) = [a, b, c, d]"
proof -
  have "le_nat [a, b, c, d] < 2 ^ LENGTH(32)"
    using le_nat_lt [of "[a, b, c, d]"] by simp
  then show ?thesis
    unfolding wr32_def by (simp only: byte_of_nat byte0_of_nat le_nat_divs of_nat_le_nat)
qed

lemma list_length_cases:
  "length bs = Suc n \<longleftrightarrow> (\<exists>b cs. bs = b # cs \<and> length cs = n)"
  by (rule length_Suc_conv)

lemma wr16_rd16: "i + 2 \<le> length bs \<Longrightarrow> wr16 (rd16 bs i) = take 2 (drop i bs)"
proof -
  assume "i + 2 \<le> length bs"
  then have "length (take 2 (drop i bs)) = Suc (Suc 0)" by simp
  then obtain a b where "take 2 (drop i bs) = [a, b]"
    unfolding list_length_cases by auto
  then show ?thesis unfolding rd16_def by (simp only: wr16_of_nat)
qed

lemma wr32_rd32: "i + 4 \<le> length bs \<Longrightarrow> wr32 (rd32 bs i) = take 4 (drop i bs)"
proof -
  assume "i + 4 \<le> length bs"
  then have "length (take 4 (drop i bs)) = Suc (Suc (Suc (Suc 0)))" by simp
  then obtain a b c d where "take 4 (drop i bs) = [a, b, c, d]"
    unfolding list_length_cases by auto
  then show ?thesis unfolding rd32_def by (simp only: wr32_of_nat)
qed

text \<open>Reassembling a byte string from consecutive pieces.\<close>

lemma take_drop_chain: "take n (drop i bs) @ drop (i + n) bs = drop i bs"
  by (metis add.commute append_take_drop_id drop_drop)

lemma take_1_drop: "i < length bs \<Longrightarrow> [bs ! i] = take 1 (drop i bs)"
  by (simp add: take_Suc hd_drop_conv_nth)

text \<open>Bit fields of a 16-bit word in network byte order.\<close>

lemma ntohs_and: "ntohs (x AND y) = ntohs x AND ntohs y"
  by (rule bit_word_eqI) (simp add: ntohs_def bit_swap_bytes16 bit_and_iff)

lemma ntohs_or: "ntohs (x OR y) = ntohs x OR ntohs y"
  by (rule bit_word_eqI) (simp add: ntohs_def bit_swap_bytes16 bit_or_iff)

lemma ntohs_set_field: "ntohs ((raw AND htons k) OR htons z) = (ntohs raw AND k) OR z"
  by (simp add: ntohs_and ntohs_or)

lemma field_get_set:
  fixes x v :: u16
  assumes "k + n \<le> 16"
  shows "drop_bit k ((x AND NOT (push_bit k (mask n))) OR push_bit k (v AND mask n)) AND mask n = v AND mask n"
  using assms
  by (intro bit_word_eqI)
    (auto simp: bit_and_iff bit_or_iff bit_not_iff bit_drop_bit_eq bit_push_bit_iff bit_mask_iff)

lemma field_get_other:
  fixes x v :: u16
  assumes "k + n \<le> j \<or> j + m \<le> k"
  shows "drop_bit j ((x AND NOT (push_bit k (mask n))) OR push_bit k (v AND mask n)) AND mask m
       = drop_bit j x AND mask m"
  using assms
  by (intro bit_word_eqI)
    (auto simp: bit_and_iff bit_or_iff bit_not_iff bit_drop_bit_eq bit_push_bit_iff bit_mask_iff
      dest: bit_imp_le_length)

lemma mask_consts:
  "(0xf :: u16) = mask 4" "(0x7 :: u16) = mask 3"
  "(0x0fff :: u16) = NOT (push_bit 12 (mask 4))" "(0xf0ff :: u16) = NOT (push_bit 8 (mask 4))"
  "(0x1fff :: u16) = NOT (push_bit 13 (mask 3))"
  by (simp_all add: mask_eq_exp_minus_1)

text \<open>Writing a header leaves the memory before it alone.\<close>

lemma header_ref_put_before:
  assumes "i + n \<le> ofs" and "ofs \<le> length m"
  shows "header_ref n f (header_put sz to_bytes m ofs h) i = header_ref n f m i"
  using assms by (simp add: header_ref_def header_slice_def header_put_def take_drop min_def)

section \<open>The contract of a packed struct\<close>

locale packed_struct =
  fixes sz :: nat
    and wf :: "'t \<Rightarrow> bool"
    and to_bytes :: "'t \<Rightarrow> u8 list"
    and of_bytes :: "u8 list \<Rightarrow> 't"
  assumes length_to_bytes: "wf h \<Longrightarrow> length (to_bytes h) = sz"
    and of_bytes_to_bytes: "wf h \<Longrightarrow> of_bytes (to_bytes h) = h"
    and to_bytes_of_bytes: "length bs = sz \<Longrightarrow> to_bytes (of_bytes bs) = bs"
    and wf_of_bytes: "length bs = sz \<Longrightarrow> wf (of_bytes bs)"
begin

abbreviation get :: "u8 list \<Rightarrow> nat \<Rightarrow> 't" where
  "get m ofs \<equiv> header_ref sz of_bytes m ofs"

abbreviation put :: "u8 list \<Rightarrow> nat \<Rightarrow> 't \<Rightarrow> u8 list" where
  "put m ofs h \<equiv> header_put sz to_bytes m ofs h"

lemma wf_get: "ofs + sz \<le> length m \<Longrightarrow> wf (get m ofs)"
  by (simp add: header_ref_def header_slice_def wf_of_bytes)

lemma length_put: "wf h \<Longrightarrow> ofs + sz \<le> length m \<Longrightarrow> length (put m ofs h) = length m"
  by (simp add: header_put_def length_to_bytes)

lemma slice_put: "wf h \<Longrightarrow> ofs + sz \<le> length m \<Longrightarrow> header_slice sz (put m ofs h) ofs = to_bytes h"
  by (simp add: header_put_def header_slice_def length_to_bytes)

lemma get_put: "wf h \<Longrightarrow> ofs + sz \<le> length m \<Longrightarrow> get (put m ofs h) ofs = h"
  by (simp add: header_ref_def slice_put of_bytes_to_bytes)

lemma put_get: "ofs + sz \<le> length m \<Longrightarrow> put m ofs (get m ofs) = m"
  by (simp add: header_put_def header_ref_def header_slice_def to_bytes_of_bytes)
    (metis append_take_drop_id drop_drop add.commute)

lemma put_put: "wf h \<Longrightarrow> wf h' \<Longrightarrow> ofs + sz \<le> length m \<Longrightarrow> put (put m ofs h) ofs h' = put m ofs h'"
  by (simp add: header_put_def length_to_bytes)

lemma nth_put_other:
  assumes "wf h" and "ofs + sz \<le> length m" and "i < ofs \<or> ofs + sz \<le> i" and "i < length m"
  shows "put m ofs h ! i = m ! i"
  using assms by (auto simp: header_put_def length_to_bytes nth_append)

lemma slice_put_before:
  "wf h \<Longrightarrow> ofs + sz \<le> length m \<Longrightarrow> i + n \<le> ofs \<Longrightarrow> take n (drop i (put m ofs h)) = take n (drop i m)"
  by (rule nth_equalityI) (simp_all add: length_put nth_put_other)

lemma get_new: "wf dflt \<Longrightarrow> get (header_new to_bytes dflt) 0 = dflt"
  by (simp add: header_new_def header_ref_def header_slice_def length_to_bytes of_bytes_to_bytes)

lemma get_copy:
  "ofs + sz \<le> length m \<Longrightarrow> sz \<le> length dst \<Longrightarrow> get (header_copy sz m ofs dst) 0 = get m ofs"
  by (simp add: header_ref_def header_copy_def header_slice_def take_copy)

lemma drop_put_after:
  "wf h \<Longrightarrow> ofs + sz \<le> length m \<Longrightarrow> ofs + sz \<le> i \<Longrightarrow> drop i (put m ofs h) = drop i m"
  by (rule nth_equalityI) (simp_all add: length_put nth_put_other)

end

end
