(* ===== verification/Ethernet.thy ===== *)
theory Ethernet
  imports Header
begin

text \<open>
  \<^verbatim>\<open>rush/src/ethernet.rs\<close>: the Ethernet header and MAC addresses. A \<^verbatim>\<open>[u8; 6]\<close> is a list of six
  bytes; \<open>eth_ok\<close> states the length, which the Rust type guarantees.
\<close>

type_synonym mac_address = "u8 list"

section \<open>Addresses as strings\<close>

definition hex_char :: "nat \<Rightarrow> char" where
  "hex_char d = (if d < 10 then char_of (48 + d) else char_of (87 + d))"

text \<open>The format \<^verbatim>\<open>{:x}\<close> of a \<^verbatim>\<open>u8\<close>: no leading zeros.\<close>

definition hex_string :: "u8 \<Rightarrow> string" where
  "hex_string b =
     (if unat b < 16 then [hex_char (unat b)] else [hex_char (unat b div 16), hex_char (unat b mod 16)])"

definition ntop :: "mac_address \<Rightarrow> string" where
  "ntop address =
     hex_string (address ! 0) @ '':'' @ hex_string (address ! 1) @ '':'' @ hex_string (address ! 2) @ '':'' @
     hex_string (address ! 3) @ '':'' @ hex_string (address ! 4) @ '':'' @ hex_string (address ! 5)"

definition hex_val :: "char \<Rightarrow> nat option" where
  "hex_val c =
     (let n = of_char c :: nat in
      if 48 \<le> n \<and> n \<le> 57 then Some (n - 48)
      else if 97 \<le> n \<and> n \<le> 102 then Some (n - 87)
      else if 65 \<le> n \<and> n \<le> 70 then Some (n - 55)
      else None)"

fun hex_digits :: "nat \<Rightarrow> string \<Rightarrow> nat option" where
  "hex_digits acc [] = Some acc"
| "hex_digits acc (c # cs) =
     (case hex_val c of None \<Rightarrow> None | Some d \<Rightarrow> if 16 * acc + d < 256 then hex_digits (16 * acc + d) cs else None)"

text \<open>
  \<^verbatim>\<open>u8::from_str_radix(s, 16)\<close>: an optional plus sign and at least one digit, without overflow.
\<close>

definition from_str_radix16 :: "string \<Rightarrow> u8 option" where
  "from_str_radix16 s =
     (case s of
        [] \<Rightarrow> None
      | c # cs \<Rightarrow> map_option of_nat (if c = CHR ''+'' \<and> cs \<noteq> [] then hex_digits 0 cs else hex_digits 0 s))"

text \<open>\<^verbatim>\<open>u8::from_str_radix(&string[i..j], 16).unwrap()\<close>.\<close>

definition pton_byte :: "string \<Rightarrow> nat \<Rightarrow> nat \<Rightarrow> u8 res" where
  "pton_byte s i j =
     (if j \<le> length s
      then case from_str_radix16 (take (j - i) (drop i s)) of None \<Rightarrow> Inl Unwrap_err | Some b \<Rightarrow> Inr b
      else Inl Index_out_of_bounds)"

definition pton :: "string \<Rightarrow> mac_address res" where
  "pton s =
     bindR (pton_byte s 0 2) (\<lambda>a0. bindR (pton_byte s 3 5) (\<lambda>a1. bindR (pton_byte s 6 8) (\<lambda>a2.
     bindR (pton_byte s 9 11) (\<lambda>a3. bindR (pton_byte s 12 14) (\<lambda>a4. bindR (pton_byte s 15 17) (\<lambda>a5.
     Inr [a0, a1, a2, a3, a4, a5]))))))"

section \<open>The header\<close>

record ethernet =
  eth_dst :: mac_address
  eth_src :: mac_address
  ethertype_raw :: u16

definition ethernet_size :: nat where "ethernet_size = 14"

definition eth_ok :: "ethernet \<Rightarrow> bool" where
  "eth_ok h \<longleftrightarrow> length (eth_dst h) = 6 \<and> length (eth_src h) = 6"

definition ethernet_bytes :: "ethernet \<Rightarrow> u8 list" where
  "ethernet_bytes h = eth_dst h @ eth_src h @ wr16 (ethertype_raw h)"

definition ethernet_of_bytes :: "u8 list \<Rightarrow> ethernet" where
  "ethernet_of_bytes bs =
     \<lparr>eth_dst = take 6 bs, eth_src = take 6 (drop 6 bs), ethertype_raw = rd16 bs 12\<rparr>"

definition ethernet_default :: ethernet where
  "ethernet_default = \<lparr>eth_dst = replicate 6 0, eth_src = replicate 6 0, ethertype_raw = 0\<rparr>"

definition set_dst :: "mac_address \<Rightarrow> ethernet \<Rightarrow> ethernet" where
  "set_dst address h = h\<lparr>eth_dst := copy (eth_dst h) address 6\<rparr>"

definition set_src :: "mac_address \<Rightarrow> ethernet \<Rightarrow> ethernet" where
  "set_src address h = h\<lparr>eth_src := copy (eth_src h) address 6\<rparr>"

definition ethertype :: "ethernet \<Rightarrow> u16" where
  "ethertype h = ntohs (ethertype_raw h)"

definition set_ethertype :: "u16 \<Rightarrow> ethernet \<Rightarrow> ethernet" where
  "set_ethertype v h = h\<lparr>ethertype_raw := htons v\<rparr>"

definition eth_swap :: "ethernet \<Rightarrow> ethernet" where
  "eth_swap h =
     (let tmp = copy (replicate 6 0) (eth_dst h) 6;
          h = h\<lparr>eth_dst := copy (eth_dst h) (eth_src h) 6\<rparr>
      in h\<lparr>eth_src := copy (eth_src h) tmp 6\<rparr>)"

definition TYPE_IPV4 :: u16 where "TYPE_IPV4 = 0x0800"

section \<open>Layout\<close>

lemma ethernet_bytes_of_bytes:
  assumes "length bs = ethernet_size"
  shows "ethernet_bytes (ethernet_of_bytes bs) = bs"
proof -
  have "ethernet_bytes (ethernet_of_bytes bs) = take 6 (drop 0 bs) @ take 6 (drop 6 bs) @ drop 12 bs"
    using assms by (simp add: ethernet_bytes_def ethernet_of_bytes_def ethernet_size_def wr16_rd16)
  then show ?thesis
    using take_drop_chain [of 6 0 bs] take_drop_chain [of 6 6 bs] by simp
qed

interpretation ethh: packed_struct ethernet_size eth_ok ethernet_bytes ethernet_of_bytes
proof unfold_locales
  fix h assume "eth_ok h"
  then show "length (ethernet_bytes h) = ethernet_size" and "ethernet_of_bytes (ethernet_bytes h) = h"
    by (simp_all add: eth_ok_def ethernet_bytes_def ethernet_of_bytes_def ethernet_size_def rd16_def
        le_nat_wr16)
next
  fix bs :: "u8 list" assume bs: "length bs = ethernet_size"
  then show "ethernet_bytes (ethernet_of_bytes bs) = bs" by (rule ethernet_bytes_of_bytes)
  show "eth_ok (ethernet_of_bytes bs)"
    using bs by (simp add: eth_ok_def ethernet_of_bytes_def ethernet_size_def)
qed

lemma eth_swap_eq: "eth_ok h \<Longrightarrow> eth_swap h = h\<lparr>eth_dst := eth_src h, eth_src := eth_dst h\<rparr>"
  by (simp add: eth_swap_def eth_ok_def copy_all Let_def)

lemma eth_set_dst_eq: "eth_ok h \<Longrightarrow> length a = 6 \<Longrightarrow> set_dst a h = h\<lparr>eth_dst := a\<rparr>"
  by (simp add: set_dst_def eth_ok_def copy_all)

lemma eth_set_src_eq: "eth_ok h \<Longrightarrow> length a = 6 \<Longrightarrow> set_src a h = h\<lparr>eth_src := a\<rparr>"
  by (simp add: set_src_def eth_ok_def copy_all)


section \<open>Addresses as strings\<close>

lemma hex_val_hex_char: "d < 16 \<Longrightarrow> hex_val (hex_char d) = Some d"
  by (auto simp: hex_val_def hex_char_def Let_def)

lemma hex_char_not_plus: "d < 16 \<Longrightarrow> hex_char d \<noteq> CHR ''+''"
proof
  assume d: "d < 16" and p: "hex_char d = CHR ''+''"
  have "hex_val (CHR ''+'') = None" by (simp add: hex_val_def Let_def)
  with hex_val_hex_char [OF d] p show False by simp
qed

lemma from_str_radix16_two:
  assumes "16 \<le> unat b"
  shows "hex_string b = [hex_char (unat b div 16), hex_char (unat b mod 16)]"
    and "from_str_radix16 [hex_char (unat b div 16), hex_char (unat b mod 16)] = Some b"
proof -
  have b: "unat b < 256" using unat_u8_lt [of b] by simp
  then have d: "unat b div 16 < 16" by (simp add: less_mult_imp_div_less)
  show "hex_string b = [hex_char (unat b div 16), hex_char (unat b mod 16)]" using assms by (simp add: hex_string_def)
  have "16 * (unat b div 16) + unat b mod 16 = unat b" by simp
  then show "from_str_radix16 [hex_char (unat b div 16), hex_char (unat b mod 16)] = Some b"
    using b d by (simp add: from_str_radix16_def hex_char_not_plus hex_val_hex_char)
qed

lemma length_hex_string: "length (hex_string b) = (if unat b < 16 then 1 else 2)"
  by (simp add: hex_string_def)

text \<open>
  C40. A MAC address survives being printed by \<^verbatim>\<open>ntop\<close> and read by \<^verbatim>\<open>pton\<close> exactly if none of its bytes is below 16: such a byte is printed
  as one digit, the string is too short for the fixed positions that \<^verbatim>\<open>pton\<close> reads, and \<^verbatim>\<open>pton\<close> panics.
\<close>

theorem mac_address_roundtrip:
  assumes "length a = 6"
  shows "if \<forall>b \<in> set a. 16 \<le> unat b then pton (ntop a) = Inr a else \<exists>e. pton (ntop a) = Inl e"
proof -
  obtain a0 a1 a2 a3 a4 a5 where a: "a = [a0, a1, a2, a3, a4, a5]"
    using assms by (auto simp: numeral_eq_Suc length_Suc_conv)
  show ?thesis
  proof (cases "\<forall>b \<in> set a. 16 \<le> unat b")
    case True
    then have "pton (ntop a) = Inr a"
      by (simp add: a pton_def ntop_def pton_byte_def from_str_radix16_two)
    with True show ?thesis by simp
  next
    case False
    have "length (ntop a) < 17" using False by (auto simp: a ntop_def length_hex_string)
    then have "pton_byte (ntop a) 15 17 = Inl Index_out_of_bounds" by (simp add: pton_byte_def)
    then have "\<nexists>r. pton (ntop a) = Inr r" by (auto simp: pton_def bindR_eq_Inr)
    then have "\<exists>e. pton (ntop a) = Inl e" by (metis sum.exhaust)
    with False show ?thesis by auto
  qed
qed

theorem mac_address_roundtrip_witness:
  "pton (ntop [0x52, 0x54, 0x10, 0xaa, 0xbb, 0xff]) = Inr [0x52, 0x54, 0x10, 0xaa, 0xbb, 0xff] \<and>
   (\<exists>e. pton (ntop [0x52, 0x54, 0, 0xaa, 0xbb, 0xff]) = Inl e)"
  using mac_address_roundtrip [of "[0x52, 0x54, 0x10, 0xaa, 0xbb, 0xff]"] mac_address_roundtrip [of "[0x52, 0x54, 0, 0xaa, 0xbb, 0xff]"]
  by simp

end
