(* ===== verification/Checksum.thy ===== *)
theory Checksum
  imports Lib
begin

text \<open>
  \<^verbatim>\<open>rush/src/checksum.rs\<close>: the ones'-complement Internet checksum. The three routines of the file
  are modelled one by one: the portable reference \<^verbatim>\<open>checksum_rust\<close>, and the two \<^verbatim>\<open>asm!\<close> bodies of
  \<^verbatim>\<open>checksum\<close> (x86_64 and aarch64) instruction by instruction, with the carry flag as a value.
  They are proved equal to one specification, \<open>ones_sum\<close> over the big-endian 16-bit words of the
  data (RFC 1071), from which the two uses that the comment of \<^verbatim>\<open>ipsum\<close> advertises follow:
  verifying a checksum and chaining it over several blocks.

  Sizes are natural numbers: the routines compare them as signed 64-bit integers, and no Rust
  object is larger than \<^verbatim>\<open>isize::MAX\<close> bytes.
\<close>

section \<open>Loads and additions with carry\<close>

text \<open>Unaligned little-endian loads at a byte offset.\<close>

definition ld64 :: "u8 list \<Rightarrow> nat \<Rightarrow> u64" where
  "ld64 m i = of_nat (le_nat (take 8 (drop i m)))"

definition ld32 :: "u8 list \<Rightarrow> nat \<Rightarrow> u64" where
  "ld32 m i = of_nat (le_nat (take 4 (drop i m)))"

definition ld16 :: "u8 list \<Rightarrow> nat \<Rightarrow> u64" where
  "ld16 m i = of_nat (le_nat (take 2 (drop i m)))"

definition ld8 :: "u8 list \<Rightarrow> nat \<Rightarrow> u64" where
  "ld8 m i = of_nat (le_nat (take 1 (drop i m)))"

text \<open>\<^verbatim>\<open>add\<close> is \<open>adc False\<close>; the second component is the carry flag afterwards.\<close>

definition adc :: "bool \<Rightarrow> 'a::len word \<Rightarrow> 'a word \<Rightarrow> 'a word \<times> bool" where
  "adc c a b = (a + b + of_bool c, 2 ^ LENGTH('a) \<le> unat a + unat b + of_bool c)"

section \<open>The reference routine\<close>

function rust_loop :: "u8 list \<Rightarrow> nat \<Rightarrow> nat \<Rightarrow> u64 \<Rightarrow> nat \<times> u64" where
  "rust_loop data len i csum =
     (if 1 < i then rust_loop data len (i - 2) (csum + ld16 data (len - i)) else (i, csum))"
  by pat_completeness auto
termination
  by (relation "measure (\<lambda>(data, len, i, csum). i)") auto

lemma unat_and_ffff: "16 \<le> LENGTH('a) \<Longrightarrow> unat (x AND 0xffff :: 'a::len word) = unat x mod 65536"
proof -
  assume "16 \<le> LENGTH('a)"
  have "(0xffff :: 'a word) = mask 16"
    by (simp add: mask_eq_exp_minus_1)
  then have "x AND 0xffff = take_bit 16 x"
    by (simp only: take_bit_eq_mask)
  then have "unat (x AND 0xffff) = take_bit 16 (unat x)"
    using \<open>16 \<le> LENGTH('a)\<close> by (simp only: unsigned_take_bit_eq)
  then show ?thesis
    by (simp add: take_bit_eq_mod)
qed

lemma rust_fold_step:
  fixes csum :: u64
  shows "unat ((csum AND 0xffff) + drop_bit 16 csum) = unat csum mod 65536 + unat csum div 65536"
proof -
  have "unat csum mod 65536 + unat csum div 65536 < 2 ^ 64"
    using unat_u64_lt [of csum] mod_less_divisor [of 65536 "unat csum"]
      less_mult_imp_div_less [of "unat csum" "2 ^ 48" 65536]
    by simp
  then show ?thesis
    by (simp add: unat_word_ariths unat_and_ffff unat_drop_bit_div)
qed

function rust_fold :: "u64 \<Rightarrow> u64" where
  "rust_fold csum =
     (let carry = drop_bit 16 csum in
      if carry = 0 then csum else rust_fold ((csum AND 0xffff) + carry))"
  by pat_completeness auto
termination
proof (relation "measure unat")
  fix csum carry :: u64
  assume "carry = drop_bit 16 csum" and "carry \<noteq> 0"
  then have "unat csum div 65536 \<noteq> 0"
    using unat_drop_bit_div [of 16 csum] unat_0_iff [of carry] by simp
  then have "unat csum mod 65536 + unat csum div 65536 < unat csum"
    using div_mult_mod_eq [of "unat csum" 65536] by linarith
  then show "((csum AND 0xffff) + carry, csum) \<in> measure unat"
    using rust_fold_step [of csum] \<open>carry = drop_bit 16 csum\<close> by simp
qed simp

definition checksum_rust :: "u8 list \<Rightarrow> nat \<Rightarrow> u16 res" where
  "checksum_rust data len =
     (if length data < len then Inl Out_of_bounds_read
      else
        let (i, csum) = rust_loop data len len 0;
            csum = (if i = 1 then csum + ucast (data ! (len - 1)) else csum);
            csum = rust_fold csum
        in Inr (ntohs (ucast (NOT csum) AND 0xffff)))"

section \<open>The x86_64 routine\<close>

text \<open>Local label 1: sum 32 bytes at a time; returns the offset, the size left and the sum.\<close>

function x86_loop :: "u8 list \<Rightarrow> nat \<Rightarrow> nat \<Rightarrow> u64 \<Rightarrow> nat \<times> nat \<times> u64" where
  "x86_loop m ptr sz acc =
     (if sz < 32 then (ptr, sz, acc)
      else
        let (acc, c) = adc False acc (ld64 m ptr);
            (acc, c) = adc c acc (ld64 m (ptr + 8));
            (acc, c) = adc c acc (ld64 m (ptr + 16));
            (acc, c) = adc c acc (ld64 m (ptr + 24));
            (acc, c) = adc c acc 0
        in x86_loop m (ptr + 32) (sz - 32) acc)"
  by pat_completeness auto
termination
  by (relation "measure (\<lambda>(m, ptr, sz, acc). sz)") auto

text \<open>Labels 2 to 6: the remaining 16, 8, 4, 2 and 1 bytes.\<close>

definition x86_16 :: "u8 list \<Rightarrow> nat \<times> nat \<times> u64 \<Rightarrow> nat \<times> nat \<times> u64" where
  "x86_16 m = (\<lambda>(ptr, sz, acc).
     if sz < 16 then (ptr, sz, acc)
     else
       let (acc, c) = adc False acc (ld64 m ptr);
           (acc, c) = adc c acc (ld64 m (ptr + 8));
           (acc, c) = adc c acc 0
       in (ptr + 16, sz - 16, acc))"

definition x86_tail ::
    "(u8 list \<Rightarrow> nat \<Rightarrow> u64) \<Rightarrow> nat \<Rightarrow> u8 list \<Rightarrow> nat \<times> nat \<times> u64 \<Rightarrow> nat \<times> nat \<times> u64" where
  "x86_tail ld n m = (\<lambda>(ptr, sz, acc).
     if sz < n then (ptr, sz, acc)
     else
       let (acc, c) = adc False acc (ld m ptr);
           (acc, c) = adc c acc 0
       in (ptr + n, sz - n, acc))"

text \<open>Label 7: fold 64 bits into 32 and 32 into 16, complement, and swap.\<close>

definition x86_fold :: "u64 \<Rightarrow> u16" where
  "x86_fold acc =
     (let tmp = drop_bit 32 acc;
          (eacc, c) = adc False (ucast acc :: u32) (ucast tmp);
          (eacc, c) = adc c eacc 0;
          etmp = drop_bit 16 eacc;
          eacc = eacc AND 0x0000ffff;
          (xacc, c) = adc False (ucast eacc :: u16) (ucast etmp);
          (xacc, c) = adc c xacc 0
      in swap_bytes16 (NOT xacc))"

definition checksum_x86_64 :: "u8 list \<Rightarrow> nat \<Rightarrow> u16 \<Rightarrow> u16 res" where
  "checksum_x86_64 data len init =
     (if length data < len then Inl Out_of_bounds_read
      else
        let st = x86_loop data 0 len (ucast (swap_bytes16 init));
            st = x86_16 data st;
            st = x86_tail ld64 8 data st;
            st = x86_tail ld32 4 data st;
            st = x86_tail ld16 2 data st;
            (ptr, sz, acc) = x86_tail ld8 1 data st
        in Inr (x86_fold acc))"

section \<open>The aarch64 routine\<close>

text \<open>
  Label 1. \<^verbatim>\<open>adcs\<close> adds with the carry flag and sets it, the last \<^verbatim>\<open>adc\<close> only adds; \<^verbatim>\<open>mod32\<close> counts
  the bytes of the whole 32-byte blocks. The loop is left with the carry flag cleared by \<^verbatim>\<open>tst\<close>.
\<close>

function arm_loop :: "u8 list \<Rightarrow> nat \<Rightarrow> nat \<Rightarrow> u64 \<Rightarrow> nat \<times> u64" where
  "arm_loop m ptr mod32 acc =
     (let (acc, c) = adc False acc (ld64 m ptr);
          (acc, c) = adc c acc (ld64 m (ptr + 8));
          (acc, c) = adc c acc (ld64 m (ptr + 16));
          (acc, c) = adc c acc (ld64 m (ptr + 24));
          acc = fst (adc c acc 0)
      in if 32 < mod32 then arm_loop m (ptr + 32) (mod32 - 32) acc else (ptr + 32, acc))"
  by pat_completeness auto
termination
  by (relation "measure (\<lambda>(m, ptr, mod32, acc). mod32)") auto

text \<open>Label 2 (\<^verbatim>\<open>tbz size, 4\<close>): it starts with \<^verbatim>\<open>adds\<close>. The state carries the flag on.\<close>

definition arm_16 :: "u8 list \<Rightarrow> nat \<Rightarrow> nat \<times> u64 \<times> bool \<Rightarrow> nat \<times> u64 \<times> bool" where
  "arm_16 m sz = (\<lambda>(ptr, acc, c).
     if \<not> bit sz 4 then (ptr, acc, c)
     else
       let (acc, c) = adc False acc (ld64 m ptr);
           (acc, c) = adc c acc (ld64 m (ptr + 8))
       in (ptr + 16, acc, c))"

text \<open>Labels 3 to 6 (\<^verbatim>\<open>tbz size, k\<close>).\<close>

definition arm_tail ::
    "(u8 list \<Rightarrow> nat \<Rightarrow> u64) \<Rightarrow> nat \<Rightarrow> u8 list \<Rightarrow> nat \<Rightarrow> nat \<times> u64 \<times> bool \<Rightarrow> nat \<times> u64 \<times> bool" where
  "arm_tail ld k m sz = (\<lambda>(ptr, acc, c).
     if \<not> bit sz k then (ptr, acc, c)
     else let (acc, c) = adc c acc (ld m ptr) in (ptr + 2 ^ k, acc, c))"

definition arm_fold :: "u64 \<Rightarrow> bool \<Rightarrow> u16" where
  "arm_fold acc c =
     (let tmp1 = drop_bit 32 acc;
          (wacc, c) = adc c (ucast acc :: u32) (ucast tmp1);
          wacc = fst (adc c wacc 0);
          tmp2 = wacc AND 0xffff;
          wacc = tmp2 + drop_bit 16 wacc;
          wacc = wacc + drop_bit 16 wacc
      in swap_bytes16 (ucast (NOT wacc)))"

definition checksum_aarch64 :: "u8 list \<Rightarrow> nat \<Rightarrow> u16 \<Rightarrow> u16 res" where
  "checksum_aarch64 data len init =
     (if length data < len then Inl Out_of_bounds_read
      else
        let acc = ucast (swap_bytes16 init);
            mod32 = len - len mod 32;
            (ptr, acc) = (if mod32 = 0 then (0, acc) else arm_loop data 0 mod32 acc);
            st = arm_16 data len (ptr, acc, False);
            st = arm_tail ld64 3 data len st;
            st = arm_tail ld32 2 data len st;
            st = arm_tail ld16 1 data len st;
            (ptr, acc, c) = arm_tail ld8 0 data len st
        in Inr (arm_fold acc c))"

text \<open>\<^verbatim>\<open>ipsum\<close> calls the routine of the target; the proofs below show that the choice is immaterial.\<close>

definition ipsum :: "u8 list \<Rightarrow> nat \<Rightarrow> u16 \<Rightarrow> u16 res" where
  "ipsum data len init = checksum_x86_64 data len init"

declare rust_loop.simps [simp del] rust_fold.simps [simp del]
  x86_loop.simps [simp del] arm_loop.simps [simp del]

section \<open>Specification: ones'-complement sums\<close>

text \<open>
  End-around-carry addition of 16-bit words computes the sum modulo 65535, where a sum that is not
  zero is represented in 1 to 65535.
\<close>

definition ones_sum :: "nat \<Rightarrow> nat" where
  "ones_sum n = (if n = 0 then 0 else (n - 1) mod 65535 + 1)"

text \<open>The sums of the little-endian and of the big-endian 16-bit words, an odd byte padded by 0.\<close>

fun le_sum :: "u8 list \<Rightarrow> nat" where
  "le_sum (a # b # m) = unat a + 256 * unat b + le_sum m"
| "le_sum [a] = unat a"
| "le_sum [] = 0"

fun be_sum :: "u8 list \<Rightarrow> nat" where
  "be_sum (a # b # m) = 256 * unat a + unat b + be_sum m"
| "be_sum [a] = 256 * unat a"
| "be_sum [] = 0"

definition rfc1071 :: "u8 list \<Rightarrow> u16 \<Rightarrow> u16" where
  "rfc1071 bs init = NOT (of_nat (ones_sum (unat init + be_sum bs)))"

section \<open>Arithmetic of ones'-complement sums\<close>

lemma ones_sum_0 [simp]: "ones_sum 0 = 0"
  by (simp add: ones_sum_def)

lemma ones_sum_eq_0 [simp]: "ones_sum n = 0 \<longleftrightarrow> n = 0"
  by (simp add: ones_sum_def)

lemma ones_sum_le: "ones_sum n \<le> 65535"
  using mod_less_divisor [of 65535 "n - 1"] by (simp add: ones_sum_def del: mod_less_divisor)

lemma ones_sum_lt [simp]: "ones_sum n < 65536"
  using ones_sum_le [of n] by simp

lemma ones_sum_small: "n < 65536 \<Longrightarrow> ones_sum n = n"
  by (simp add: ones_sum_def)

lemma ones_sum_mod: "ones_sum n mod 65535 = n mod 65535"
proof (cases n)
  case (Suc k)
  then show ?thesis by (simp add: ones_sum_def mod_Suc_eq)
qed simp

lemma ones_sum_cong_iff:
  "ones_sum a = ones_sum b \<longleftrightarrow> a mod 65535 = b mod 65535 \<and> (a = 0 \<longleftrightarrow> b = 0)"
proof
  assume "ones_sum a = ones_sum b"
  then show "a mod 65535 = b mod 65535 \<and> (a = 0 \<longleftrightarrow> b = 0)"
    by (metis ones_sum_mod ones_sum_eq_0)
next
  assume r: "a mod 65535 = b mod 65535 \<and> (a = 0 \<longleftrightarrow> b = 0)"
  show "ones_sum a = ones_sum b"
  proof (cases "a = 0")
    case False
    with r obtain i j where a: "a = Suc i" and b: "b = Suc j"
      by (metis not0_implies_Suc)
    with r have "(i + 1) mod 65535 = (j + 1) mod 65535" by simp
    then have "i mod 65535 = j mod 65535"
      using mod_add_cong [of "i + 1" 65535 "j + 1" 65534 65534] by simp
    then show ?thesis by (simp add: a b ones_sum_def)
  qed (use r in simp)
qed

text \<open>The facts that make it an end-around-carry sum.\<close>

lemma ones_sum_add_cong: "ones_sum a = ones_sum b \<Longrightarrow> ones_sum (a + n) = ones_sum (b + n)"
  by (auto simp: ones_sum_cong_iff intro: mod_add_cong)

lemma ones_sum_idem [simp]: "ones_sum (ones_sum a) = ones_sum a"
  by (rule ones_sum_small) simp

lemma ones_sum_absorb: "ones_sum (ones_sum a + b) = ones_sum (a + b)"
  by (rule ones_sum_add_cong) simp

lemma ones_sum_carry: "ones_sum (a + 65536 * b) = ones_sum (a + b)"
proof -
  have "a + 65536 * b = (a + b) + 65535 * b" by simp
  then have "(a + 65536 * b) mod 65535 = (a + b) mod 65535"
    by (simp only: mod_mult_self2)
  then show ?thesis by (auto simp: ones_sum_cong_iff)
qed

lemma ones_sum_mult_cong: "0 < k \<Longrightarrow> ones_sum a = ones_sum b \<Longrightarrow> ones_sum (k * a) = ones_sum (k * b)"
  by (auto simp: ones_sum_cong_iff intro: mod_mult_cong)

section \<open>Additions with carry keep the sum\<close>

lemma le_nat_le_sum: "ones_sum (n + le_nat bs) = ones_sum (n + le_sum bs)"
proof (induction bs arbitrary: n rule: le_sum.induct)
  case (1 a b m)
  have "ones_sum (n + le_nat (a # b # m))
      = ones_sum ((n + unat a + 256 * unat b) + 65536 * le_nat m)"
    by (simp add: algebra_simps)
  also have "\<dots> = ones_sum ((n + unat a + 256 * unat b) + le_nat m)"
    by (rule ones_sum_carry)
  also have "\<dots> = ones_sum ((n + unat a + 256 * unat b) + le_sum m)"
    by (rule "1.IH")
  finally show ?case by (simp add: algebra_simps)
qed simp_all

lemma le_sum_append: "even (length xs) \<Longrightarrow> le_sum (xs @ ys) = le_sum xs + le_sum ys"
  by (induction xs rule: le_sum.induct) simp_all

lemma be_sum_append: "even (length xs) \<Longrightarrow> be_sum (xs @ ys) = be_sum xs + be_sum ys"
  by (induction xs rule: be_sum.induct) simp_all

text \<open>Exchanging the bytes of every word multiplies the sum by 256.\<close>

lemma le_sum_be_sum: "ones_sum (n + 256 * le_sum bs) = ones_sum (n + be_sum bs)"
proof (induction bs arbitrary: n rule: be_sum.induct)
  case (1 a b m)
  have "ones_sum (n + 256 * le_sum (a # b # m))
      = ones_sum ((n + 256 * unat a + 256 * le_sum m) + 65536 * unat b)"
    by (simp add: algebra_simps)
  also have "\<dots> = ones_sum ((n + 256 * unat a + unat b) + 256 * le_sum m)"
    by (subst ones_sum_carry) (simp only: ac_simps)
  also have "\<dots> = ones_sum ((n + 256 * unat a + unat b) + be_sum m)"
    by (rule "1.IH")
  finally show ?case by (simp add: algebra_simps)
qed simp_all

text \<open>
  An accumulator with its carry stands for their sum; it is \<open>settled\<close> when adding the carry cannot
  overflow, which every addition that starts from a settled pair establishes.
\<close>

definition settled :: "'a::len word \<Rightarrow> bool \<Rightarrow> bool" where
  "settled acc c \<longleftrightarrow> (c \<longrightarrow> unat acc + 2 \<le> 2 ^ LENGTH('a))"

lemma settled_False [simp]: "settled acc False"
  by (simp add: settled_def)

lemma carry_arith:
  fixes a b s N :: nat
  assumes "s + N * of_bool c' = a + b + of_bool c" and "a < N" and "b < N" and "s < N"
  shows "(c \<longrightarrow> a + 2 \<le> N) \<Longrightarrow> c' \<longrightarrow> s + 2 \<le> N"
    and "(c \<longrightarrow> a + 2 \<le> N) \<Longrightarrow> b = 0 \<Longrightarrow> s = a + of_bool c \<and> \<not> c'"
  using assms by (cases c; cases c'; simp)+

lemma adc_value:
  fixes a b :: "'a::len word"
  assumes "adc c a b = (s, c')"
  shows "unat s + 2 ^ LENGTH('a) * of_bool c' = unat a + unat b + of_bool c"
proof -
  have s: "unat s = (unat a + unat b + of_bool c) mod 2 ^ LENGTH('a)"
    using assms by (cases c) (auto simp: adc_def unat_word_ariths mod_simps)
  have c': "c' \<longleftrightarrow> 2 ^ LENGTH('a) \<le> unat a + unat b + of_bool c"
    using assms by (simp add: adc_def)
  have "unat a + unat b + of_bool c < 2 * 2 ^ LENGTH('a)"
  proof -
    have "of_bool c \<le> (1 :: nat)" by simp
    with unat_lt_pow [of a] unat_lt_pow [of b] show ?thesis by linarith
  qed
  then show ?thesis
    unfolding s c' by (auto simp: mod_if)
qed

lemma adc_settled:
  fixes a b :: "'a::len word"
  assumes "adc c a b = (s, c')" and "settled a c"
  shows "settled s c'"
  using carry_arith(1) [OF adc_value [OF assms(1)]] assms(2)
  by (simp add: settled_def)

text \<open>The widths that occur: a carry out of 16, 32 or 64 bits weighs as much as a carry in.\<close>

lemma ones_sum_pow: "ones_sum (n + 2 ^ (16 * k) * m) = ones_sum (n + m)"
proof (induction k arbitrary: m)
  case (Suc k)
  have "n + 2 ^ (16 * Suc k) * m = n + 2 ^ (16 * k) * (65536 * m)"
    by (simp add: power_add)
  then show ?case
    using Suc [of "65536 * m"] by (simp only: ones_sum_carry)
qed simp

lemma adc_ones_sum:
  fixes a b :: "'a::len word"
  assumes "adc c a b = (s, c')" and "LENGTH('a) = 16 * k"
  shows "ones_sum (unat s + of_bool c' + n) = ones_sum (unat a + of_bool c + (unat b + n))"
proof -
  have "ones_sum (unat s + of_bool c') = ones_sum (unat s + 2 ^ (16 * k) * of_bool c')"
    by (rule ones_sum_pow [symmetric])
  also have "unat s + 2 ^ (16 * k) * of_bool c' = unat a + unat b + of_bool c"
    using adc_value [OF assms(1)] assms(2) by simp
  finally have "ones_sum (unat s + of_bool c') = ones_sum (unat a + unat b + of_bool c)" .
  then have "ones_sum (unat s + of_bool c' + n) = ones_sum (unat a + unat b + of_bool c + n)"
    by (rule ones_sum_add_cong)
  then show ?thesis by (simp add: ac_simps)
qed

lemma adc_0_settled:
  fixes a :: "'a::len word"
  assumes "settled a c" and "adc c a 0 = (s, c')"
  shows "unat s = unat a + of_bool c" and "\<not> c'"
  using carry_arith(2) [OF adc_value [OF assms(2)]] assms(1)
  by (simp_all add: settled_def)

section \<open>Correctness of the routines\<close>

subsection \<open>Loads\<close>

text \<open>A load within the data has the value of the bytes, for the sum at least.\<close>

lemma ld_value:
  "unat (ld64 m i) = le_nat (take 8 (drop i m))"
  "unat (ld32 m i) = le_nat (take 4 (drop i m))"
  "unat (ld16 m i) = le_nat (take 2 (drop i m))"
  "unat (ld8 m i) = le_nat (take 1 (drop i m))"
proof -
  have "le_nat (take n (drop i m)) < 2 ^ 64" if "n \<le> 8" for n
  proof -
    have "length (take n (drop i m)) \<le> 8" using that by simp
    then have "(256 :: nat) ^ length (take n (drop i m)) \<le> 256 ^ 8"
      by (intro power_increasing) simp_all
    with le_nat_lt [of "take n (drop i m)"] show ?thesis by simp
  qed
  from this [of 8] this [of 4] this [of 2] this [of 1]
  show "unat (ld64 m i) = le_nat (take 8 (drop i m))"
    and "unat (ld32 m i) = le_nat (take 4 (drop i m))"
    and "unat (ld16 m i) = le_nat (take 2 (drop i m))"
    and "unat (ld8 m i) = le_nat (take 1 (drop i m))"
    by (simp_all only: ld64_def ld32_def ld16_def ld8_def unat_of_nat_mod len_of_numeral_defs)
      simp_all
qed

text \<open>
  The state of a routine at offset \<open>ptr\<close> with \<open>sz\<close> bytes to go: the sum of what is accumulated and
  what is left does not change. A step takes an even number of bytes, or all of them.
\<close>

lemma le_sum_split:
  assumes "even n \<or> n = sz" and "n \<le> sz" and "ptr + sz \<le> length m"
  shows "le_sum (take sz (drop ptr m))
       = le_sum (take n (drop ptr m)) + le_sum (take (sz - n) (drop (ptr + n) m))"
proof (cases "even n")
  case True
  have "take sz (drop ptr m) = take (n + (sz - n)) (drop ptr m)"
    using assms(2) by simp
  also have "\<dots> = take n (drop ptr m) @ take (sz - n) (drop (ptr + n) m)"
    by (simp only: take_add drop_drop add.commute)
  finally have "take sz (drop ptr m) = take n (drop ptr m) @ take (sz - n) (drop (ptr + n) m)" .
  moreover have "even (length (take n (drop ptr m)))"
    using True assms(2,3) by simp
  ultimately show ?thesis by (simp add: le_sum_append)
next
  case False
  with assms(1) have "n = sz" by simp
  then show ?thesis by simp
qed

definition sums_to :: "u8 list \<Rightarrow> nat \<Rightarrow> nat \<Rightarrow> nat \<Rightarrow> nat \<Rightarrow> bool" where
  "sums_to m tot ptr sz v \<longleftrightarrow>
     ptr + sz \<le> length m \<and> ones_sum (v + le_sum (take sz (drop ptr m))) = tot"

lemma sums_to_step:
  assumes "sums_to m tot ptr sz v" and "n \<le> sz" and "even n \<or> n = sz"
    and "\<And>r. ones_sum (v' + r) = ones_sum (v + (le_sum (take n (drop ptr m)) + r))"
  shows "sums_to m tot (ptr + n) (sz - n) v'"
  using assms le_sum_split [OF assms(3,2), of ptr m] by (simp add: sums_to_def)

lemma sums_to_0: "sums_to m tot ptr 0 v \<Longrightarrow> ones_sum v = tot"
  by (simp add: sums_to_def)

lemma le_sum_32:
  "le_sum (take 32 (drop ptr m)) =
     le_sum (take 8 (drop ptr m)) + le_sum (take 8 (drop (ptr + 8) m)) +
     le_sum (take 8 (drop (ptr + 16) m)) + le_sum (take 8 (drop (ptr + 24) m))"
  if "ptr + 32 \<le> length m"
  using that le_sum_split [of 8 32 ptr m] le_sum_split [of 8 24 "ptr + 8" m]
    le_sum_split [of 8 16 "ptr + 16" m]
  by (simp add: add.commute add.left_commute)

lemma le_sum_16:
  "le_sum (take 16 (drop ptr m)) =
     le_sum (take 8 (drop ptr m)) + le_sum (take 8 (drop (ptr + 8) m))"
  if "ptr + 16 \<le> length m"
  using that le_sum_split [of 8 16 ptr m] by simp

text \<open>Each load may be replaced by the sum of its 16-bit words.\<close>

lemma ones_sum_le_nat: "ones_sum (v + (le_nat bs + r)) = ones_sum (v + (le_sum bs + r))"
  using le_nat_le_sum [of "v + r" bs] by (simp add: ac_simps)

lemma ones_sum_le_nat4:
  "ones_sum (v + (le_nat a + (le_nat b + (le_nat c + (le_nat d + r))))) =
   ones_sum (v + (le_sum a + le_sum b + le_sum c + le_sum d + r))"
  using le_nat_le_sum [of "v + le_nat b + le_nat c + le_nat d + r" a]
    le_nat_le_sum [of "v + le_sum a + le_nat c + le_nat d + r" b]
    le_nat_le_sum [of "v + le_sum a + le_sum b + le_nat d + r" c]
    le_nat_le_sum [of "v + le_sum a + le_sum b + le_sum c + r" d]
  by (simp add: ac_simps)

subsection \<open>The 32-byte and 16-byte blocks\<close>

lemma adc_block4:
  fixes acc :: u64
  assumes "adc False acc (ld64 m ptr) = (a1, c1)" and "adc c1 a1 (ld64 m (ptr + 8)) = (a2, c2)"
    and "adc c2 a2 (ld64 m (ptr + 16)) = (a3, c3)" and "adc c3 a3 (ld64 m (ptr + 24)) = (a4, c4)"
    and "adc c4 a4 0 = (a5, c5)" and "ptr + 32 \<le> length m"
  shows "ones_sum (unat a5 + r) = ones_sum (unat acc + (le_sum (take 32 (drop ptr m)) + r))"
proof -
  have "settled a4 c4"
    using assms(1-4) adc_settled settled_False by metis
  then have "unat a5 = unat a4 + of_bool c4"
    using assms(5) by (rule adc_0_settled)
  then have "ones_sum (unat a5 + r) = ones_sum (unat acc + (unat (ld64 m ptr) +
      (unat (ld64 m (ptr + 8)) + (unat (ld64 m (ptr + 16)) + (unat (ld64 m (ptr + 24)) + r)))))"
    using adc_ones_sum [OF assms(1), of 4] adc_ones_sum [OF assms(2), of 4]
      adc_ones_sum [OF assms(3), of 4] adc_ones_sum [OF assms(4), of 4]
    by simp
  also have "\<dots> = ones_sum (unat acc + (le_sum (take 32 (drop ptr m)) + r))"
    by (simp only: ld_value ones_sum_le_nat4 le_sum_32 [OF assms(6)])
  finally show ?thesis .
qed

lemma adc_block2:
  fixes acc :: u64
  assumes "adc False acc (ld64 m ptr) = (a1, c1)" and "adc c1 a1 (ld64 m (ptr + 8)) = (a2, c2)"
    and "ptr + 16 \<le> length m"
  shows "settled a2 c2"
    and "ones_sum (unat a2 + of_bool c2 + r) = ones_sum (unat acc + (le_sum (take 16 (drop ptr m)) + r))"
proof -
  show "settled a2 c2"
    using assms(1,2) adc_settled settled_False by metis
  have "ones_sum (unat a2 + of_bool c2 + r)
      = ones_sum (unat acc + (unat (ld64 m ptr) + (unat (ld64 m (ptr + 8)) + r)))"
    using adc_ones_sum [OF assms(1), of 4] adc_ones_sum [OF assms(2), of 4] by simp
  also have "\<dots> = ones_sum (unat acc + (le_sum (take 16 (drop ptr m)) + r))"
    using ones_sum_le_nat4 [of "unat acc" _ _ "[]" "[]"]
    by (simp add: ld_value le_sum_16 [OF assms(3)])
  finally show "ones_sum (unat a2 + of_bool c2 + r)
      = ones_sum (unat acc + (le_sum (take 16 (drop ptr m)) + r))" .
qed

subsection \<open>x86_64\<close>

abbreviation x86_ok :: "u8 list \<Rightarrow> nat \<Rightarrow> nat \<times> nat \<times> u64 \<Rightarrow> bool" where
  "x86_ok m tot st \<equiv> sums_to m tot (fst st) (fst (snd st)) (unat (snd (snd st)))"

lemma x86_loop_ok:
  "sums_to m tot ptr sz (unat acc) \<Longrightarrow>
   x86_ok m tot (x86_loop m ptr sz acc) \<and> fst (snd (x86_loop m ptr sz acc)) < 32"
proof (induction m ptr sz acc rule: x86_loop.induct)
  case (1 m ptr sz acc)
  show ?case
  proof (cases "sz < 32")
    case True
    with "1.prems" show ?thesis by (simp add: x86_loop.simps [of m ptr sz acc])
  next
    case False
    obtain a1 c1 where a1: "adc False acc (ld64 m ptr) = (a1, c1)" by fastforce
    obtain a2 c2 where a2: "adc c1 a1 (ld64 m (ptr + 8)) = (a2, c2)" by fastforce
    obtain a3 c3 where a3: "adc c2 a2 (ld64 m (ptr + 16)) = (a3, c3)" by fastforce
    obtain a4 c4 where a4: "adc c3 a3 (ld64 m (ptr + 24)) = (a4, c4)" by fastforce
    obtain a5 c5 where a5: "adc c4 a4 0 = (a5, c5)" by fastforce
    have "ptr + 32 \<le> length m"
      using False "1.prems" by (simp add: sums_to_def)
    then have "sums_to m tot (ptr + 32) (sz - 32) (unat a5)"
      using False adc_block4 [OF a1 a2 a3 a4 a5]
      by (intro sums_to_step [OF "1.prems"]) simp_all
    with "1.IH" [OF False a1 [symmetric] refl a2 [symmetric] refl a3 [symmetric] refl
        a4 [symmetric] refl a5 [symmetric] refl] False a1 a2 a3 a4 a5
    show ?thesis
      by (simp add: x86_loop.simps [of m ptr sz acc])
  qed
qed

lemma x86_16_ok:
  assumes "x86_ok m tot st" and "fst (snd st) < 32"
  shows "x86_ok m tot (x86_16 m st) \<and> fst (snd (x86_16 m st)) < 16"
proof -
  obtain ptr sz acc where st: "st = (ptr, sz, acc)" by (metis prod_cases3)
  show ?thesis
  proof (cases "sz < 16")
    case True
    with assms st show ?thesis by (simp add: x86_16_def)
  next
    case False
    obtain a1 c1 where a1: "adc False acc (ld64 m ptr) = (a1, c1)" by fastforce
    obtain a2 c2 where a2: "adc c1 a1 (ld64 m (ptr + 8)) = (a2, c2)" by fastforce
    obtain a3 c3 where a3: "adc c2 a2 0 = (a3, c3)" by fastforce
    have len: "ptr + 16 \<le> length m"
      using False assms(1) st by (simp add: sums_to_def)
    have "unat a3 = unat a2 + of_bool c2"
      using adc_block2(1) [OF a1 a2 len] a3 by (rule adc_0_settled)
    then have "sums_to m tot (ptr + 16) (sz - 16) (unat a3)"
      using False adc_block2(2) [OF a1 a2 len] assms(1) st
      by (intro sums_to_step [of m tot ptr sz "unat acc"]) simp_all
    with False assms(2) st a1 a2 a3 show ?thesis
      by (simp add: x86_16_def)
  qed
qed

lemma x86_tail_ok:
  assumes ld: "\<And>i. unat (ld m i) = le_nat (take n (drop i m))"
    and n: "even n \<or> n = 1" and st: "x86_ok m tot st" and lt: "fst (snd st) < 2 * n"
  shows "x86_ok m tot (x86_tail ld n m st) \<and> fst (snd (x86_tail ld n m st)) < n"
proof -
  obtain ptr sz acc where eq: "st = (ptr, sz, acc)" by (metis prod_cases3)
  show ?thesis
  proof (cases "sz < n")
    case True
    with st eq show ?thesis by (simp add: x86_tail_def)
  next
    case False
    obtain a1 c1 where a1: "adc False acc (ld m ptr) = (a1, c1)" by fastforce
    obtain a2 c2 where a2: "adc c1 a1 0 = (a2, c2)" by fastforce
    have "unat a2 = unat a1 + of_bool c1"
      using adc_settled [OF a1 settled_False] a2 by (rule adc_0_settled)
    then have "ones_sum (unat a2 + r) = ones_sum (unat acc + (le_sum (take n (drop ptr m)) + r))" for r
      using adc_ones_sum [OF a1, of 4 r] by (simp add: ld ones_sum_le_nat)
    then have "sums_to m tot (ptr + n) (sz - n) (unat a2)"
      using False n lt st eq by (intro sums_to_step [of m tot ptr sz "unat acc"]) auto
    with False lt eq a1 a2 show ?thesis
      by (auto simp: x86_tail_def)
  qed
qed

subsection \<open>Folding to 16 bits\<close>

lemma ones_sum_halves: "ones_sum (n mod 2 ^ (16 * k) + n div 2 ^ (16 * k) + r) = ones_sum (n + r)"
proof -
  have "ones_sum ((n mod 2 ^ (16 * k) + r) + 2 ^ (16 * k) * (n div 2 ^ (16 * k)))
      = ones_sum ((n mod 2 ^ (16 * k) + r) + n div 2 ^ (16 * k))"
    by (rule ones_sum_pow)
  moreover have "(n mod 2 ^ (16 * k) + r) + 2 ^ (16 * k) * (n div 2 ^ (16 * k)) = n + r"
    by simp
  ultimately show ?thesis by (simp add: ac_simps)
qed

lemma unat_swap_ones: "unat (swap_bytes16 x) = ones_sum (256 * unat x)"
proof -
  have "256 * unat x = 256 * (unat x mod 256) + 65536 * (unat x div 256)"
    using div_mult_mod_eq [of "unat x" 256] by linarith
  then have "ones_sum (256 * unat x) = ones_sum (unat (swap_bytes16 x))"
    by (simp only: ones_sum_carry unat_swap_bytes16)
  then show ?thesis by (simp add: ones_sum_small)
qed

lemma swap_bytes16_not: "swap_bytes16 (NOT x) = NOT (swap_bytes16 x)"
  by (rule bit_word_eqI) (auto simp: bit_swap_bytes16 bit_not_iff)

text \<open>The accumulated little-endian sum, complemented and swapped, is the big-endian checksum.\<close>

lemma swap_not_rfc1071:
  assumes "unat x = ones_sum (unat (swap_bytes16 init) + le_sum bs)"
  shows "swap_bytes16 (NOT x) = rfc1071 bs init"
proof -
  have "unat (swap_bytes16 x) = ones_sum (256 * (unat (swap_bytes16 init) + le_sum bs))"
    unfolding unat_swap_ones assms by (rule ones_sum_mult_cong) simp_all
  also have "\<dots> = ones_sum (256 * unat (swap_bytes16 init) + be_sum bs)"
    by (simp only: distrib_left le_sum_be_sum)
  also have "\<dots> = ones_sum (unat init + be_sum bs)"
    using unat_swap_ones [of "swap_bytes16 init"]
    by (intro ones_sum_add_cong) (simp add: ones_sum_small)
  finally have "swap_bytes16 x = of_nat (ones_sum (unat init + be_sum bs))"
    by (intro word_eq_unatI) (simp add: unat_of_nat_small)
  then show ?thesis by (simp add: swap_bytes16_not rfc1071_def)
qed

lemma halves_bound:
  fixes h l :: nat
  shows "h * 4294967296 + l + 2 \<le> 18446744073709551616 \<Longrightarrow> l < 4294967296 \<Longrightarrow>
    h < 4294967296 \<Longrightarrow> l + h + 3 \<le> 8589934592"
  by linarith

lemma unat_fold32:
  fixes acc :: u64
  assumes "adc c (ucast acc :: u32) (ucast (drop_bit 32 acc)) = (w1, c1)"
    and "adc c1 w1 0 = (w2, c2)" and "settled acc c"
  shows "ones_sum (unat w2 + r) = ones_sum (unat acc + of_bool c + r)"
proof -
  let ?lo = "unat acc mod 2 ^ 32" and ?hi = "unat acc div 2 ^ 32"
  have hi: "?hi < 2 ^ 32"
    using less_mult_imp_div_less [of "unat acc" "2 ^ 32" "2 ^ 32"] unat_u64_lt [of acc] by simp
  have u: "unat (ucast acc :: u32) = ?lo" "unat (ucast (drop_bit 32 acc) :: u32) = ?hi"
    using hi by (simp_all add: unat_ucast_mod unat_drop_bit_div)
  have v: "unat w1 + 2 ^ 32 * of_bool c1 = ?lo + ?hi + of_bool c"
    using adc_value [OF assms(1)] by (simp add: u)
  have "c1 \<longrightarrow> unat w1 + 2 \<le> 2 ^ 32"
  proof (cases c)
    case True
    have "unat acc + 2 \<le> 2 ^ 64"
      using assms(3) True by (simp add: settled_def)
    then have "?hi * 2 ^ 32 + ?lo + 2 \<le> 2 ^ 64"
      by (simp only: div_mult_mod_eq)
    then have "?lo + ?hi + 3 \<le> 2 * 2 ^ 32"
      using halves_bound [of ?hi ?lo] hi by simp
    then show ?thesis
      using v True by auto
  next
    case False
    then show ?thesis
      using carry_arith(1) [OF v] hi by simp
  qed
  then have w2: "unat w2 = unat w1 + of_bool c1"
    using assms(2) by (intro adc_0_settled [where c' = c2]) (simp_all add: settled_def)
  have "ones_sum (unat w2 + r) = ones_sum (?lo + of_bool c + (?hi + r))"
    using adc_ones_sum [OF assms(1), of 2 r] by (simp add: w2 u)
  also have "\<dots> = ones_sum (?lo + ?hi + (of_bool c + r))"
    by (simp add: ac_simps)
  also have "\<dots> = ones_sum (unat acc + (of_bool c + r))"
    using ones_sum_halves [of "unat acc" 2] by simp
  finally show ?thesis by (simp add: ac_simps)
qed

lemma unat_x86_fold: "unat (NOT (swap_bytes16 (x86_fold acc))) = ones_sum (unat acc)"
proof -
  obtain w1 c1 where w1: "adc False (ucast acc :: u32) (ucast (drop_bit 32 acc)) = (w1, c1)"
    by fastforce
  obtain w2 c2 where w2: "adc c1 w1 0 = (w2, c2)" by fastforce
  define lo where "lo = (ucast (w2 AND 0x0000ffff) :: u16)"
  define hi where "hi = (ucast (drop_bit 16 w2) :: u16)"
  obtain x1 c3 where x1: "adc False lo hi = (x1, c3)" by fastforce
  obtain x2 c4 where x2: "adc c3 x1 0 = (x2, c4)" by fastforce
  have "unat w2 div 65536 < 65536"
    using less_mult_imp_div_less [of "unat w2" 65536 65536] unat_u32_lt [of w2] by simp
  then have u: "unat lo = unat w2 mod 65536" "unat hi = unat w2 div 65536"
    by (simp_all add: lo_def hi_def unat_ucast_mod unat_drop_bit_div unat_and_ffff)
  have "unat x2 = unat x1 + of_bool c3"
    using adc_settled [OF x1 settled_False] x2 by (rule adc_0_settled)
  then have "ones_sum (unat x2) = ones_sum (unat w2 mod 65536 + unat w2 div 65536)"
    using adc_ones_sum [OF x1, of 1 0] by (simp add: u)
  also have "\<dots> = ones_sum (unat w2)"
    using ones_sum_halves [of "unat w2" 1 0] by simp
  also have "\<dots> = ones_sum (unat acc)"
    using unat_fold32 [OF w1 w2, of 0] by simp
  finally have "unat x2 = ones_sum (unat acc)"
    by (simp add: ones_sum_small)
  moreover have "x86_fold acc = swap_bytes16 (NOT x2)"
    using w1 w2 x1 x2 by (simp add: x86_fold_def Let_def lo_def hi_def)
  ultimately show ?thesis by simp
qed

lemma unat_arm_fold:
  assumes "settled acc c"
  shows "unat (NOT (swap_bytes16 (arm_fold acc c))) = ones_sum (unat acc + of_bool c)"
proof -
  obtain w1 c1 where w1: "adc c (ucast acc :: u32) (ucast (drop_bit 32 acc)) = (w1, c1)"
    by fastforce
  obtain w2 c2 where w2: "adc c1 w1 0 = (w2, c2)" by fastforce
  define v where "v = (w2 AND 0xffff) + drop_bit 16 w2"
  define z where "z = v + drop_bit 16 v"
  have "unat w2 div 65536 < 65536"
    using less_mult_imp_div_less [of "unat w2" 65536 65536] unat_u32_lt [of w2] by simp
  then have v: "unat v = unat w2 mod 65536 + unat w2 div 65536" and v_lt: "unat v < 131071"
    using mod_less_divisor [of 65536 "unat w2"]
    by (simp_all add: v_def unat_word_ariths unat_and_ffff unat_drop_bit_div)
  have z: "unat (ucast z :: u16) = ones_sum (unat v)"
  proof (cases "unat v < 65536")
    case True
    then show ?thesis
      by (simp add: z_def unat_ucast_mod unat_word_ariths unat_drop_bit_div ones_sum_small)
  next
    case False
    then have "unat v div 65536 = 1" using v_lt by simp
    moreover have "(unat v + 1) mod 65536 = unat v - 65535"
      using False v_lt by (simp add: mod_if)
    moreover have "(unat v - 1) mod 65535 + 1 = unat v - 65535"
      using False v_lt mod_if [of "unat v - 1" 65535] by auto
    ultimately show ?thesis
      using False v_lt
      by (simp add: z_def unat_ucast_mod unat_word_ariths unat_drop_bit_div ones_sum_def)
  qed
  have "ones_sum (unat v) = ones_sum (unat acc + of_bool c)"
    using ones_sum_halves [of "unat w2" 1 0] unat_fold32 [OF w1 w2 assms, of 0]
    by (simp add: v)
  moreover have "arm_fold acc c = swap_bytes16 (ucast (NOT z))"
    using w1 w2 by (simp add: arm_fold_def Let_def v_def z_def)
  moreover have "NOT (ucast (NOT z) :: u16) = ucast z"
    by (rule bit_word_eqI) (simp add: bit_not_iff bit_ucast_iff)
  ultimately show ?thesis using z by simp
qed

subsection \<open>aarch64\<close>

lemma arm_loop_ok:
  "sums_to m tot ptr sz (unat acc) \<Longrightarrow> mod32 = sz - sz mod 32 \<Longrightarrow> 0 < mod32 \<Longrightarrow>
   arm_loop m ptr mod32 acc = (ptr', acc') \<Longrightarrow> sums_to m tot ptr' (sz mod 32) (unat acc')"
proof (induction m ptr mod32 acc arbitrary: sz rule: arm_loop.induct)
  case (1 m ptr mod32 acc)
  obtain a1 c1 where a1: "adc False acc (ld64 m ptr) = (a1, c1)" by fastforce
  obtain a2 c2 where a2: "adc c1 a1 (ld64 m (ptr + 8)) = (a2, c2)" by fastforce
  obtain a3 c3 where a3: "adc c2 a2 (ld64 m (ptr + 16)) = (a3, c3)" by fastforce
  obtain a4 c4 where a4: "adc c3 a3 (ld64 m (ptr + 24)) = (a4, c4)" by fastforce
  obtain a5 c5 where a5: "adc c4 a4 0 = (a5, c5)" by fastforce
  have sz: "32 \<le> sz" using "1.prems"(2,3) by (cases "sz < 32") simp_all
  then have "ptr + 32 \<le> length m"
    using "1.prems"(1) by (simp add: sums_to_def)
  then have step: "sums_to m tot (ptr + 32) (sz - 32) (unat a5)"
    using sz adc_block4 [OF a1 a2 a3 a4 a5]
    by (intro sums_to_step [OF "1.prems"(1)]) simp_all
  have mod: "(sz - 32) mod 32 = sz mod 32"
    using sz by (simp add: mod_if)
  have unfold: "arm_loop m ptr mod32 acc =
      (if 32 < mod32 then arm_loop m (ptr + 32) (mod32 - 32) a5 else (ptr + 32, a5))"
    using a1 a2 a3 a4 a5 by (simp add: arm_loop.simps [of m ptr mod32 acc] Let_def)
  show ?case
  proof (cases "32 < mod32")
    case True
    have "mod32 - 32 = (sz - 32) - (sz - 32) mod 32"
      using "1.prems"(2) mod by simp
    moreover have "arm_loop m (ptr + 32) (mod32 - 32) a5 = (ptr', acc')"
      using "1.prems"(4) True unfold by simp
    ultimately have "sums_to m tot ptr' ((sz - 32) mod 32) (unat acc')"
      using "1.IH" [OF a1 [symmetric] refl a2 [symmetric] refl a3 [symmetric] refl
          a4 [symmetric] refl _ True, of a5 "sz - 32"] step True a5
      by simp
    then show ?thesis by (simp add: mod)
  next
    case False
    have "sz - 32 = sz mod 32"
    proof -
      have "sz - sz mod 32 = 32 * (sz div 32)" by (simp add: minus_mod_eq_mult_div)
      with False sz "1.prems"(2) have "32 * (sz div 32) = 32" by simp
      then show ?thesis using \<open>sz - sz mod 32 = _\<close> mod_le_divisor by linarith
    qed
    with step unfold False "1.prems"(4) show ?thesis by simp
  qed
qed

abbreviation arm_ok :: "u8 list \<Rightarrow> nat \<Rightarrow> nat \<Rightarrow> nat \<times> u64 \<times> bool \<Rightarrow> bool" where
  "arm_ok m tot sz st \<equiv>
     settled (fst (snd st)) (snd (snd st)) \<and>
     sums_to m tot (fst st) sz (unat (fst (snd st)) + of_bool (snd (snd st)))"

text \<open>Bit \<open>k\<close> of the size says whether a block of \<open>2 ^ k\<close> bytes is left.\<close>

lemma mod_step: "(n :: nat) mod 2 ^ Suc k = (if bit n k then 2 ^ k + n mod 2 ^ k else n mod 2 ^ k)"
proof -
  have "n mod 2 ^ Suc k = n mod 2 ^ k + 2 ^ k * (n div 2 ^ k mod 2)"
    by (simp only: power_Suc2 mod_mult2_eq add.commute)
  moreover have "n div 2 ^ k mod 2 = of_bool (bit n k)"
    by (simp add: bit_iff_odd mod_2_eq_odd)
  ultimately show ?thesis by simp
qed

lemma arm_16_ok:
  assumes "arm_ok m tot (n mod 32) (ptr, acc, False)"
  shows "arm_ok m tot (n mod 16) (arm_16 m n (ptr, acc, False))"
proof (cases "bit n 4")
  case True
  obtain a1 c1 where a1: "adc False acc (ld64 m ptr) = (a1, c1)" by fastforce
  obtain a2 c2 where a2: "adc c1 a1 (ld64 m (ptr + 8)) = (a2, c2)" by fastforce
  have n: "n mod 32 = 16 + n mod 16"
    using mod_step [of n 4] True by simp
  have len: "ptr + 16 \<le> length m"
    using assms n by (simp add: sums_to_def)
  have "sums_to m tot (ptr + 16) (n mod 32 - 16) (unat a2 + of_bool c2)"
    using assms n adc_block2(2) [OF a1 a2 len]
    by (intro sums_to_step [of m tot ptr "n mod 32" "unat acc"]) simp_all
  with n True a1 a2 adc_block2(1) [OF a1 a2 len] show ?thesis
    by (simp add: arm_16_def)
next
  case False
  then show ?thesis using assms mod_step [of n 4] by (simp add: arm_16_def)
qed

lemma arm_tail_ok:
  assumes ld: "\<And>i. unat (ld m i) = le_nat (take (2 ^ k) (drop i m))"
    and ok: "arm_ok m tot (n mod 2 ^ Suc k) st"
  shows "arm_ok m tot (n mod 2 ^ k) (arm_tail ld k m n st)"
proof -
  obtain ptr acc c where st: "st = (ptr, acc, c)" by (metis prod_cases3)
  show ?thesis
  proof (cases "bit n k")
    case True
    obtain a1 c1 where a1: "adc c acc (ld m ptr) = (a1, c1)" by fastforce
    have n: "n mod 2 ^ Suc k = 2 ^ k + n mod 2 ^ k"
      using mod_step [of n k] True by simp
    have "even ((2 :: nat) ^ k) \<or> 2 ^ k = n mod 2 ^ Suc k"
      using n by (cases k) simp_all
    moreover have "ones_sum (unat a1 + of_bool c1 + r)
        = ones_sum (unat acc + of_bool c + (le_sum (take (2 ^ k) (drop ptr m)) + r))" for r
      using adc_ones_sum [OF a1, of 4 r] by (simp add: ld ones_sum_le_nat)
    ultimately have "sums_to m tot (ptr + 2 ^ k) (n mod 2 ^ Suc k - 2 ^ k) (unat a1 + of_bool c1)"
      using ok st n
      by (intro sums_to_step [of m tot ptr "n mod 2 ^ Suc k" "unat acc + of_bool c"]) simp_all
    moreover have "settled a1 c1"
      using adc_settled [OF a1] ok st by simp
    ultimately show ?thesis using True st a1 n by (simp add: arm_tail_def)
  next
    case False
    then show ?thesis using ok st mod_step [of n k] by (simp add: arm_tail_def)
  qed
qed

subsection \<open>The reference routine\<close>

lemma le_sum_bound: "le_sum bs \<le> 65535 * length bs"
proof (induction bs rule: le_sum.induct)
  case (1 a b m)
  have "unat a \<le> 255" and "unat b \<le> 255"
    using unat_u8_lt [of a] unat_u8_lt [of b] by linarith+
  with 1 show ?case by simp
next
  case (2 a)
  have "unat a < 256" by (rule unat_u8_lt)
  then show ?case by (simp del: unat_u8_lt)
qed simp

lemma rust_loop_ok:
  assumes "i \<le> len" and "len \<le> length data" and "rust_loop data len i csum = (i', csum')"
    and "unat csum + le_sum (take i (drop (len - i) data)) < 2 ^ 64"
  shows "i' \<le> 1 \<and> i' \<le> len \<and> unat csum' + le_sum (take i' (drop (len - i') data))
       = unat csum + le_sum (take i (drop (len - i) data))"
  using assms
proof (induction data len i csum rule: rust_loop.induct)
  case (1 data len i csum)
  show ?case
  proof (cases "1 < i")
    case True
    let ?w = "take 2 (drop (len - i) data)"
    have pos: "len - i + 2 = len - (i - 2)"
      using True "1.prems"(1) by simp
    have split: "le_sum (take i (drop (len - i) data))
        = le_sum ?w + le_sum (take (i - 2) (drop (len - (i - 2)) data))"
      using le_sum_split [of 2 i "len - i" data, unfolded pos] True "1.prems"(1,2) by simp
    have "length ?w = 2" using True "1.prems"(1,2) by simp
    then obtain a b where "?w = [a, b]"
      by (metis (no_types, opaque_lifting) One_nat_def Suc_1 length_0_conv length_Suc_conv)
    then have w: "unat (ld16 data (len - i)) = le_sum ?w"
      by (simp add: ld_value)
    have add: "unat (csum + ld16 data (len - i)) = unat csum + le_sum ?w"
      using "1.prems"(4) split by (simp add: unat_word_ariths w)
    have "rust_loop data len (i - 2) (csum + ld16 data (len - i)) = (i', csum')"
      using "1.prems"(3) True by (simp add: rust_loop.simps [of data len i csum])
    with "1.IH" [OF True] "1.prems"(1,2,4) show ?thesis
      by (simp add: add split)
  next
    case False
    then show ?thesis
      using "1.prems" by (simp add: rust_loop.simps [of data len i csum])
  qed
qed

lemma unat_rust_fold: "unat (rust_fold csum) = ones_sum (unat csum)"
proof (induction csum rule: rust_fold.induct)
  case (1 csum)
  show ?case
  proof (cases "drop_bit 16 csum = 0")
    case True
    then have "unat csum div 65536 = 0"
      using unat_drop_bit_div [of 16 csum] by simp
    then show ?thesis
      using True by (simp add: rust_fold.simps [of csum] ones_sum_small div_eq_0_iff)
  next
    case False
    then have "unat (rust_fold csum) = ones_sum (unat csum mod 65536 + unat csum div 65536)"
      using "1.IH" [OF refl] by (simp add: rust_fold.simps [of csum] rust_fold_step)
    then show ?thesis
      using ones_sum_halves [of "unat csum" 1 0] by simp
  qed
qed

section \<open>The routines compute the checksum of RFC 1071\<close>

lemma checksum_x86_64_correct:
  assumes "len \<le> length data"
  shows "checksum_x86_64 data len init = Inr (rfc1071 (take len data) init)"
proof -
  let ?tot = "ones_sum (unat (swap_bytes16 init) + le_sum (take len data))"
  define s0 where "s0 = x86_loop data 0 len (ucast (swap_bytes16 init))"
  define s1 where "s1 = x86_16 data s0"
  define s2 where "s2 = x86_tail ld64 8 data s1"
  define s3 where "s3 = x86_tail ld32 4 data s2"
  define s4 where "s4 = x86_tail ld16 2 data s3"
  define s5 where "s5 = x86_tail ld8 1 data s4"
  note defs = s0_def s1_def s2_def s3_def s4_def s5_def
  have "unat (ucast (swap_bytes16 init) :: u64) = unat (swap_bytes16 init)"
    by (rule unat_ucast_up) simp
  then have "sums_to data ?tot 0 len (unat (ucast (swap_bytes16 init) :: u64))"
    using assms by (simp add: sums_to_def)
  then have "x86_ok data ?tot s0 \<and> fst (snd s0) < 32"
    unfolding s0_def by (rule x86_loop_ok)
  then have "x86_ok data ?tot s1 \<and> fst (snd s1) < 16"
    unfolding s1_def by (intro x86_16_ok) simp_all
  then have "x86_ok data ?tot s2 \<and> fst (snd s2) < 8"
    unfolding s2_def by (intro x86_tail_ok) (simp_all add: ld_value)
  then have "x86_ok data ?tot s3 \<and> fst (snd s3) < 4"
    unfolding s3_def by (intro x86_tail_ok) (simp_all add: ld_value)
  then have "x86_ok data ?tot s4 \<and> fst (snd s4) < 2"
    unfolding s4_def by (intro x86_tail_ok) (simp_all add: ld_value)
  then have "x86_ok data ?tot s5 \<and> fst (snd s5) < 1"
    unfolding s5_def by (intro x86_tail_ok) (simp_all add: ld_value)
  then have "ones_sum (unat (snd (snd s5))) = ?tot"
    by (intro sums_to_0 [of data _ "fst s5"]) auto
  then have "swap_bytes16 (NOT (NOT (swap_bytes16 (x86_fold (snd (snd s5)))))) = rfc1071 (take len data) init"
    by (intro swap_not_rfc1071) (simp only: unat_x86_fold)
  then have "x86_fold (snd (snd s5)) = rfc1071 (take len data) init" by simp
  then show ?thesis
    using assms by (simp add: checksum_x86_64_def Let_def defs split_def)
qed

lemma checksum_aarch64_correct:
  assumes "len \<le> length data"
  shows "checksum_aarch64 data len init = Inr (rfc1071 (take len data) init)"
proof -
  let ?tot = "ones_sum (unat (swap_bytes16 init) + le_sum (take len data))"
  let ?acc = "ucast (swap_bytes16 init) :: u64"
  define q where "q = (if len - len mod 32 = 0 then (0, ?acc) else arm_loop data 0 (len - len mod 32) ?acc)"
  define s1 where "s1 = arm_16 data len (fst q, snd q, False)"
  define s2 where "s2 = arm_tail ld64 3 data len s1"
  define s3 where "s3 = arm_tail ld32 2 data len s2"
  define s4 where "s4 = arm_tail ld16 1 data len s3"
  define s5 where "s5 = arm_tail ld8 0 data len s4"
  note defs = q_def s1_def s2_def s3_def s4_def s5_def
  have "unat ?acc = unat (swap_bytes16 init)"
    by (rule unat_ucast_up) simp
  then have start: "sums_to data ?tot 0 len (unat ?acc)"
    using assms by (simp add: sums_to_def)
  have "sums_to data ?tot (fst q) (len mod 32) (unat (snd q))"
  proof (cases "len - len mod 32 = 0")
    case True
    then have "len mod 32 = len" using mod_less_eq_dividend [of len 32] by linarith
    with True start show ?thesis by (simp add: q_def)
  next
    case False
    then show ?thesis
      using arm_loop_ok [OF start refl, of "fst q" "snd q"] by (simp add: q_def)
  qed
  then have "arm_ok data ?tot (len mod 32) (fst q, snd q, False)" by simp
  then have "arm_ok data ?tot (len mod 16) s1"
    unfolding s1_def by (rule arm_16_ok)
  then have "arm_ok data ?tot (len mod 2 ^ 3) s2"
    unfolding s2_def by (intro arm_tail_ok) (simp_all add: ld_value)
  then have "arm_ok data ?tot (len mod 2 ^ 2) s3"
    unfolding s3_def by (intro arm_tail_ok) (simp_all add: ld_value)
  then have "arm_ok data ?tot (len mod 2 ^ 1) s4"
    unfolding s4_def by (intro arm_tail_ok) (simp_all add: ld_value)
  then have s5: "arm_ok data ?tot (len mod 2 ^ 0) s5"
    unfolding s5_def by (intro arm_tail_ok) (simp_all add: ld_value)
  then have "ones_sum (unat (fst (snd s5)) + of_bool (snd (snd s5))) = ?tot"
    by (intro sums_to_0 [of data _ "fst s5"]) simp
  then have "swap_bytes16 (NOT (NOT (swap_bytes16 (arm_fold (fst (snd s5)) (snd (snd s5))))))
      = rfc1071 (take len data) init"
    using s5 by (intro swap_not_rfc1071) (simp only: unat_arm_fold)
  then have "arm_fold (fst (snd s5)) (snd (snd s5)) = rfc1071 (take len data) init" by simp
  then show ?thesis
    using assms by (simp add: checksum_aarch64_def Let_def defs split_def)
qed

lemma checksum_rust_correct:
  assumes "len \<le> length data" and "len < 2 ^ 48"
  shows "checksum_rust data len = Inr (rfc1071 (take len data) 0)"
proof -
  obtain i' csum' where loop: "rust_loop data len len 0 = (i', csum')" by fastforce
  define csum where "csum = (if i' = 1 then csum' + ucast (data ! (len - 1)) else csum')"
  have lt: "le_sum (take len data) < 2 ^ 64"
    using le_sum_bound [of "take len data"] assms by simp
  then have inv: "i' \<le> 1" "i' \<le> len"
      "unat csum' + le_sum (take i' (drop (len - i') data)) = le_sum (take len data)"
    using rust_loop_ok [OF _ assms(1) loop] by simp_all
  have "unat csum = le_sum (take len data)"
  proof (cases "i' = 1")
    case True
    have "take 1 (drop (len - 1) data) = [data ! (len - 1)]"
      using True inv(2) assms(1) by (simp add: take_Suc_conv_app_nth hd_drop_conv_nth take_Suc)
    then have "unat csum' + unat (data ! (len - 1)) = le_sum (take len data)"
      using inv(3) True by simp
    moreover have "unat (ucast (data ! (len - 1)) :: u64) = unat (data ! (len - 1))"
      by (rule unat_ucast_up) simp
    ultimately show ?thesis
      using True lt by (simp add: csum_def unat_word_ariths)
  next
    case False
    with inv(1) have "i' = 0" by simp
    then show ?thesis using inv(3) by (simp add: csum_def)
  qed
  then have f: "unat (rust_fold csum) = ones_sum (unat (swap_bytes16 0) + le_sum (take len data))"
    by (simp add: unat_rust_fold unat_swap_bytes16)
  then have u: "unat (ucast (rust_fold csum) :: u16)
      = ones_sum (unat (swap_bytes16 0) + le_sum (take len data))"
    by (simp add: unat_ucast_mod)
  have "ucast (NOT (rust_fold csum)) AND 0xffff = NOT (ucast (rust_fold csum) :: u16)"
  proof -
    have "(0xffff :: u16) = - 1" by simp
    moreover have "ucast (NOT (rust_fold csum)) = NOT (ucast (rust_fold csum) :: u16)"
      by (rule bit_word_eqI) (simp add: bit_not_iff bit_ucast_iff)
    ultimately show ?thesis by (simp only: and_minus_numerals(1) and.right_neutral)
  qed
  then have "ntohs (ucast (NOT (rust_fold csum)) AND 0xffff) = rfc1071 (take len data) 0"
    using swap_not_rfc1071 [OF u] by (simp add: ntohs_def)
  then show ?thesis
    using assms(1) loop by (simp add: checksum_rust_def Let_def csum_def)
qed

lemma ipsum_correct: "len \<le> length data \<Longrightarrow> ipsum data len init = Inr (rfc1071 (take len data) init)"
  by (simp add: ipsum_def checksum_x86_64_correct)

lemma ipsum_out_of_bounds: "length data < len \<Longrightarrow> ipsum data len init = Inl Out_of_bounds_read"
  by (simp add: ipsum_def checksum_x86_64_def)

section \<open>Verifying and chaining\<close>

text \<open>The value \<open>0xffff\<close> is the sum of any data that sums to a multiple of 65535 but 0.\<close>

lemma of_nat_ones_sum_eq_max: "(of_nat (ones_sum n) :: u16) = - 1 \<longleftrightarrow> ones_sum n = 65535"
proof -
  have "(of_nat (ones_sum n) :: u16) = - 1 \<longleftrightarrow> unat (of_nat (ones_sum n) :: u16) = unat (- 1 :: u16)"
    by (simp add: word_unat_eq_iff)
  moreover have "unat (- 1 :: u16) = 65535"
    by (simp add: unsigned_minus_1_eq_mask mask_eq_exp_minus_1)
  ultimately show ?thesis by (simp add: unat_of_nat_small)
qed

lemma rfc1071_eq_0: "rfc1071 bs v = 0 \<longleftrightarrow> ones_sum (unat v + be_sum bs) = 65535"
proof -
  have "rfc1071 bs v = 0 \<longleftrightarrow> (of_nat (ones_sum (unat v + be_sum bs)) :: u16) = - 1"
    unfolding rfc1071_def by (metis bit.double_compl bit.compl_zero)
  then show ?thesis by (simp only: of_nat_ones_sum_eq_max)
qed

lemma unat_rfc1071: "unat (rfc1071 bs v) = 65535 - ones_sum (unat v + be_sum bs)"
  by (simp add: rfc1071_def unat_not_eq unat_of_nat_small)

lemma ones_sum_max_iff: "ones_sum n = 65535 \<longleftrightarrow> 0 < n \<and> n mod 65535 = 0"
  using ones_sum_cong_iff [of n 65535] by (auto simp: ones_sum_small)

lemma rfc1071_verify:
  "rfc1071 bs v = 0 \<longleftrightarrow> v = rfc1071 bs 0 \<or> (rfc1071 bs 0 = 0 \<and> v = 0xffff)"
proof -
  let ?s = "ones_sum (be_sum bs)"
  have v: "unat v \<le> 65535" and s: "?s \<le> 65535"
    using unat_u16_lt [of v] ones_sum_le [of "be_sum bs"] by linarith+
  have "ones_sum (unat v + be_sum bs) = ones_sum (unat v + ?s)"
    using ones_sum_absorb [of "be_sum bs" "unat v"] by (simp add: add.commute)
  then have "rfc1071 bs v = 0 \<longleftrightarrow> 0 < unat v + ?s \<and> (unat v + ?s) mod 65535 = 0"
    by (simp only: rfc1071_eq_0 ones_sum_max_iff)
  also have "\<dots> \<longleftrightarrow> unat v + ?s = 65535 \<or> unat v + ?s = 131070"
    using v s by (auto simp: mod_if)
  also have "\<dots> \<longleftrightarrow> unat v = 65535 - ?s \<or> (?s = 65535 \<and> unat v = 65535)"
    using v s by auto
  also have "\<dots> \<longleftrightarrow> unat v = unat (rfc1071 bs 0) \<or> (unat (rfc1071 bs 0) = 0 \<and> unat v = unat (0xffff :: u16))"
    using s by (auto simp: unat_rfc1071)
  finally show ?thesis
    by (simp only: word_unat_eq_iff [symmetric] unat_0_iff)
qed

lemma rfc1071_chain:
  "even (length xs) \<Longrightarrow> rfc1071 ys (NOT (rfc1071 xs v)) = rfc1071 (xs @ ys) v"
  by (simp add: rfc1071_def be_sum_append unat_of_nat_small ones_sum_absorb add.assoc)

text \<open>Adding a checksum to the data it was computed from gives the sum that verifies.\<close>

lemma rfc1071_completes: "ones_sum (unat v + be_sum bs + unat (rfc1071 bs v)) = 65535"
proof -
  let ?n = "unat v + be_sum bs"
  have "ones_sum (?n + unat (rfc1071 bs v)) = ones_sum (ones_sum ?n + (65535 - ones_sum ?n))"
    by (simp only: ones_sum_absorb unat_rfc1071)
  also have "\<dots> = 65535"
    using ones_sum_le [of ?n] by (simp add: ones_sum_small)
  finally show ?thesis .
qed

section \<open>Properties\<close>

text \<open>
  C10. The optimised routine computes the Internet checksum: for every byte slice, every
  length within it and every initial value, \<^verbatim>\<open>ipsum\<close> returns the complement of the ones'-complement
  sum of the initial value and the big-endian 16-bit words of the data (an odd last byte is padded
  with zero).
\<close>

theorem ipsum_is_rfc1071:
  "len \<le> length data \<Longrightarrow>
   ipsum data len init = Inr (NOT (of_nat (ones_sum (unat init + be_sum (take len data)))))"
  by (simp add: ipsum_correct rfc1071_def)

theorem ipsum_is_rfc1071_witness:
  "3 \<le> length [0x45, 0x00, 0x01, 0xff :: u8] \<and> ipsum [0x45, 0x00, 0x01, 0xff] 3 0 = Inr 0xb9ff"
  using ipsum_is_rfc1071 [of 3 "[0x45, 0x00, 0x01, 0xff]" 0] by (simp add: ones_sum_def)

text \<open>
  C28. The two \<^verbatim>\<open>asm!\<close> bodies agree: on every slice, length and initial value the aarch64 and
  the x86_64 routine return the same result.
\<close>

theorem checksum_targets_agree: "checksum_aarch64 data len init = checksum_x86_64 data len init"
proof (cases "len \<le> length data")
  case True
  then show ?thesis by (simp add: checksum_aarch64_correct checksum_x86_64_correct)
next
  case False
  then show ?thesis by (simp add: checksum_aarch64_def checksum_x86_64_def)
qed

text \<open>
  C27. The optimised routine equals the reference implementation that its tests compare it
  with, for every slice and every length below \<open>2 ^ 48\<close> (beyond that the reference could overflow its
  64-bit accumulator).
\<close>

theorem ipsum_matches_reference:
  assumes "len < 2 ^ 48"
  shows "ipsum data len 0 = checksum_rust data len"
proof (cases "len \<le> length data")
  case True
  then show ?thesis using assms by (simp add: ipsum_correct checksum_rust_correct)
next
  case False
  then show ?thesis by (simp add: ipsum_out_of_bounds checksum_rust_def)
qed

theorem ipsum_matches_reference_witness:
  "(5 :: nat) < 2 ^ 48 \<and>
   ipsum [0xff, 0xff, 0xff, 0xff, 0xff] 5 0 = checksum_rust [0xff, 0xff, 0xff, 0xff, 0xff] 5"
  using ipsum_matches_reference [of 5 "[0xff, 0xff, 0xff, 0xff, 0xff]"] by simp

text \<open>
  Verification: called with a claimed checksum as initial value, \<^verbatim>\<open>ipsum\<close> returns 0
  exactly when the claim is the checksum of the data, up to the two representations of zero: a
  block whose checksum is 0 also accepts \<open>0xffff\<close>.
\<close>

theorem ipsum_verifies:
  assumes "len \<le> length data"
  shows "ipsum data len v = Inr 0 \<longleftrightarrow>
    ipsum data len 0 = Inr v \<or> (ipsum data len 0 = Inr 0 \<and> v = 0xffff)"
  using rfc1071_verify [of "take len data" v] by (auto simp: ipsum_correct [OF assms])

theorem ipsum_verifies_witness:
  "2 \<le> length [0x12, 0x34 :: u8] \<and>
   (ipsum [0x12, 0x34] 2 0xedcb = Inr 0 \<longleftrightarrow>
     ipsum [0x12, 0x34] 2 0 = Inr 0xedcb \<or> (ipsum [0x12, 0x34] 2 0 = Inr 0 \<and> (0xedcb :: u16) = 0xffff))"
  using ipsum_verifies [of 2 "[0x12, 0x34]" "0xedcb"] by simp

text \<open>
  Chaining: summing a block of even length and passing the complement of the result as
  the initial value for a second block gives the checksum of both blocks together.
\<close>

theorem ipsum_chains:
  assumes "len1 \<le> length data1" and "len2 \<le> length data2" and "even len1"
  shows "bindR (ipsum data1 len1 v) (\<lambda>sum1. ipsum data2 len2 (NOT sum1)) =
    ipsum (take len1 data1 @ take len2 data2) (len1 + len2) v"
  using assms by (simp add: ipsum_correct rfc1071_chain)

theorem ipsum_chains_witness:
  "bindR (ipsum [1, 2] 2 0) (\<lambda>sum1. ipsum [3] 1 (NOT sum1)) = ipsum [1, 2, 3] 3 0"
  using ipsum_chains [of 2 "[1, 2]" 1 "[3]" 0] by simp

end
