(* ===== verification/Checksummed.thy ===== *)
theory Checksummed
  imports Header Checksum
begin

text \<open>
  The contract that the IPv4, TCP and UDP headers share: a header with a 16-bit checksum field in
  network byte order, at an even offset. Proved once from it: what the \<^verbatim>\<open>checksum_compute\<close> methods
  return, and that the result verifies.
\<close>

lemma be_sum_wr16_htons: "be_sum (wr16 (htons s) @ bs) = unat s + be_sum bs"
proof -
  have "unat s div 256 < 256"
    using less_mult_imp_div_less [of "unat s" 256 256] unat_u16_lt [of s] by simp
  then have "be_sum (wr16 (htons s) @ bs) = 256 * (unat s div 256) + unat s mod 256 + be_sum bs"
    by (simp add: wr16_htons unat_ucast_mod unat_drop_bit_div)
  then show ?thesis by simp
qed

lemma be_sum_wr16_htons_end: "be_sum (wr16 (htons s)) = unat s"
  using be_sum_wr16_htons [of s "[]"] by simp

lemma wr16_0_htons: "wr16 0 = wr16 (htons 0)"
  by (simp add: htons_def swap_bytes16_def)

locale checksummed =
  fixes sz :: nat
    and to_bytes :: "'t \<Rightarrow> u8 list"
    and set_checksum :: "u16 \<Rightarrow> 't \<Rightarrow> 't"
  assumes length_bytes: "length (to_bytes h) = sz"
    and even_sz: "even sz"
    and set_set: "set_checksum a (set_checksum b h) = set_checksum a h"
    and be_sum_set:
      "be_sum (to_bytes (set_checksum (htons c) h)) = unat c + be_sum (to_bytes (set_checksum 0 h))"
begin

lemma compute_eq:
  assumes "len \<le> length payload"
  shows "bindR (ipsum (to_bytes (set_checksum 0 h)) sz init)
           (\<lambda>hsum. bindR (ipsum payload len (NOT hsum))
             (\<lambda>s. Inr (set_checksum (htons s) (set_checksum 0 h)))) =
         Inr (set_checksum (htons (rfc1071 (to_bytes (set_checksum 0 h) @ take len payload) init)) h)"
  using assms by (simp add: ipsum_correct length_bytes even_sz rfc1071_chain set_set)

lemma compute_panics:
  assumes "length payload < len"
  shows "bindR (ipsum (to_bytes (set_checksum 0 h)) sz init)
           (\<lambda>hsum. bindR (ipsum payload len (NOT hsum))
             (\<lambda>s. Inr (set_checksum (htons s) (set_checksum 0 h)))) = Inl Out_of_bounds_read"
  using assms by (simp add: ipsum_correct ipsum_out_of_bounds length_bytes)

lemma verifies:
  "rfc1071 (to_bytes (set_checksum (htons (rfc1071 (to_bytes (set_checksum 0 h) @ d) init)) h) @ d) init = 0"
  using rfc1071_completes [of init "to_bytes (set_checksum 0 h) @ d"]
  by (simp add: rfc1071_eq_0 be_sum_append length_bytes even_sz be_sum_set ac_simps)

end

text \<open>
  A transport header in a packet: the header is followed by its payload, and the checksum also
  covers a pseudo header.
\<close>

locale transport = packed_struct sz "\<lambda>_. True" to_bytes of_bytes + checksummed sz to_bytes set_checksum
  for sz :: nat and to_bytes :: "'t \<Rightarrow> u8 list" and of_bytes :: "u8 list \<Rightarrow> 't"
    and set_checksum :: "u16 \<Rightarrow> 't \<Rightarrow> 't"
begin

lemma segment_put:
  assumes "ofs + sz \<le> len" and "len \<le> length m"
  shows "take (len - ofs) (drop ofs (put m ofs h)) = to_bytes h @ take (len - (ofs + sz)) (drop (ofs + sz) m)"
  using assms by (simp add: header_put_def length_bytes take_append)

lemma filled_verifies:
  assumes "ofs + sz \<le> len" and "len \<le> length m" and "even (length ph)"
  shows "rfc1071 (ph @ take (len - ofs) (drop ofs (put m ofs (set_checksum (htons
      (rfc1071 (to_bytes (set_checksum 0 h) @ take (len - (ofs + sz)) (drop (ofs + sz) m)) (NOT (rfc1071 ph 0)))) h)))) 0 = 0"
  unfolding segment_put [OF assms(1,2)] rfc1071_chain [OF assms(3), symmetric] by (rule verifies)

end

end
