(* ===== verification/Ipv4.thy ===== *)
theory Ipv4
  imports Checksummed
begin

text \<open>
  \<^verbatim>\<open>rush/src/ipv4.rs\<close>: the IPv4 header. The fields whose names end in \<open>_raw\<close> are those that the struct
  stores in network byte order; the accessors convert. Addresses are kept in network byte order
  throughout, as in the source.
\<close>

type_synonym address = u32

section \<open>Addresses as strings\<close>

text \<open>
  \<^verbatim>\<open>std::net::Ipv4Addr\<close>: the four bytes of an address, most significant first, in decimal. A number that is read has one
  to three digits, no leading zero, and is at most 255; nothing may follow the address.
\<close>

definition octet :: "nat \<Rightarrow> u32 \<Rightarrow> nat" where
  "octet i a = unat (drop_bit (8 * i) a) mod 256"

definition ip_ntop :: "address \<Rightarrow> string" where
  "ip_ntop a =
     (let l = ntohl a in
      dec_string (octet 3 l) @ ''.'' @ dec_string (octet 2 l) @ ''.'' @ dec_string (octet 1 l) @ ''.'' @ dec_string (octet 0 l))"

definition read_octet :: "string \<Rightarrow> (nat \<times> string) option" where
  "read_octet s =
     (let ds = takeWhile digit s in
      if ds = [] \<or> 3 < length ds \<or> 1 < length ds \<and> hd ds = CHR ''0'' \<or> 255 < dec_value ds then None
      else Some (dec_value ds, dropWhile digit s))"

definition read_dot :: "string \<Rightarrow> string option" where
  "read_dot s = (case s of c # r \<Rightarrow> if c = CHR ''.'' then Some r else None | [] \<Rightarrow> None)"

definition read_ipv4 :: "string \<Rightarrow> u32 option" where
  "read_ipv4 s =
     Option.bind (read_octet s) (\<lambda>(a, s). Option.bind (read_dot s) (\<lambda>s.
     Option.bind (read_octet s) (\<lambda>(b, s). Option.bind (read_dot s) (\<lambda>s.
     Option.bind (read_octet s) (\<lambda>(c, s). Option.bind (read_dot s) (\<lambda>s.
     Option.bind (read_octet s) (\<lambda>(d, s).
     if s = [] then Some (of_nat (((a * 256 + b) * 256 + c) * 256 + d)) else None)))))))"

definition ip_pton :: "string \<Rightarrow> address res" where
  "ip_pton s = (case read_ipv4 s of Some l \<Rightarrow> Inr (htonl l) | None \<Rightarrow> Inl Unwrap_err)"

section \<open>Data\<close>

record ipv4 =
  ihl_v_tos_raw :: u16
  ip_total_length_raw :: u16
  ip_id_raw :: u16
  frag_off_raw :: u16
  ip_ttl :: u8
  ip_protocol :: u8
  ip_checksum :: u16
  ip_src :: address
  ip_dst :: address

definition ipv4_size :: nat where "ipv4_size = 20"

definition ipv4_bytes :: "ipv4 \<Rightarrow> u8 list" where
  "ipv4_bytes h =
     wr16 (ihl_v_tos_raw h) @ wr16 (ip_total_length_raw h) @ wr16 (ip_id_raw h) @
     wr16 (frag_off_raw h) @ [ip_ttl h] @ [ip_protocol h] @ wr16 (ip_checksum h) @
     wr32 (ip_src h) @ wr32 (ip_dst h)"

definition ipv4_of_bytes :: "u8 list \<Rightarrow> ipv4" where
  "ipv4_of_bytes bs =
     \<lparr>ihl_v_tos_raw = rd16 bs 0, ip_total_length_raw = rd16 bs 2, ip_id_raw = rd16 bs 4,
      frag_off_raw = rd16 bs 6, ip_ttl = bs ! 8, ip_protocol = bs ! 9, ip_checksum = rd16 bs 10,
      ip_src = rd32 bs 12, ip_dst = rd32 bs 16\<rparr>"

definition PROTOCOL_TCP :: u8 where "PROTOCOL_TCP = 6"
definition PROTOCOL_UDP :: u8 where "PROTOCOL_UDP = 17"

section \<open>Accessors\<close>

definition version :: "ipv4 \<Rightarrow> u16" where
  "version h = drop_bit 12 (ntohs (ihl_v_tos_raw h)) AND 0xf"

definition set_version :: "u16 \<Rightarrow> ipv4 \<Rightarrow> ipv4" where
  "set_version v h =
     h\<lparr>ihl_v_tos_raw := (ihl_v_tos_raw h AND htons 0x0fff) OR htons (push_bit 12 (v AND 0xf))\<rparr>"

definition ihl :: "ipv4 \<Rightarrow> u16" where
  "ihl h = drop_bit 8 (ntohs (ihl_v_tos_raw h)) AND 0xf"

definition set_ihl :: "u16 \<Rightarrow> ipv4 \<Rightarrow> ipv4" where
  "set_ihl v h =
     h\<lparr>ihl_v_tos_raw := (ihl_v_tos_raw h AND htons 0xf0ff) OR htons (push_bit 8 (v AND 0xf))\<rparr>"

definition total_length :: "ipv4 \<Rightarrow> u16" where
  "total_length h = ntohs (ip_total_length_raw h)"

definition set_total_length :: "u16 \<Rightarrow> ipv4 \<Rightarrow> ipv4" where
  "set_total_length v h = h\<lparr>ip_total_length_raw := htons v\<rparr>"

definition ip_id :: "ipv4 \<Rightarrow> u16" where
  "ip_id h = ntohs (ip_id_raw h)"

definition set_id :: "u16 \<Rightarrow> ipv4 \<Rightarrow> ipv4" where
  "set_id v h = h\<lparr>ip_id_raw := htons v\<rparr>"

definition flags :: "ipv4 \<Rightarrow> u16" where
  "flags h = drop_bit 13 (ntohs (frag_off_raw h)) AND 0x7"

definition set_flags :: "u16 \<Rightarrow> ipv4 \<Rightarrow> ipv4" where
  "set_flags v h =
     h\<lparr>frag_off_raw := (frag_off_raw h AND htons 0x1fff) OR htons (push_bit 13 (v AND 0x7))\<rparr>"

definition set_ttl :: "u8 \<Rightarrow> ipv4 \<Rightarrow> ipv4" where
  "set_ttl v h = h\<lparr>ip_ttl := v\<rparr>"

definition set_protocol :: "u8 \<Rightarrow> ipv4 \<Rightarrow> ipv4" where
  "set_protocol v h = h\<lparr>ip_protocol := v\<rparr>"

definition ip_set_checksum :: "u16 \<Rightarrow> ipv4 \<Rightarrow> ipv4" where
  "ip_set_checksum v h = h\<lparr>ip_checksum := v\<rparr>"

definition ip_set_src :: "address \<Rightarrow> ipv4 \<Rightarrow> ipv4" where
  "ip_set_src a h = h\<lparr>ip_src := a\<rparr>"

definition ip_set_dst :: "address \<Rightarrow> ipv4 \<Rightarrow> ipv4" where
  "ip_set_dst a h = h\<lparr>ip_dst := a\<rparr>"

definition ip_swap :: "ipv4 \<Rightarrow> ipv4" where
  "ip_swap h = (let src = ip_src h; h = h\<lparr>ip_src := ip_dst h\<rparr> in h\<lparr>ip_dst := src\<rparr>)"

definition ip_checksum_compute :: "ipv4 \<Rightarrow> ipv4 res" where
  "ip_checksum_compute h =
     (let h = ip_set_checksum 0 h in
      bindR (ipsum (ipv4_bytes h) ipv4_size 0) (\<lambda>s. Inr (ip_set_checksum (htons s) h)))"

definition checksum_ok :: "ipv4 \<Rightarrow> bool res" where
  "checksum_ok h = bindR (ipsum (ipv4_bytes h) ipv4_size 0) (\<lambda>s. Inr (s = 0))"

text \<open>The pseudo header: source, destination, zero, protocol and length.\<close>

definition pseudo_header :: "ipv4 \<Rightarrow> u8 \<Rightarrow> u16 \<Rightarrow> u8 list" where
  "pseudo_header h protocol len =
     wr32 (ip_src h) @ wr32 (ip_dst h) @ [0] @ [protocol] @ wr16 (htons len)"

definition pseudo_checksum :: "ipv4 \<Rightarrow> u8 \<Rightarrow> u16 \<Rightarrow> u16 res" where
  "pseudo_checksum h protocol len = ipsum (pseudo_header h protocol len) 12 0"

definition ipv4_default :: ipv4 where
  "ipv4_default =
     \<lparr>ihl_v_tos_raw = 0, ip_total_length_raw = 0, ip_id_raw = 0, frag_off_raw = 0, ip_ttl = 0,
      ip_protocol = 0, ip_checksum = 0, ip_src = 0, ip_dst = 0\<rparr>"

definition ipv4_new :: ipv4 where
  "ipv4_new =
     (let h = set_version 4 ipv4_default;
          h = set_ihl (of_nat (ipv4_size div 4)) h
      in set_total_length (of_nat ipv4_size) h)"

section \<open>Layout\<close>

lemma length_ipv4_bytes [simp]: "length (ipv4_bytes h) = ipv4_size"
  by (simp add: ipv4_bytes_def ipv4_size_def)

lemma ipv4_of_bytes_bytes: "ipv4_of_bytes (ipv4_bytes h) = h"
  by (simp add: ipv4_of_bytes_def ipv4_bytes_def rd16_def rd32_def le_nat_wr16 le_nat_wr32
      nth_append)

lemma ipv4_bytes_of_bytes:
  assumes "length bs = ipv4_size"
  shows "ipv4_bytes (ipv4_of_bytes bs) = bs"
proof -
  have "ipv4_bytes (ipv4_of_bytes bs) =
    take 2 (drop 0 bs) @ take 2 (drop 2 bs) @ take 2 (drop 4 bs) @ take 2 (drop 6 bs) @
    take 1 (drop 8 bs) @ take 1 (drop 9 bs) @ take 2 (drop 10 bs) @ take 4 (drop 12 bs) @
    take 4 (drop 16 bs)"
    using assms unfolding ipv4_bytes_def ipv4_of_bytes_def ipv4_size_def
    by (simp add: wr16_rd16 wr32_rd32 take_1_drop del: One_nat_def)
  also have "take 4 (drop 16 bs) = drop 16 bs"
    using assms by (simp add: ipv4_size_def)
  finally show ?thesis
    using take_drop_chain [of 2 0 bs] take_drop_chain [of 2 2 bs] take_drop_chain [of 2 4 bs]
      take_drop_chain [of 2 6 bs] take_drop_chain [of 1 8 bs] take_drop_chain [of 1 9 bs]
      take_drop_chain [of 2 10 bs] take_drop_chain [of 4 12 bs]
    by simp
qed

interpretation iph: packed_struct ipv4_size "\<lambda>_. True" ipv4_bytes ipv4_of_bytes
  by unfold_locales (simp_all add: ipv4_of_bytes_bytes ipv4_bytes_of_bytes)

section \<open>Bit fields\<close>

lemma raw_updates:
  "ihl_v_tos_raw (h\<lparr>ihl_v_tos_raw := x\<rparr>) = x" "frag_off_raw (h\<lparr>frag_off_raw := x\<rparr>) = x"
  by simp_all

lemma version_set_version: "version (set_version v h) = v AND 0xf"
  unfolding version_def set_version_def raw_updates ntohs_set_field mask_consts
  by (rule field_get_set) simp

lemma ihl_set_version: "ihl (set_version v h) = ihl h"
  unfolding ihl_def set_version_def raw_updates ntohs_set_field mask_consts
  by (rule field_get_other) simp

lemma ihl_set_ihl: "ihl (set_ihl v h) = v AND 0xf"
  unfolding ihl_def set_ihl_def raw_updates ntohs_set_field mask_consts
  by (rule field_get_set) simp

lemma version_set_ihl: "version (set_ihl v h) = version h"
  unfolding version_def set_ihl_def raw_updates ntohs_set_field mask_consts
  by (rule field_get_other) simp

lemma flags_set_flags: "flags (set_flags v h) = v AND 0x7"
  unfolding flags_def set_flags_def raw_updates ntohs_set_field mask_consts
  by (rule field_get_set) simp

lemma total_length_set [simp]: "total_length (set_total_length v h) = v"
  by (simp add: total_length_def set_total_length_def)

lemma ip_id_set [simp]: "ip_id (set_id v h) = v"
  by (simp add: ip_id_def set_id_def)

section \<open>Checksums\<close>

interpretation ipc: checksummed ipv4_size ipv4_bytes ip_set_checksum
  by unfold_locales
    (simp_all add: ipv4_size_def, simp_all add: ip_set_checksum_def ipv4_bytes_def be_sum_append
      be_sum_wr16_htons wr16_0_htons)

lemma ip_checksum_compute_eq:
  "ip_checksum_compute h =
     Inr (ip_set_checksum (htons (rfc1071 (ipv4_bytes (ip_set_checksum 0 h)) 0)) h)"
  by (simp add: ip_checksum_compute_def ipsum_correct Let_def) (simp add: ip_set_checksum_def)

lemma checksum_ok_eq: "checksum_ok h = Inr (rfc1071 (ipv4_bytes h) 0 = 0)"
  by (simp add: checksum_ok_def ipsum_correct)

lemma length_pseudo_header [simp]: "length (pseudo_header h protocol len) = 12"
  by (simp add: pseudo_header_def)

lemma pseudo_checksum_eq:
  "pseudo_checksum h protocol len = Inr (rfc1071 (pseudo_header h protocol len) 0)"
  by (simp add: pseudo_checksum_def ipsum_correct)

text \<open>The pseudo header does not depend on the fields that the segmentation changes.\<close>

lemma pseudo_header_cong [simp]:
  "pseudo_header (set_total_length v h) = pseudo_header h"
  "pseudo_header (ip_set_checksum c h) = pseudo_header h"
  by (simp_all add: fun_eq_iff pseudo_header_def set_total_length_def ip_set_checksum_def)

section \<open>Properties\<close>

text \<open>
  C29. \<^verbatim>\<open>checksum_compute\<close> makes \<^verbatim>\<open>checksum_ok\<close> true of every IPv4 header, and changes no other field
  of it.
\<close>

theorem ipv4_checksum_verifies:
  "\<exists>h'. ip_checksum_compute h = Inr h' \<and> checksum_ok h' = Inr True \<and>
        ip_set_checksum 0 h' = ip_set_checksum 0 h"
  using ipc.verifies [of h "[]" 0]
  by (simp add: ip_checksum_compute_eq checksum_ok_eq ipc.set_set)

text \<open>
  The setters of the packed header fields keep each other's values: version, header length and
  flags read back what was written (to their 4 or 3 bits), whatever the other bits of the shared
  16-bit word are, and \<^verbatim>\<open>IPv4::new\<close> makes a 20-byte version-4 header.
\<close>

theorem ipv4_fields:
  "version (set_version v h) = v AND 0xf \<and> ihl (set_version v h) = ihl h \<and>
   ihl (set_ihl v h) = v AND 0xf \<and> version (set_ihl v h) = version h \<and>
   flags (set_flags v h) = v AND 0x7 \<and>
   version ipv4_new = 4 \<and> ihl ipv4_new = 5 \<and> total_length ipv4_new = 20"
proof -
  have "version (set_total_length l g) = version g" "ihl (set_total_length l g) = ihl g" for l g
    by (simp_all add: version_def ihl_def set_total_length_def)
  then show ?thesis
    by (simp add: version_set_version ihl_set_version ihl_set_ihl version_set_ihl flags_set_flags
        ipv4_new_def Let_def) (simp add: ipv4_size_def)
qed


section \<open>Reading and printing addresses\<close>

lemma dec_string_length: "n < 10 ^ Suc k \<Longrightarrow> length (dec_string n) \<le> Suc k"
proof (induction k arbitrary: n)
  case 0
  then show ?case by (subst dec_string.simps) simp
next
  case (Suc k)
  have "n div 10 < 10 ^ Suc k" using Suc.prems by simp
  with Suc.IH show ?case by (subst dec_string.simps) auto
qed

lemma dec_string_hd: "0 < n \<Longrightarrow> hd (dec_string n) \<noteq> CHR ''0''"
proof (induction n rule: dec_string.induct)
  case (1 n)
  show ?case
  proof (cases "n < 10")
    case True
    have "of_char (digit_char n) \<noteq> (of_char (CHR ''0'') :: nat)" using 1(2) True by (simp add: of_char_digit_char)
    then have "digit_char n \<noteq> CHR ''0''" by metis
    with True show ?thesis by (subst dec_string.simps) simp
  next
    case False
    with 1 show ?thesis by (subst dec_string.simps) (simp add: dec_string_nonempty)
  qed
qed

lemma read_octet_dec:
  assumes "n < 256" and "\<And>c r. rest = c # r \<Longrightarrow> \<not> digit c"
  shows "read_octet (dec_string n @ rest) = Some (n, rest)"
proof -
  have w: "takeWhile digit (dec_string n @ rest) = dec_string n" "dropWhile digit (dec_string n @ rest) = rest"
    using dec_string_digits [of n] assms(2) by (cases rest; simp)+
  have "length (dec_string n) \<le> 3" using dec_string_length [of n 2] assms(1) by simp
  moreover have "\<not> (1 < length (dec_string n) \<and> hd (dec_string n) = CHR ''0'')"
    using dec_string_hd [of n] by (cases "n = 0") (auto simp: dec_string.simps)
  ultimately show ?thesis
    using assms(1) by (simp add: read_octet_def w dec_value_dec_string dec_string_nonempty Let_def)
qed

lemma octets_value: "((octet 3 l * 256 + octet 2 l) * 256 + octet 1 l) * 256 + octet 0 l = unat l"
proof -
  let ?x = "unat l"
  have "?x div 16777216 < 256" using less_mult_imp_div_less [of ?x 256 16777216] unat_u32_lt [of l] by simp
  then have "octet 3 l = ?x div 256 div 256 div 256" "octet 2 l = ?x div 256 div 256 mod 256" "octet 1 l = ?x div 256 mod 256"
    "octet 0 l = ?x mod 256"
    by (simp_all add: octet_def unat_drop_bit_div div_mult2_eq [symmetric])
  then show ?thesis by simp
qed

lemma ip_address_roundtrip: "ip_pton (ip_ntop a) = Inr a"
proof -
  have n: "octet i l < 256" for i l by (simp add: octet_def)
  have dot: "\<not> digit (CHR ''.'')" by (simp add: digit_def)
  have last: "read_octet (dec_string (octet 0 l)) = Some (octet 0 l, [])" for l
    using read_octet_dec [OF n, of "[]"] by simp
  have step: "read_octet (dec_string (octet i l) @ CHR ''.'' # r) = Some (octet i l, CHR ''.'' # r)" for i l r
    by (rule read_octet_dec [OF n]) (simp add: dot)
  have sum: "16777216 * octet 3 l + 65536 * octet 2 l + octet (Suc 0) l * 256 + octet 0 l = unat l" for l
    using octets_value [of l] by simp
  show ?thesis
    by (simp add: ip_pton_def ip_ntop_def read_ipv4_def Let_def step read_dot_def last sum
        del: of_nat_add of_nat_mult of_nat_numeral)
qed

end
