(* ===== verification/Tcp.thy ===== *)
theory Tcp
  imports Checksummed
begin

text \<open>
  \<^verbatim>\<open>rush/src/tcp.rs\<close>: the TCP header. As for UDP, \<open>init\<close> is the complemented checksum of the pseudo
  header.
\<close>

record tcp =
  tcp_src_port_raw :: u16
  tcp_dst_port_raw :: u16
  tcp_seq_raw :: u32
  tcp_ack_raw :: u32
  off_flags_raw :: u16
  window_size_raw :: u16
  tcp_checksum :: u16
  urgent_pointer_raw :: u16

definition tcp_size :: nat where "tcp_size = 20"

definition tcp_bytes :: "tcp \<Rightarrow> u8 list" where
  "tcp_bytes h =
     wr16 (tcp_src_port_raw h) @ wr16 (tcp_dst_port_raw h) @ wr32 (tcp_seq_raw h) @ wr32 (tcp_ack_raw h) @
     wr16 (off_flags_raw h) @ wr16 (window_size_raw h) @ wr16 (tcp_checksum h) @
     wr16 (urgent_pointer_raw h)"

definition tcp_of_bytes :: "u8 list \<Rightarrow> tcp" where
  "tcp_of_bytes bs =
     \<lparr>tcp_src_port_raw = rd16 bs 0, tcp_dst_port_raw = rd16 bs 2, tcp_seq_raw = rd32 bs 4,
      tcp_ack_raw = rd32 bs 8, off_flags_raw = rd16 bs 12, window_size_raw = rd16 bs 14,
      tcp_checksum = rd16 bs 16, urgent_pointer_raw = rd16 bs 18\<rparr>"

definition tcp_default :: tcp where
  "tcp_default =
     \<lparr>tcp_src_port_raw = 0, tcp_dst_port_raw = 0, tcp_seq_raw = 0, tcp_ack_raw = 0, off_flags_raw = 0,
      window_size_raw = 0, tcp_checksum = 0, urgent_pointer_raw = 0\<rparr>"

definition tcp_src_port :: "tcp \<Rightarrow> u16" where "tcp_src_port h = ntohs (tcp_src_port_raw h)"

definition tcp_set_src_port :: "u16 \<Rightarrow> tcp \<Rightarrow> tcp" where
  "tcp_set_src_port port h = h\<lparr>tcp_src_port_raw := htons port\<rparr>"

definition tcp_dst_port :: "tcp \<Rightarrow> u16" where "tcp_dst_port h = ntohs (tcp_dst_port_raw h)"

definition tcp_set_dst_port :: "u16 \<Rightarrow> tcp \<Rightarrow> tcp" where
  "tcp_set_dst_port port h = h\<lparr>tcp_dst_port_raw := htons port\<rparr>"

definition seq :: "tcp \<Rightarrow> u32" where "seq h = ntohl (tcp_seq_raw h)"

definition set_seq :: "u32 \<Rightarrow> tcp \<Rightarrow> tcp" where
  "set_seq v h = h\<lparr>tcp_seq_raw := htonl v\<rparr>"

definition data_offset :: "tcp \<Rightarrow> u16" where
  "data_offset h = drop_bit 12 (ntohs (off_flags_raw h)) AND 0xf"

definition set_data_offset :: "u16 \<Rightarrow> tcp \<Rightarrow> tcp" where
  "set_data_offset v h =
     h\<lparr>off_flags_raw := (off_flags_raw h AND htons 0x0fff) OR htons (push_bit 12 (v AND 0xf))\<rparr>"

text \<open>\<^verbatim>\<open>Header<TCP>::size\<close>, in bytes, options included.\<close>

definition tcp_hdr_size :: "tcp \<Rightarrow> nat" where
  "tcp_hdr_size h = max 5 (unat (data_offset h)) * 4"

definition tcp_set_checksum :: "u16 \<Rightarrow> tcp \<Rightarrow> tcp" where
  "tcp_set_checksum v h = h\<lparr>tcp_checksum := v\<rparr>"

definition tcp_checksum_compute :: "u8 list \<Rightarrow> u16 \<Rightarrow> u16 \<Rightarrow> tcp \<Rightarrow> tcp res" where
  "tcp_checksum_compute payload len init h =
     (let h = tcp_set_checksum 0 h in
      bindR (ipsum (tcp_bytes h) tcp_size init) (\<lambda>hsum.
      bindR (ipsum payload (unat len) (NOT hsum)) (\<lambda>s.
      Inr (tcp_set_checksum (htons s) h))))"

section \<open>Layout\<close>

lemma length_tcp_bytes [simp]: "length (tcp_bytes h) = tcp_size"
  by (simp add: tcp_bytes_def tcp_size_def)

lemma tcp_of_bytes_bytes: "tcp_of_bytes (tcp_bytes h) = h"
  by (simp add: tcp_of_bytes_def tcp_bytes_def rd16_def rd32_def le_nat_wr16 le_nat_wr32)

lemma tcp_bytes_of_bytes:
  assumes "length bs = tcp_size"
  shows "tcp_bytes (tcp_of_bytes bs) = bs"
proof -
  have "tcp_bytes (tcp_of_bytes bs) =
    take 2 (drop 0 bs) @ take 2 (drop 2 bs) @ take 4 (drop 4 bs) @ take 4 (drop 8 bs) @
    take 2 (drop 12 bs) @ take 2 (drop 14 bs) @ take 2 (drop 16 bs) @ drop 18 bs"
    using assms by (simp add: tcp_bytes_def tcp_of_bytes_def tcp_size_def wr16_rd16 wr32_rd32)
  then show ?thesis
    using take_drop_chain [of 2 0 bs] take_drop_chain [of 2 2 bs] take_drop_chain [of 4 4 bs]
      take_drop_chain [of 4 8 bs] take_drop_chain [of 2 12 bs] take_drop_chain [of 2 14 bs]
      take_drop_chain [of 2 16 bs]
    by simp
qed

interpretation tcph: packed_struct tcp_size "\<lambda>_. True" tcp_bytes tcp_of_bytes
  by unfold_locales (simp_all add: tcp_of_bytes_bytes tcp_bytes_of_bytes)

section \<open>Checksum\<close>

interpretation tcpc: checksummed tcp_size tcp_bytes tcp_set_checksum
  by unfold_locales
    (simp_all add: tcp_size_def, simp_all add: tcp_set_checksum_def tcp_bytes_def be_sum_append
      be_sum_wr16_htons wr16_0_htons)

interpretation tcpt: transport tcp_size tcp_bytes tcp_of_bytes tcp_set_checksum ..

lemma tcp_checksum_compute_eq:
  "unat len \<le> length payload \<Longrightarrow> tcp_checksum_compute payload len init h =
     Inr (tcp_set_checksum (htons (rfc1071 (tcp_bytes (tcp_set_checksum 0 h) @ take (unat len) payload) init)) h)"
  unfolding tcp_checksum_compute_def Let_def by (rule tcpc.compute_eq)

lemma tcp_checksum_compute_panics:
  "length payload < unat len \<Longrightarrow> tcp_checksum_compute payload len init h = Inl Out_of_bounds_read"
  unfolding tcp_checksum_compute_def Let_def by (rule tcpc.compute_panics)

section \<open>Fields\<close>

lemma off_flags_update: "off_flags_raw (h\<lparr>off_flags_raw := x\<rparr>) = x"
  by simp

lemma data_offset_set: "data_offset (set_data_offset v h) = v AND 0xf"
  unfolding data_offset_def set_data_offset_def off_flags_update ntohs_set_field mask_consts
  by (rule field_get_set) simp

lemma seq_set [simp]: "seq (set_seq v h) = v" "seq (tcp_set_checksum c h) = seq h"
  by (simp_all add: seq_def set_seq_def tcp_set_checksum_def)

lemma data_offset_cong [simp]:
  "data_offset (set_seq v h) = data_offset h" "data_offset (tcp_set_checksum c h) = data_offset h"
  by (simp_all add: data_offset_def set_seq_def tcp_set_checksum_def)

lemma unat_data_offset_lt: "unat (data_offset h) < 16"
proof -
  have "unat (data_offset h) = unat (take_bit 4 (drop_bit 12 (ntohs (off_flags_raw h))))"
    unfolding data_offset_def mask_consts(1) by (simp only: take_bit_eq_mask)
  also have "\<dots> < 2 ^ 4"
    by (simp only: unsigned_take_bit_eq) (rule take_bit_nat_less_exp)
  finally show ?thesis by simp
qed

lemma tcp_hdr_size_bounds: "20 \<le> tcp_hdr_size h" "tcp_hdr_size h \<le> 60"
  using unat_data_offset_lt [of h] by (simp_all add: tcp_hdr_size_def max_def)

end
