(* ===== verification/Udp.thy ===== *)
theory Udp
  imports Checksummed
begin

text \<open>
  \<^verbatim>\<open>rush/src/udp.rs\<close>: the UDP header. The checksum covers a pseudo header, whose complemented
  checksum is the argument \<open>init\<close>, the UDP header and the payload.
\<close>

record udp =
  udp_src_port_raw :: u16
  udp_dst_port_raw :: u16
  udp_len_raw :: u16
  udp_checksum :: u16

definition udp_size :: nat where "udp_size = 8"

definition udp_bytes :: "udp \<Rightarrow> u8 list" where
  "udp_bytes h =
     wr16 (udp_src_port_raw h) @ wr16 (udp_dst_port_raw h) @ wr16 (udp_len_raw h) @ wr16 (udp_checksum h)"

definition udp_of_bytes :: "u8 list \<Rightarrow> udp" where
  "udp_of_bytes bs =
     \<lparr>udp_src_port_raw = rd16 bs 0, udp_dst_port_raw = rd16 bs 2, udp_len_raw = rd16 bs 4,
      udp_checksum = rd16 bs 6\<rparr>"

definition udp_default :: udp where
  "udp_default = \<lparr>udp_src_port_raw = 0, udp_dst_port_raw = 0, udp_len_raw = 0, udp_checksum = 0\<rparr>"

definition udp_src_port :: "udp \<Rightarrow> u16" where "udp_src_port h = ntohs (udp_src_port_raw h)"

definition udp_set_src_port :: "u16 \<Rightarrow> udp \<Rightarrow> udp" where
  "udp_set_src_port port h = h\<lparr>udp_src_port_raw := htons port\<rparr>"

definition udp_dst_port :: "udp \<Rightarrow> u16" where "udp_dst_port h = ntohs (udp_dst_port_raw h)"

definition udp_set_dst_port :: "u16 \<Rightarrow> udp \<Rightarrow> udp" where
  "udp_set_dst_port port h = h\<lparr>udp_dst_port_raw := htons port\<rparr>"

definition udp_len :: "udp \<Rightarrow> u16" where "udp_len h = ntohs (udp_len_raw h)"

definition udp_set_len :: "u16 \<Rightarrow> udp \<Rightarrow> udp" where
  "udp_set_len len h = h\<lparr>udp_len_raw := htons len\<rparr>"

definition udp_set_checksum :: "u16 \<Rightarrow> udp \<Rightarrow> udp" where
  "udp_set_checksum v h = h\<lparr>udp_checksum := v\<rparr>"

definition udp_checksum_compute :: "u8 list \<Rightarrow> u16 \<Rightarrow> u16 \<Rightarrow> udp \<Rightarrow> udp res" where
  "udp_checksum_compute payload len init h =
     (let h = udp_set_checksum 0 h in
      bindR (ipsum (udp_bytes h) udp_size init) (\<lambda>hsum.
      bindR (ipsum payload (unat len) (NOT hsum)) (\<lambda>s.
      Inr (udp_set_checksum (htons s) h))))"

section \<open>Layout\<close>

lemma length_udp_bytes [simp]: "length (udp_bytes h) = udp_size"
  by (simp add: udp_bytes_def udp_size_def)

lemma udp_of_bytes_bytes: "udp_of_bytes (udp_bytes h) = h"
  by (simp add: udp_of_bytes_def udp_bytes_def rd16_def le_nat_wr16)

lemma udp_bytes_of_bytes:
  assumes "length bs = udp_size"
  shows "udp_bytes (udp_of_bytes bs) = bs"
proof -
  have "udp_bytes (udp_of_bytes bs) =
    take 2 (drop 0 bs) @ take 2 (drop 2 bs) @ take 2 (drop 4 bs) @ drop 6 bs"
    using assms by (simp add: udp_bytes_def udp_of_bytes_def udp_size_def wr16_rd16)
  then show ?thesis
    using take_drop_chain [of 2 0 bs] take_drop_chain [of 2 2 bs] take_drop_chain [of 2 4 bs] by simp
qed

interpretation udph: packed_struct udp_size "\<lambda>_. True" udp_bytes udp_of_bytes
  by unfold_locales (simp_all add: udp_of_bytes_bytes udp_bytes_of_bytes)

section \<open>Checksum\<close>

interpretation udpc: checksummed udp_size udp_bytes udp_set_checksum
  by unfold_locales
    (simp_all add: udp_size_def, simp_all add: udp_set_checksum_def udp_bytes_def be_sum_append
      be_sum_wr16_htons_end wr16_0_htons)

interpretation udpt: transport udp_size udp_bytes udp_of_bytes udp_set_checksum ..

lemma udp_checksum_compute_eq:
  "unat len \<le> length payload \<Longrightarrow> udp_checksum_compute payload len init h =
     Inr (udp_set_checksum (htons (rfc1071 (udp_bytes (udp_set_checksum 0 h) @ take (unat len) payload) init)) h)"
  unfolding udp_checksum_compute_def Let_def by (rule udpc.compute_eq)

lemma udp_checksum_compute_panics:
  "length payload < unat len \<Longrightarrow> udp_checksum_compute payload len init h = Inl Out_of_bounds_read"
  unfolding udp_checksum_compute_def Let_def by (rule udpc.compute_panics)

end
