(* ===== verification/Offload.thy ===== *)
theory Offload
  imports App Ethernet Ipv4 Tcp Udp
begin

text \<open>
  \<^verbatim>\<open>rush/src/offload.rs\<close>: the app \<^verbatim>\<open>Checksum\<close>, which fills in TCP and UDP checksums that the sender left
  to the network card, and the app \<^verbatim>\<open>TSD\<close>, which splits TCP segments that are larger than the maximum
  segment size. Headers are views of the packet's memory: a write to a header changes the packet.
\<close>

section \<open>Headers of a packet\<close>

abbreviation eth_of :: "u8 list \<Rightarrow> ethernet" where
  "eth_of m \<equiv> header_ref ethernet_size ethernet_of_bytes m 0"

abbreviation ip_of :: "u8 list \<Rightarrow> ipv4" where
  "ip_of m \<equiv> header_ref ipv4_size ipv4_of_bytes m ethernet_size"

abbreviation put_ip :: "u8 list \<Rightarrow> ipv4 \<Rightarrow> u8 list" where
  "put_ip m h \<equiv> header_put ipv4_size ipv4_bytes m ethernet_size h"

definition proto_ofs :: nat where "proto_ofs = ethernet_size + ipv4_size"

abbreviation tcp_of :: "u8 list \<Rightarrow> tcp" where
  "tcp_of m \<equiv> header_ref tcp_size tcp_of_bytes m proto_ofs"

abbreviation put_tcp :: "u8 list \<Rightarrow> tcp \<Rightarrow> u8 list" where
  "put_tcp m h \<equiv> header_put tcp_size tcp_bytes m proto_ofs h"

abbreviation udp_of :: "u8 list \<Rightarrow> udp" where
  "udp_of m \<equiv> header_ref udp_size udp_of_bytes m proto_ofs"

abbreviation put_udp :: "u8 list \<Rightarrow> udp \<Rightarrow> u8 list" where
  "put_udp m h \<equiv> header_put udp_size udp_bytes m proto_ofs h"

section \<open>Checksum\<close>

text \<open>The slice expression \<^verbatim>\<open>&p.data[ofs..]\<close>.\<close>

definition slice_from :: "u8 list \<Rightarrow> nat \<Rightarrow> u8 list res" where
  "slice_from m ofs = (if length m < ofs then Inl Index_out_of_bounds else Inr (drop ofs m))"

definition fill_tcp :: "packet \<Rightarrow> ipv4 \<Rightarrow> u16 \<Rightarrow> packet res" where
  "fill_tcp p ip proto_length =
     bindR (from_mem tcp_size (p_data p) proto_ofs) (\<lambda>_.
     let tcp = tcp_of (p_data p) in
     bindR (pseudo_checksum ip PROTOCOL_TCP proto_length) (\<lambda>pseudo_csum.
     if ntohs (tcp_checksum tcp) = NOT pseudo_csum then
       let payload_ofs = proto_ofs + tcp_size;
           payload_length = p_length p - of_nat payload_ofs
       in bindR (slice_from (p_data p) payload_ofs) (\<lambda>payload.
          bindR (tcp_checksum_compute payload payload_length (NOT pseudo_csum) tcp) (\<lambda>tcp.
          Inr (p\<lparr>p_data := put_tcp (p_data p) tcp\<rparr>)))
     else Inr p))"

definition fill_udp :: "packet \<Rightarrow> ipv4 \<Rightarrow> u16 \<Rightarrow> packet res" where
  "fill_udp p ip proto_length =
     bindR (from_mem udp_size (p_data p) proto_ofs) (\<lambda>_.
     let udp = udp_of (p_data p) in
     bindR (pseudo_checksum ip PROTOCOL_UDP proto_length) (\<lambda>pseudo_csum.
     if ntohs (udp_checksum udp) = NOT pseudo_csum then
       let payload_ofs = proto_ofs + udp_size;
           payload_length = p_length p - of_nat payload_ofs
       in bindR (slice_from (p_data p) payload_ofs) (\<lambda>payload.
          bindR (udp_checksum_compute payload payload_length (NOT pseudo_csum) udp) (\<lambda>udp.
          Inr (p\<lparr>p_data := put_udp (p_data p) udp\<rparr>)))
     else Inr p))"

definition maybe_fill_in_checksum :: "packet \<Rightarrow> packet res" where
  "maybe_fill_in_checksum p =
     bindR (from_mem ethernet_size (p_data p) 0) (\<lambda>_.
     let eth = eth_of (p_data p) in
     if ethertype eth = TYPE_IPV4 then
       bindR (from_mem ipv4_size (p_data p) ethernet_size) (\<lambda>_.
       let ip = ip_of (p_data p) in
       if 5 < ihl ip then Inr p
       else
         let proto_length = p_length p - of_nat proto_ofs in
         if ip_protocol ip = PROTOCOL_TCP then fill_tcp p ip proto_length
         else if ip_protocol ip = PROTOCOL_UDP then fill_udp p ip proto_length
         else Inr p)
     else Inr p)"

text \<open>\<^verbatim>\<open>ChecksumApp::push\<close>.\<close>

definition checksum_step :: "packet \<Rightarrow> link \<times> world \<times> unit \<Rightarrow> (link \<times> world \<times> unit) res" where
  "checksum_step p = (\<lambda>(out, w, x).
     bindR (maybe_fill_in_checksum p) (\<lambda>p.
     bindR (transmit out p w) (\<lambda>(out, w). Inr (out, w, x))))"

definition checksum_push :: "ports \<Rightarrow> io \<Rightarrow> io res" where
  "checksum_push a s = bindR (push_through checksum_step a () s) (\<lambda>(_, s). Inr s)"

section \<open>TSD\<close>

text \<open>\<^verbatim>\<open>TSD::new\<close>.\<close>

definition tsd_new :: "u16 \<Rightarrow> u16 res" where
  "tsd_new mss = (if 0 < mss then Inr mss else Inl (Assertion_failed ''Invalid MSS''))"

text \<open>The body of the segmentation loop. The packet \<open>p\<close> is changed through its header views.\<close>

definition segment_step ::
  "u16 \<Rightarrow> nat \<Rightarrow> packet \<times> link \<times> world \<times> nat \<times> nat \<Rightarrow> (packet \<times> link \<times> world \<times> nat \<times> nat) res" where
  "segment_step mss payload_ofs = (\<lambda>(p, out, w, data_ofs, data_length).
     bindR (allocate w) (\<lambda>(s, w).
     let slen = min (unat mss) data_length;
         s = s\<lparr>p_length := of_nat (payload_ofs + slen)\<rparr>;
         ip = set_total_length (p_length s - of_nat ethernet_size) (ip_of (p_data p))
     in bindR (ip_checksum_compute ip) (\<lambda>ip.
     let p = p\<lparr>p_data := put_ip (p_data p) ip\<rparr> in
     bindR (pseudo_checksum ip PROTOCOL_TCP (p_length s - of_nat proto_ofs)) (\<lambda>pseudo_csum.
     let tcp = tcp_set_checksum (htons (NOT pseudo_csum)) (tcp_of (p_data p));
         p = p\<lparr>p_data := put_tcp (p_data p) tcp\<rparr>
     in if length (p_data p) < payload_ofs then Inl Index_out_of_bounds else
     let s = s\<lparr>p_data := copy (p_data s) (take payload_ofs (p_data p)) payload_ofs\<rparr> in
     bindR (slice_from (p_data s) payload_ofs) (\<lambda>dst.
     bindR (slice_from (p_data p) data_ofs) (\<lambda>src.
     let s = s\<lparr>p_data := take payload_ofs (p_data s) @ copy dst src slen\<rparr> in
     bindR (transmit out s w) (\<lambda>(out, w).
     let tcp = set_seq (seq tcp + of_nat slen) tcp;
         p = p\<lparr>p_data := put_tcp (p_data p) tcp\<rparr>
     in Inr (p, out, w, data_ofs + slen, data_length - slen))))))))"

definition forward_tcp_segments :: "link \<Rightarrow> packet \<Rightarrow> u16 \<Rightarrow> world \<Rightarrow> (link \<times> world) res" where
  "forward_tcp_segments out p mss w =
     bindR (from_mem ethernet_size (p_data p) 0) (\<lambda>_.
     if ethertype (eth_of (p_data p)) \<noteq> TYPE_IPV4 then transmit out p w
     else bindR (from_mem ipv4_size (p_data p) ethernet_size) (\<lambda>_.
     if 5 < ihl (ip_of (p_data p)) then transmit out p w
     else if ip_protocol (ip_of (p_data p)) \<noteq> PROTOCOL_TCP then transmit out p w
     else bindR (from_mem tcp_size (p_data p) proto_ofs) (\<lambda>_.
     let payload_ofs = min (proto_ofs + tcp_hdr_size (tcp_of (p_data p))) (unat (p_length p));
         payload_length = unat (p_length p) - payload_ofs
     in if payload_length \<le> unat mss then transmit out p w
     else
       bindR (loopR (\<lambda>(p, out, w, data_ofs, data_length). 0 < data_length) (segment_step mss payload_ofs)
               (p, out, w, payload_ofs, payload_length))
         (\<lambda>(p, out, w, _, _). bindR (free p w) (\<lambda>w. Inr (out, w))))))"

text \<open>\<^verbatim>\<open>TSDApp::push\<close>.\<close>

definition tsd_step :: "packet \<Rightarrow> link \<times> world \<times> u16 \<Rightarrow> (link \<times> world \<times> u16) res" where
  "tsd_step p = (\<lambda>(out, w, mss). bindR (forward_tcp_segments out p mss w) (\<lambda>(out, w). Inr (out, w, mss)))"

definition tsd_push :: "u16 \<Rightarrow> ports \<Rightarrow> io \<Rightarrow> io res" where
  "tsd_push mss a s = bindR (push_through tsd_step a mss s) (\<lambda>(_, s). Inr s)"

section \<open>Well-formed packets have room for the headers\<close>

lemmas header_sizes = ethernet_size_def ipv4_size_def tcp_size_def udp_size_def proto_ofs_def

lemma length_le_data: "packet_ok p \<Longrightarrow> unat (p_length p) \<le> length (p_data p)"
  using unat_u16_lt [of "p_length p"] by (simp add: packet_ok_def PAYLOAD_SIZE_def del: unat_u16_lt)

lemma header_room:
  assumes "packet_ok p"
  shows "from_mem ethernet_size (p_data p) 0 = Inr ()" "from_mem ipv4_size (p_data p) ethernet_size = Inr ()"
    "from_mem tcp_size (p_data p) proto_ofs = Inr ()" "from_mem udp_size (p_data p) proto_ofs = Inr ()"
    "slice_from (p_data p) (proto_ofs + tcp_size) = Inr (drop (proto_ofs + tcp_size) (p_data p))"
    "slice_from (p_data p) (proto_ofs + udp_size) = Inr (drop (proto_ofs + udp_size) (p_data p))"
  using assms by (simp_all add: from_mem_def slice_from_def packet_ok_def PAYLOAD_SIZE_def header_sizes)

lemma unat_minus_ofs:
  assumes "n \<le> unat (a :: u16)"
  shows "unat (a - of_nat n) = unat a - n"
proof -
  have n: "unat (of_nat n :: u16) = n"
    using assms unat_u16_lt [of a] by (intro unat_of_nat_small) (simp del: unat_u16_lt)
  then have "of_nat n \<le> a" using assms by (simp add: word_le_nat_alt)
  then show ?thesis using n by (simp add: unat_sub)
qed

section \<open>Filling in checksums\<close>

text \<open>
  The transport checksum of a packet: over the pseudo header and everything that follows the IP
  header. It verifies when the sum comes out as 0.
\<close>

definition l4_segment :: "packet \<Rightarrow> u8 list" where
  "l4_segment p = take (unat (p_length p) - proto_ofs) (drop proto_ofs (p_data p))"

definition l4_pseudo :: "packet \<Rightarrow> u8 list" where
  "l4_pseudo p = pseudo_header (ip_of (p_data p)) (ip_protocol (ip_of (p_data p))) (p_length p - of_nat proto_ofs)"

definition l4_checksum_ok :: "packet \<Rightarrow> bool" where
  "l4_checksum_ok p \<longleftrightarrow> rfc1071 (l4_pseudo p @ l4_segment p) 0 = 0"

text \<open>The marker of a checksum that is to be filled in.\<close>

definition tcp_omitted :: "packet \<Rightarrow> bool" where
  "tcp_omitted p \<longleftrightarrow> ntohs (tcp_checksum (tcp_of (p_data p))) = NOT (rfc1071 (l4_pseudo p) 0)"

definition udp_omitted :: "packet \<Rightarrow> bool" where
  "udp_omitted p \<longleftrightarrow> ntohs (udp_checksum (udp_of (p_data p))) = NOT (rfc1071 (l4_pseudo p) 0)"

definition tcp_sum :: "packet \<Rightarrow> u16" where
  "tcp_sum p = htons (rfc1071 (tcp_bytes (tcp_set_checksum 0 (tcp_of (p_data p))) @
     take (unat (p_length p) - (proto_ofs + tcp_size)) (drop (proto_ofs + tcp_size) (p_data p)))
     (NOT (rfc1071 (l4_pseudo p) 0)))"

definition udp_sum :: "packet \<Rightarrow> u16" where
  "udp_sum p = htons (rfc1071 (udp_bytes (udp_set_checksum 0 (udp_of (p_data p))) @
     take (unat (p_length p) - (proto_ofs + udp_size)) (drop (proto_ofs + udp_size) (p_data p)))
     (NOT (rfc1071 (l4_pseudo p) 0)))"

definition tcp_filled :: "packet \<Rightarrow> packet" where
  "tcp_filled p = p\<lparr>p_data := put_tcp (p_data p) (tcp_set_checksum (tcp_sum p) (tcp_of (p_data p)))\<rparr>"

definition udp_filled :: "packet \<Rightarrow> packet" where
  "udp_filled p = p\<lparr>p_data := put_udp (p_data p) (udp_set_checksum (udp_sum p) (udp_of (p_data p)))\<rparr>"

lemma fill_tcp_eq:
  assumes "packet_ok p" and "proto_ofs + tcp_size \<le> unat (p_length p)"
    and "ip_protocol (ip_of (p_data p)) = PROTOCOL_TCP"
  shows "fill_tcp p (ip_of (p_data p)) (p_length p - of_nat proto_ofs) =
    Inr (if tcp_omitted p then tcp_filled p else p)"
proof -
  let ?len = "p_length p - of_nat (proto_ofs + tcp_size)"
  have len: "unat ?len = unat (p_length p) - (proto_ofs + tcp_size)"
    by (rule unat_minus_ofs [OF assms(2)])
  then have "unat ?len \<le> length (drop (proto_ofs + tcp_size) (p_data p))"
    using length_le_data [OF assms(1)] by simp
  note c = tcp_checksum_compute_eq [OF this, unfolded len]
  show ?thesis
    unfolding fill_tcp_def Let_def header_room [OF assms(1)] bindR_simps pseudo_checksum_eq c
    unfolding tcp_omitted_def tcp_filled_def tcp_sum_def l4_pseudo_def assms(3)
    by simp
qed

lemma fill_udp_eq:
  assumes "packet_ok p" and "proto_ofs + udp_size \<le> unat (p_length p)"
    and "ip_protocol (ip_of (p_data p)) = PROTOCOL_UDP"
  shows "fill_udp p (ip_of (p_data p)) (p_length p - of_nat proto_ofs) =
    Inr (if udp_omitted p then udp_filled p else p)"
proof -
  let ?len = "p_length p - of_nat (proto_ofs + udp_size)"
  have len: "unat ?len = unat (p_length p) - (proto_ofs + udp_size)"
    by (rule unat_minus_ofs [OF assms(2)])
  then have "unat ?len \<le> length (drop (proto_ofs + udp_size) (p_data p))"
    using length_le_data [OF assms(1)] by simp
  note c = udp_checksum_compute_eq [OF this, unfolded len]
  show ?thesis
    unfolding fill_udp_def Let_def header_room [OF assms(1)] bindR_simps pseudo_checksum_eq c
    unfolding udp_omitted_def udp_filled_def udp_sum_def l4_pseudo_def assms(3)
    by simp
qed

text \<open>Writing a transport header leaves the headers before it alone.\<close>

lemma ip_of_put:
  assumes "packet_ok p"
  shows "ip_of (put_tcp (p_data p) t) = ip_of (p_data p)" "ip_of (put_udp (p_data p) u) = ip_of (p_data p)"
    "eth_of (put_tcp (p_data p) t) = eth_of (p_data p)" "eth_of (put_udp (p_data p) u) = eth_of (p_data p)"
  using assms
  by (simp_all add: header_ref_put_before packet_ok_def PAYLOAD_SIZE_def header_sizes)

lemma tcp_filled_ok:
  assumes "packet_ok p" and "proto_ofs + tcp_size \<le> unat (p_length p)"
  shows "packet_ok (tcp_filled p)" "l4_pseudo (tcp_filled p) = l4_pseudo p" "l4_checksum_ok (tcp_filled p)"
proof -
  have len: "proto_ofs + tcp_size \<le> length (p_data p)" "unat (p_length p) \<le> length (p_data p)"
    using length_le_data [OF assms(1)] assms(2) by simp_all
  show "packet_ok (tcp_filled p)"
    using assms(1) len by (simp add: tcp_filled_def packet_ok_def tcph.length_put)
  show ps: "l4_pseudo (tcp_filled p) = l4_pseudo p"
    by (simp add: tcp_filled_def l4_pseudo_def ip_of_put [OF assms(1)])
  have "even (length (l4_pseudo p))" by (simp add: l4_pseudo_def)
  from tcpt.filled_verifies [OF assms(2) len(2) this]
  show "l4_checksum_ok (tcp_filled p)"
    unfolding l4_checksum_ok_def ps by (simp add: l4_segment_def tcp_filled_def tcp_sum_def)
qed

lemma udp_filled_ok:
  assumes "packet_ok p" and "proto_ofs + udp_size \<le> unat (p_length p)"
  shows "packet_ok (udp_filled p)" "l4_pseudo (udp_filled p) = l4_pseudo p" "l4_checksum_ok (udp_filled p)"
proof -
  have len: "proto_ofs + udp_size \<le> length (p_data p)" "unat (p_length p) \<le> length (p_data p)"
    using length_le_data [OF assms(1)] assms(2) by simp_all
  show "packet_ok (udp_filled p)"
    using assms(1) len by (simp add: udp_filled_def packet_ok_def udph.length_put)
  show ps: "l4_pseudo (udp_filled p) = l4_pseudo p"
    by (simp add: udp_filled_def l4_pseudo_def ip_of_put [OF assms(1)])
  have "even (length (l4_pseudo p))" by (simp add: l4_pseudo_def)
  from udpt.filled_verifies [OF assms(2) len(2) this]
  show "l4_checksum_ok (udp_filled p)"
    unfolding l4_checksum_ok_def ps by (simp add: l4_segment_def udp_filled_def udp_sum_def)
qed

text \<open>Packets that the app looks into are long enough for the headers it reads.\<close>

definition plain_ipv4 :: "packet \<Rightarrow> bool" where
  "plain_ipv4 p \<longleftrightarrow> ethertype (eth_of (p_data p)) = TYPE_IPV4 \<and> ihl (ip_of (p_data p)) \<le> 5"

abbreviation protocol_of :: "packet \<Rightarrow> u8" where
  "protocol_of p \<equiv> ip_protocol (ip_of (p_data p))"

definition l4_complete :: "packet \<Rightarrow> bool" where
  "l4_complete p \<longleftrightarrow>
     (plain_ipv4 p \<longrightarrow>
       (protocol_of p = PROTOCOL_TCP \<longrightarrow> proto_ofs + tcp_size \<le> unat (p_length p)) \<and>
       (protocol_of p = PROTOCOL_UDP \<longrightarrow> proto_ofs + udp_size \<le> unat (p_length p)))"

text \<open>What the app turns a packet into.\<close>

definition filled :: "packet \<Rightarrow> packet" where
  "filled p =
     (if plain_ipv4 p \<and> protocol_of p = PROTOCOL_TCP \<and> tcp_omitted p then tcp_filled p
      else if plain_ipv4 p \<and> protocol_of p = PROTOCOL_UDP \<and> udp_omitted p then udp_filled p
      else p)"

lemma protocols_differ: "PROTOCOL_UDP \<noteq> PROTOCOL_TCP"
  by (simp add: PROTOCOL_TCP_def PROTOCOL_UDP_def)

lemma maybe_fill_in_checksum_eq:
  assumes "packet_ok p" and "l4_complete p"
  shows "maybe_fill_in_checksum p = Inr (filled p)"
  using assms(2) fill_tcp_eq [OF assms(1)] fill_udp_eq [OF assms(1)] protocols_differ
  by (auto simp: maybe_fill_in_checksum_def header_room [OF assms(1)] filled_def l4_complete_def
      plain_ipv4_def not_less Let_def)

lemma filled_ok:
  assumes "packet_ok p" and "l4_complete p"
  shows "packet_ok (filled p)"
  using assms by (simp add: filled_def l4_complete_def tcp_filled_ok udp_filled_ok)

interpretation ca: packet_app checksum_step l4_complete "\<lambda>_. True" "\<lambda>p. p" "\<lambda>_ p. [filled p]" "\<lambda>_ _. ()" 0
proof unfold_locales
  fix out p w and n :: nat and x :: unit
  assume h: "link_ok out" "packet_ok p" "l4_complete p" "pool_ok w (Suc n)"
  from ch.send_ok [OF h(1) filled_ok [OF h(2,3)] h(4)]
  show "\<exists>out' w' n'. checksum_step p (out, w, x) = Inr (out', w', ()) \<and> link_ok out' \<and>
      map (\<lambda>p. p) (contents out') = take LINK_MAX_PACKETS (map (\<lambda>p. p) (contents out) @ [filled p]) \<and>
      pool_ok w' n' \<and> n' + length (contents out) = n + length (contents out')"
    by (auto simp: checksum_step_def maybe_fill_in_checksum_eq [OF h(2,3)])
qed simp

text \<open>A packet too short for its transport header makes the length computation wrap around.\<close>

lemma unat_minus_wrap:
  assumes "unat (a :: u16) < n" and "n < 65536"
  shows "unat (a - of_nat n) = unat a + 65536 - n"
proof -
  have n: "unat (of_nat n :: u16) = n" using assms(2) by (intro unat_of_nat_small) simp
  define b where "b = a - of_nat n"
  then have "a = b + of_nat n" by simp
  then have "unat a = (unat b + n) mod 65536" using n by (simp add: unat_plus_mod)
  moreover have "unat b < 65536" by simp
  ultimately show ?thesis
    using assms by (simp add: b_def [symmetric] mod_if del: unat_u16_lt split: if_splits)
qed

lemma fill_tcp_short:
  assumes "packet_ok p" and "unat (p_length p) < proto_ofs + tcp_size"
    and "protocol_of p = PROTOCOL_TCP" and "tcp_omitted p"
  shows "fill_tcp p (ip_of (p_data p)) (p_length p - of_nat proto_ofs) = Inl Out_of_bounds_read"
proof -
  let ?len = "p_length p - of_nat (proto_ofs + tcp_size)"
  have "unat ?len = unat (p_length p) + 65536 - (proto_ofs + tcp_size)"
    by (rule unat_minus_wrap [OF assms(2)]) (simp add: header_sizes)
  then have "length (drop (proto_ofs + tcp_size) (p_data p)) < unat ?len"
    using assms(1) by (simp add: packet_ok_def PAYLOAD_SIZE_def header_sizes)
  note c = tcp_checksum_compute_panics [OF this]
  show ?thesis
    using assms(4)
    unfolding fill_tcp_def Let_def header_room [OF assms(1)] bindR_simps pseudo_checksum_eq c
      tcp_omitted_def l4_pseudo_def assms(3)
    by simp
qed

text \<open>A TCP packet to evaluate the definitions on, with a given length and checksum field.\<close>

definition demo_packet :: "u16 \<Rightarrow> u16 \<Rightarrow> packet" where
  "demo_packet len c =
     \<lparr>p_length = len,
      p_data = replicate 12 0 @ [8, 0, 0x45, 0] @ replicate 7 0 @ [6] @ replicate 26 0 @ wr16 (htons c) @
        replicate 65483 0\<rparr>"

lemma demo_packet_ok: "packet_ok (demo_packet len c)"
  by (simp add: demo_packet_def packet_ok_def PAYLOAD_SIZE_def)

lemma demo_packet_headers:
  "plain_ipv4 (demo_packet len c)" "protocol_of (demo_packet len c) = PROTOCOL_TCP"
  "ip_src (ip_of (p_data (demo_packet len c))) = 0" "ip_dst (ip_of (p_data (demo_packet len c))) = 0"
  "ntohs (tcp_checksum (tcp_of (p_data (demo_packet len c)))) = c"
proof -
  let ?d = "p_data (demo_packet len c)"
  have "take 14 ?d = replicate 12 0 @ [8, 0]"
    by (simp add: demo_packet_def)
  then have eth: "ethertype (eth_of ?d) = TYPE_IPV4"
    by (simp add: header_ref_def header_slice_def header_sizes ethernet_of_bytes_def ethertype_def rd16_def
        TYPE_IPV4_def ntohs_def swap_bytes16_def)
  have ip: "take 20 (drop 14 ?d) = [0x45, 0] @ replicate 7 0 @ [6] @ replicate 10 0"
    by (simp add: demo_packet_def)
  show "protocol_of (demo_packet len c) = PROTOCOL_TCP"
    using ip by (simp add: header_ref_def header_slice_def header_sizes ipv4_of_bytes_def PROTOCOL_TCP_def nth_append)
  have "ihl (ip_of ?d) = 5"
    using ip by (simp add: header_ref_def header_slice_def header_sizes ipv4_of_bytes_def ihl_def rd16_def
        ntohs_def swap_bytes16_def)
  with eth show "plain_ipv4 (demo_packet len c)" by (simp add: plain_ipv4_def)
  show "ip_src (ip_of (p_data (demo_packet len c))) = 0" "ip_dst (ip_of (p_data (demo_packet len c))) = 0"
    using ip by (simp_all add: header_ref_def header_slice_def header_sizes ipv4_of_bytes_def rd32_def numeral_eq_Suc)
  show "ntohs (tcp_checksum (tcp_of (p_data (demo_packet len c)))) = c"
  proof -
    have "take 20 (drop 34 ?d) = replicate 16 0 @ wr16 (htons c) @ replicate 2 0"
      by (simp add: demo_packet_def)
    then have "tcp_checksum (tcp_of ?d) = htons c"
      by (simp add: header_ref_def header_slice_def header_sizes tcp_of_bytes_def rd16_def le_nat_wr16)
    then show ?thesis by simp
  qed
qed

lemma demo_omitted:
  "tcp_omitted (demo_packet len c) \<longleftrightarrow>
   c = of_nat (ones_sum (6 + unat (len - of_nat proto_ofs)))"
proof -
  have "be_sum (l4_pseudo (demo_packet len c)) = 6 + unat (len - of_nat proto_ofs)"
  proof -
    have "l4_pseudo (demo_packet len c) = wr32 0 @ wr32 0 @ [0, 6] @ wr16 (htons (len - of_nat proto_ofs))"
      by (simp add: l4_pseudo_def pseudo_header_def demo_packet_headers PROTOCOL_TCP_def)
        (simp add: demo_packet_def)
    then show ?thesis by (simp add: be_sum_append be_sum_wr16_htons_end wr32_def)
  qed
  then show ?thesis
    by (simp add: tcp_omitted_def demo_packet_headers rfc1071_def)
qed

section \<open>Properties\<close>

text \<open>
  C25. Filling in TCP checksums: for a complete IPv4 TCP packet without IP options, the app
  returns the packet unchanged unless the checksum field holds the marker of an offloaded checksum
  (the complement of the pseudo header's checksum); then it stores a checksum with which the segment
  verifies, and changes nothing but that field.
\<close>

theorem tcp_checksum_filled:
  assumes "packet_ok p" and "plain_ipv4 p" and "protocol_of p = PROTOCOL_TCP"
    and "54 \<le> unat (p_length p)"
  shows "\<exists>p' c. maybe_fill_in_checksum p = Inr p' \<and>
    (if tcp_omitted p then l4_checksum_ok p' else p' = p) \<and>
    p' = p\<lparr>p_data := put_tcp (p_data p) (tcp_set_checksum c (tcp_of (p_data p)))\<rparr>"
proof -
  have len: "proto_ofs + tcp_size \<le> unat (p_length p)" using assms(4) by (simp add: header_sizes)
  then have "l4_complete p" using assms(3) protocols_differ by (simp add: l4_complete_def)
  note f = maybe_fill_in_checksum_eq [OF assms(1) this]
  show ?thesis
  proof (cases "tcp_omitted p")
    case True
    then have "filled p = tcp_filled p" using assms(2,3) by (simp add: filled_def)
    then show ?thesis
      using True f tcp_filled_ok(3) [OF assms(1) len] by (auto simp: tcp_filled_def)
  next
    case False
    then have "filled p = p" using assms(3) protocols_differ by (simp add: filled_def)
    moreover have "put_tcp (p_data p) (tcp_of (p_data p)) = p_data p"
      using len length_le_data [OF assms(1)] by (intro tcph.put_get) simp
    then have "p = p\<lparr>p_data := put_tcp (p_data p)
        (tcp_set_checksum (tcp_checksum (tcp_of (p_data p))) (tcp_of (p_data p)))\<rparr>"
      by (simp add: tcp_set_checksum_def)
    ultimately show ?thesis using False f by auto
  qed
qed

theorem tcp_checksum_filled_witness:
  "\<exists>p' c. maybe_fill_in_checksum (demo_packet 60 32) = Inr p' \<and> l4_checksum_ok p' \<and>
    p' = (demo_packet 60 32)\<lparr>p_data :=
      put_tcp (p_data (demo_packet 60 32)) (tcp_set_checksum c (tcp_of (p_data (demo_packet 60 32))))\<rparr>"
proof -
  have "tcp_omitted (demo_packet 60 32)"
    by (simp add: demo_omitted header_sizes ones_sum_def)
  moreover have "54 \<le> unat (p_length (demo_packet 60 32))"
    by (simp add: demo_packet_def)
  ultimately show ?thesis
    using tcp_checksum_filled [OF demo_packet_ok demo_packet_headers(1,2), of 60 32] by simp
qed

text \<open>
  C26. A runt packet: when a plain IPv4 TCP packet is shorter than its headers and the
  checksum field holds the marker, the length of the payload wraps around and the checksum
  routine reads beyond the end of the packet's memory.
\<close>

theorem tcp_checksum_runt:
  assumes "packet_ok p" and "plain_ipv4 p" and "protocol_of p = PROTOCOL_TCP"
    and "unat (p_length p) < 54" and "tcp_omitted p"
  shows "maybe_fill_in_checksum p = Inl Out_of_bounds_read"
proof -
  have "unat (p_length p) < proto_ofs + tcp_size" using assms(4) by (simp add: header_sizes)
  from fill_tcp_short [OF assms(1) this assms(3,5)] assms(2,3) show ?thesis
    by (simp add: maybe_fill_in_checksum_def header_room [OF assms(1)] plain_ipv4_def not_less Let_def)
qed

theorem tcp_checksum_runt_witness:
  "maybe_fill_in_checksum (demo_packet 20 0xfff8) = Inl Out_of_bounds_read"
proof (rule tcp_checksum_runt [OF demo_packet_ok demo_packet_headers(1,2)])
  show "unat (p_length (demo_packet 20 0xfff8)) < 54"
    by (simp add: demo_packet_def)
  show "tcp_omitted (demo_packet 20 0xfff8)"
    by (simp add: demo_omitted header_sizes ones_sum_def)
qed

text \<open>
  The app \<^verbatim>\<open>Checksum\<close> as a whole: with complete packets on its input link, \<^verbatim>\<open>push\<close> ends without a
  panic, empties the input, and appends every packet, in order and with its checksum filled in, to
  the output until that is full; no other link changes, and the packets that do not fit return to
  the freelist.
\<close>

theorem checksum_push_correct:
  assumes "ports_ok a i j" and "io_ok s n" and "length (contents (io_links s i)) \<le> n"
    and "\<forall>p \<in> set (contents (io_links s i)). l4_complete p"
  shows "\<exists>s' n'. checksum_push a s = Inr s' \<and> io_ok s' n' \<and> contents (io_links s' i) = [] \<and>
    contents (io_links s' j) =
      take LINK_MAX_PACKETS (contents (io_links s j) @ map filled (contents (io_links s i))) \<and>
    (\<forall>k. k \<noteq> i \<longrightarrow> k \<noteq> j \<longrightarrow> io_links s' k = io_links s k) \<and>
    n' + length (contents (io_links s i)) + length (contents (io_links s j)) =
      n + length (contents (io_links s' j))"
  using ca.push_ok [OF assms(1,2) _ assms(4) _ assms(3), of "()"]
  by (auto simp: checksum_push_def emitted_map)

theorem checksum_push_correct_witness:
  "\<exists>s'. checksum_push demo_ports (demo_io (demo_packet 60 32)) = Inr s' \<and>
    contents (io_links s' 0) = [] \<and> contents (io_links s' 1) = [filled (demo_packet 60 32)]"
proof -
  have "l4_complete (demo_packet 60 32)"
    by (simp add: l4_complete_def demo_packet_headers PROTOCOL_TCP_def PROTOCOL_UDP_def header_sizes)
      (simp add: demo_packet_def)
  then show ?thesis
    using checksum_push_correct [OF demo_io_ok(1,2), of "demo_packet 60 32"]
    by (auto simp: demo_io_ok demo_packet_ok LINK_MAX_PACKETS_def LINK_RING_SIZE_def)
qed

end
