(* ===== verification/Flow.thy ===== *)
theory Flow
  imports Offload
begin

text \<open>
  \<^verbatim>\<open>rush/src/flow.rs\<close>: the app \<^verbatim>\<open>Split\<close>, which sends packets to outputs by the flow they belong to, and the
  app \<^verbatim>\<open>Top\<close>, which counts packets per flow in a table of 2048 slots that it shares through a memory-mapped
  file. The mapping itself is the operating system's; the table is a list of slots.
\<close>

section \<open>Split\<close>

datatype dir = Src | Dst

record flow =
  flow_label :: string
  flow_dir :: dir
  flow_ip :: address
  flow_protocol :: u8
  flow_port_min :: u16
  flow_port_max :: u16

definition ip_addr :: "dir \<Rightarrow> ipv4 \<Rightarrow> address" where
  "ip_addr d ip = (case d of Src \<Rightarrow> ip_src ip | Dst \<Rightarrow> ip_dst ip)"

definition tcp_port :: "dir \<Rightarrow> tcp \<Rightarrow> u16" where
  "tcp_port d tcp = (case d of Src \<Rightarrow> tcp_src_port tcp | Dst \<Rightarrow> tcp_dst_port tcp)"

definition udp_port :: "dir \<Rightarrow> udp \<Rightarrow> u16" where
  "udp_port d udp = (case d of Src \<Rightarrow> udp_src_port udp | Dst \<Rightarrow> udp_dst_port udp)"

definition flow_match :: "packet \<Rightarrow> flow \<Rightarrow> bool res" where
  "flow_match p flow =
     bindR (from_mem ethernet_size (p_data p) 0) (\<lambda>_.
     if ethertype (eth_of (p_data p)) \<noteq> TYPE_IPV4 then Inr False
     else bindR (from_mem ipv4_size (p_data p) ethernet_size) (\<lambda>_.
     let ip = ip_of (p_data p) in
     if 5 < ihl ip then Inr False
     else if 0 < flow_ip flow \<and> ip_addr (flow_dir flow) ip \<noteq> flow_ip flow then Inr False
     else if 0 < flow_protocol flow \<and> ip_protocol ip \<noteq> flow_protocol flow then Inr False
     else if flow_protocol flow = PROTOCOL_TCP then
       bindR (from_mem tcp_size (p_data p) proto_ofs) (\<lambda>_.
       let port = tcp_port (flow_dir flow) (tcp_of (p_data p)) in
       Inr (\<not> (port < flow_port_min flow \<or> flow_port_max flow < port)))
     else if flow_protocol flow = PROTOCOL_UDP then
       bindR (from_mem udp_size (p_data p) proto_ofs) (\<lambda>_.
       let port = udp_port (flow_dir flow) (udp_of (p_data p)) in
       Inr (\<not> (port < flow_port_min flow \<or> flow_port_max flow < port)))
     else Inr True))"

text \<open>The loop over the flows, which stops at the first match.\<close>

fun first_match :: "flow list \<Rightarrow> packet \<Rightarrow> flow option res" where
  "first_match [] p = Inr None"
| "first_match (f # fs) p = bindR (flow_match p f) (\<lambda>m. if m then Inr (Some f) else first_match fs p)"

text \<open>
  The link a packet is sent to. The default output is borrowed first, and still borrowed when the
  output of the flow is; the input \<open>i\<close> is borrowed throughout.
\<close>

definition split_target :: "flow list \<Rightarrow> ports \<Rightarrow> nat \<Rightarrow> nat \<Rightarrow> packet \<Rightarrow> nat res" where
  "split_target flows a i d p =
     (if d = i then Inl Already_borrowed
      else bindR (first_match flows p) (\<lambda>m. case m of
        None \<Rightarrow> Inr d
      | Some f \<Rightarrow> bindR (unwrap (map_of (app_output a) (flow_label f))) (\<lambda>j.
          if j = d \<or> j = i then Inl Already_borrowed else Inr j)))"

definition split_step :: "flow list \<Rightarrow> ports \<Rightarrow> nat \<Rightarrow> nat \<Rightarrow> packet \<Rightarrow> io \<Rightarrow> io res" where
  "split_step flows a i d p s =
     bindR (split_target flows a i d p) (\<lambda>j.
     bindR (transmit (io_links s j) p (io_world s)) (\<lambda>(out, w).
     Inr (s\<lparr>io_links := (io_links s)(j := out), io_world := w\<rparr>)))"

definition split_push :: "flow list \<Rightarrow> ports \<Rightarrow> io \<Rightarrow> io res" where
  "split_push flows a s =
     bindR (unwrap (map_of (app_input a) ''input'')) (\<lambda>i.
     bindR (unwrap (map_of (app_output a) ''default'')) (\<lambda>d.
     bindR (drain (split_step flows a i d) (io_links s i) s) (\<lambda>(inp, s).
     Inr (s\<lparr>io_links := (io_links s)(i := inp)\<rparr>))))"

section \<open>Top\<close>

definition FLOWTOP_NSLOTS :: nat where "FLOWTOP_NSLOTS = 2048"
definition FLOWTOP_SLOTMASK :: u64 where "FLOWTOP_SLOTMASK = of_nat FLOWTOP_NSLOTS - 1"

record flow_ctr =
  ctr_packets :: u64
  ctr_bits :: u64
  ctr_id :: u64

type_synonym flow_top = "flow_ctr list"

definition flow_id :: "u32 \<Rightarrow> u8 \<Rightarrow> u16 \<Rightarrow> u64" where
  "flow_id ip protocol port = push_bit 48 (ucast port) OR push_bit 32 (ucast protocol) OR push_bit 0 (ucast ip)"

definition murmurhash64_mix64 :: "u64 \<Rightarrow> u64" where
  "murmurhash64_mix64 k =
     (let k = k XOR drop_bit 33 k;
          k = k * 0xff51afd7ed558ccd;
          k = k XOR drop_bit 33 k;
          k = k * 0xc4ceb9fe1a85ec53
      in k XOR drop_bit 33 k)"

definition flow_slot :: "u64 \<Rightarrow> nat" where
  "flow_slot flow = unat (murmurhash64_mix64 flow AND FLOWTOP_SLOTMASK)"

definition flowtop_inc :: "flow_top \<Rightarrow> u32 \<Rightarrow> u8 \<Rightarrow> u16 \<Rightarrow> u64 \<Rightarrow> flow_top res" where
  "flowtop_inc m ip protocol port nbits =
     (let fid = flow_id ip protocol port; i = flow_slot fid in
      if i < length m
      then let c = m ! i
           in Inr (m[i := \<lparr>ctr_packets = ctr_packets c + 1, ctr_bits = ctr_bits c + nbits, ctr_id = fid\<rparr>])
      else Inl Index_out_of_bounds)"

definition flow_count :: "packet \<Rightarrow> dir \<Rightarrow> flow_top \<Rightarrow> flow_top res" where
  "flow_count p d m =
     bindR (from_mem ethernet_size (p_data p) 0) (\<lambda>_.
     bindR (if ethertype (eth_of (p_data p)) = TYPE_IPV4 then
              bindR (from_mem ipv4_size (p_data p) ethernet_size) (\<lambda>_.
              let ip = ip_of (p_data p) in
              bindR (if ihl ip = 5 then
                       if ip_protocol ip = PROTOCOL_TCP then
                         bindR (from_mem tcp_size (p_data p) proto_ofs) (\<lambda>_.
                         Inr (tcp_port d (tcp_of (p_data p))))
                       else if ip_protocol ip = PROTOCOL_UDP then
                         bindR (from_mem udp_size (p_data p) proto_ofs) (\<lambda>_.
                         Inr (udp_port d (udp_of (p_data p))))
                       else Inr 0
                     else Inr 0) (\<lambda>port.
              Inr (ip_addr d ip, ip_protocol ip, port)))
            else Inr (0, 0, 0)) (\<lambda>(addr, protocol, port).
     flowtop_inc m addr protocol port (bitlength p)))"

definition top_step :: "dir \<Rightarrow> packet \<Rightarrow> link \<times> world \<times> flow_top \<Rightarrow> (link \<times> world \<times> flow_top) res" where
  "top_step d p = (\<lambda>(out, w, m).
     bindR (flow_count p d m) (\<lambda>m.
     bindR (transmit out p w) (\<lambda>(out, w). Inr (out, w, m))))"

definition top_push :: "dir \<Rightarrow> flow_top \<Rightarrow> ports \<Rightarrow> io \<Rightarrow> (flow_top \<times> io) res" where
  "top_push d m a s = push_through (top_step d) a m s"

section \<open>Matching\<close>

definition flow_matches :: "flow \<Rightarrow> packet \<Rightarrow> bool" where
  "flow_matches f p \<longleftrightarrow>
     plain_ipv4 p \<and>
     (flow_ip f = 0 \<or> ip_addr (flow_dir f) (ip_of (p_data p)) = flow_ip f) \<and>
     (flow_protocol f = 0 \<or> protocol_of p = flow_protocol f) \<and>
     (flow_protocol f = PROTOCOL_TCP \<longrightarrow>
        tcp_port (flow_dir f) (tcp_of (p_data p)) \<in> {flow_port_min f .. flow_port_max f}) \<and>
     (flow_protocol f = PROTOCOL_UDP \<longrightarrow>
        udp_port (flow_dir f) (udp_of (p_data p)) \<in> {flow_port_min f .. flow_port_max f})"

lemma flow_match_eq: "packet_ok p \<Longrightarrow> flow_match p f = Inr (flow_matches f p)"
  using protocols_differ
  by (auto simp: flow_match_def header_room flow_matches_def plain_ipv4_def Let_def not_less word_gt_0)

lemma first_match_eq: "packet_ok p \<Longrightarrow> first_match fs p = Inr (find (\<lambda>f. flow_matches f p) fs)"
  by (induction fs) (simp_all add: flow_match_eq)

section \<open>Routing\<close>

declare length_contents [simp del] take_append [simp del]

definition split_ok :: "flow list \<Rightarrow> ports \<Rightarrow> nat \<Rightarrow> nat \<Rightarrow> bool" where
  "split_ok flows a i d \<longleftrightarrow>
     map_of (app_input a) ''input'' = Some i \<and> map_of (app_output a) ''default'' = Some d \<and> d \<noteq> i \<and>
     (\<forall>f \<in> set flows. \<exists>j. map_of (app_output a) (flow_label f) = Some j \<and> j \<noteq> d \<and> j \<noteq> i)"

definition split_route :: "flow list \<Rightarrow> ports \<Rightarrow> nat \<Rightarrow> packet \<Rightarrow> nat" where
  "split_route flows a d p =
     (case find (\<lambda>f. flow_matches f p) flows of
        None \<Rightarrow> d
      | Some f \<Rightarrow> the (map_of (app_output a) (flow_label f)))"

lemma find_in_set: "find P xs = Some x \<Longrightarrow> x \<in> set xs"
  by (auto simp: find_Some_iff)

lemma split_target_eq:
  assumes "split_ok flows a i d" and "packet_ok p"
  shows "split_target flows a i d p = Inr (split_route flows a d p)" "split_route flows a d p \<noteq> i"
proof -
  have "split_target flows a i d p = Inr (split_route flows a d p) \<and> split_route flows a d p \<noteq> i"
  proof (cases "find (\<lambda>f. flow_matches f p) flows")
    case None
    then show ?thesis
      using assms by (simp add: split_target_def split_route_def first_match_eq split_ok_def)
  next
    case (Some f)
    then have "f \<in> set flows" by (rule find_in_set)
    then obtain j where "map_of (app_output a) (flow_label f) = Some j" "j \<noteq> d" "j \<noteq> i"
      using assms(1) by (auto simp: split_ok_def)
    then show ?thesis
      using assms Some by (simp add: split_target_def split_route_def first_match_eq split_ok_def)
  qed
  then show "split_target flows a i d p = Inr (split_route flows a d p)" "split_route flows a d p \<noteq> i"
    by blast+
qed

lemma split_steps_ok:
  assumes "split_ok flows a i d" and "\<forall>p \<in> set ps. packet_ok p" and "io_ok s (n + length ps)"
  shows "\<exists>s' n'. foldR (split_step flows a i d) ps s = Inr s' \<and> io_ok s' n' \<and> n' \<le> n + length ps \<and>
    io_links s' i = io_links s i \<and>
    (\<forall>j. j \<noteq> i \<longrightarrow> contents (io_links s' j) =
      take LINK_MAX_PACKETS (contents (io_links s j) @ filter (\<lambda>p. split_route flows a d p = j) ps))"
  using assms(2,3)
proof (induction ps arbitrary: s n)
  case Nil
  then show ?case using contents_bound [OF io_okD(1) [OF Nil.prems(2)]] by auto
next
  case (Cons p ps)
  let ?j = "split_route flows a d p"
  have p: "packet_ok p" using Cons.prems(1) by simp
  note t = split_target_eq [OF assms(1) p]
  have "pool_ok (io_world s) (Suc (n + length ps))" using io_okD(2) [OF Cons.prems(2)] by simp
  from ch.send_ok [OF io_okD(1) [OF Cons.prems(2)] p this, of ?j] obtain out w n1 where
    o: "transmit (io_links s ?j) p (io_world s) = Inr (out, w)" "link_ok out"
       "contents out = take LINK_MAX_PACKETS (contents (io_links s ?j) @ [p])" "pool_ok w n1"
       "n1 + length (contents (io_links s ?j)) + 1 = Suc (n + length ps) + length (contents out)"
    by blast
  let ?s = "s\<lparr>io_links := (io_links s)(?j := out), io_world := w\<rparr>"
  have len: "length (contents (io_links s ?j)) \<le> length (contents out)"
    "length (contents out) \<le> Suc (length (contents (io_links s ?j)))"
    using contents_bound [OF io_okD(1) [OF Cons.prems(2)], of ?j] by (simp_all add: o(3) take_append)
  then obtain m where m: "n1 = m + length ps" "m \<le> Suc n"
    using o(5) by (intro that [of "n1 - length ps"]) auto
  have ok: "io_ok ?s (m + length ps)" using Cons.prems(2) o(2,4) m by (simp add: io_ok_def)
  from Cons.IH [OF _ ok] Cons.prems(1) obtain s' n' where
    r: "foldR (split_step flows a i d) ps ?s = Inr s'" "io_ok s' n'" "n' \<le> m + length ps"
      "io_links s' i = io_links ?s i"
      "\<forall>j. j \<noteq> i \<longrightarrow> contents (io_links s' j) =
        take LINK_MAX_PACKETS (contents (io_links ?s j) @ filter (\<lambda>p. split_route flows a d p = j) ps)"
    by auto
  have step: "split_step flows a i d p s = Inr ?s"
    by (simp add: split_step_def t(1) o(1))
  have "contents (io_links s' j) =
      take LINK_MAX_PACKETS (contents (io_links s j) @ filter (\<lambda>p. split_route flows a d p = j) (p # ps))"
    if "j \<noteq> i" for j
    using r(5) [rule_format, OF that] by (cases "j = ?j") (simp_all add: o(3) take_take_append)
  then show ?case
    using step r m(2) t(2) by (intro exI [of _ s'] exI [of _ n']) auto
qed

section \<open>Flow identifiers and slots\<close>

text \<open>The fields can be read back from the identifier, so different flows have different ones.\<close>

lemma flow_id_fields:
  "ucast (flow_id ip protocol port) = ip" "ucast (drop_bit 32 (flow_id ip protocol port)) = protocol"
  "ucast (drop_bit 48 (flow_id ip protocol port)) = port"
  by (rule bit_word_eqI,
      auto simp: flow_id_def bit_ucast_iff bit_or_iff bit_push_bit_iff bit_drop_bit_eq dest: bit_imp_le_length)+

lemma xorshift_involution: "(k XOR drop_bit 33 k) XOR drop_bit 33 (k XOR drop_bit 33 k) = (k :: u64)"
  by (rule bit_word_eqI) (auto simp: bit_xor_iff bit_drop_bit_eq dest: bit_imp_le_length)

definition murmurhash64_inverse :: "u64 \<Rightarrow> u64" where
  "murmurhash64_inverse k =
     (let k = k XOR drop_bit 33 k;
          k = k * 0x9cb4b2f8129337db;
          k = k XOR drop_bit 33 k;
          k = k * 0x4f74430c22a54005
      in k XOR drop_bit 33 k)"

lemma murmurhash64_inverse: "murmurhash64_inverse (murmurhash64_mix64 k) = k"
proof -
  define f where "f x = x XOR drop_bit 33 x" for x :: u64
  have ff: "f (f x) = x" for x unfolding f_def by (rule xorshift_involution)
  have "murmurhash64_mix64 k = f (f (f k * 0xff51afd7ed558ccd) * 0xc4ceb9fe1a85ec53)"
    unfolding murmurhash64_mix64_def Let_def f_def by (rule refl)
  moreover have "murmurhash64_inverse x = f (f (f x * 0x9cb4b2f8129337db) * 0x4f74430c22a54005)" for x
    unfolding murmurhash64_inverse_def Let_def f_def by (rule refl)
  moreover have "(0xc4ceb9fe1a85ec53 :: u64) * 0x9cb4b2f8129337db = 1" "(0xff51afd7ed558ccd :: u64) * 0x4f74430c22a54005 = 1"
    by simp_all
  ultimately show ?thesis by (simp only: ff mult.assoc mult_1_right)
qed

lemma flow_slot_lt: "flow_slot f < FLOWTOP_NSLOTS"
proof -
  have "FLOWTOP_SLOTMASK = mask 11"
    by (simp add: FLOWTOP_SLOTMASK_def FLOWTOP_NSLOTS_def mask_eq_exp_minus_1)
  then have "flow_slot f = unat (take_bit 11 (murmurhash64_mix64 f))"
    by (simp add: flow_slot_def take_bit_eq_mask)
  also have "\<dots> < 2 ^ 11"
    by (simp only: unsigned_take_bit_eq) (rule take_bit_nat_less_exp)
  finally show ?thesis by (simp add: FLOWTOP_NSLOTS_def)
qed

section \<open>Counting\<close>

definition flow_tuple :: "dir \<Rightarrow> packet \<Rightarrow> u32 \<times> u8 \<times> u16" where
  "flow_tuple d p =
     (if ethertype (eth_of (p_data p)) = TYPE_IPV4 then
        (ip_addr d (ip_of (p_data p)), protocol_of p,
         if ihl (ip_of (p_data p)) = 5 \<and> protocol_of p = PROTOCOL_TCP then tcp_port d (tcp_of (p_data p))
         else if ihl (ip_of (p_data p)) = 5 \<and> protocol_of p = PROTOCOL_UDP then udp_port d (udp_of (p_data p))
         else 0)
      else (0, 0, 0))"

definition counted :: "dir \<Rightarrow> flow_top \<Rightarrow> packet \<Rightarrow> flow_top" where
  "counted d m p =
     (let (ip, protocol, port) = flow_tuple d p; fid = flow_id ip protocol port; i = flow_slot fid; c = m ! i
      in m[i := \<lparr>ctr_packets = ctr_packets c + 1, ctr_bits = ctr_bits c + bitlength p, ctr_id = fid\<rparr>])"

lemma flow_count_eq:
  assumes "packet_ok p" and "length m = FLOWTOP_NSLOTS"
  shows "flow_count p d m = Inr (counted d m p)"
  using assms flow_slot_lt
  by (auto simp: flow_count_def header_room flow_tuple_def counted_def flowtop_inc_def Let_def)

interpretation tp: packet_app "top_step d" "\<lambda>_. True" "\<lambda>m. length m = FLOWTOP_NSLOTS" "\<lambda>p. p" "\<lambda>_ p. [p]" "counted d" 0
  for d
proof unfold_locales
  fix out p w n and m :: flow_top
  assume h: "link_ok out" "packet_ok p" "length m = FLOWTOP_NSLOTS" "pool_ok w (Suc n)"
  from ch.send_ok [OF h(1,2,4)]
  show "\<exists>out' w' n'. top_step d p (out, w, m) = Inr (out', w', counted d m p) \<and> link_ok out' \<and>
      map (\<lambda>p. p) (contents out') = take LINK_MAX_PACKETS (map (\<lambda>p. p) (contents out) @ [p]) \<and>
      pool_ok w' n' \<and> n' + length (contents out) = n + length (contents out')"
    by (auto simp: top_step_def flow_count_eq [OF h(2,3)])
next
  fix m :: flow_top and p
  show "length m = FLOWTOP_NSLOTS \<Longrightarrow> length (counted d m p) = FLOWTOP_NSLOTS"
    by (simp add: counted_def Let_def case_prod_unfold)
qed

lemma sum_list_update_word:
  fixes f :: "'a \<Rightarrow> 'b::ab_group_add"
  shows "i < length xs \<Longrightarrow> f x = f (xs ! i) + c \<Longrightarrow> sum_list (map f (xs[i := x])) = sum_list (map f xs) + c"
proof (induction xs arbitrary: i)
  case (Cons a xs)
  then show ?case by (cases i) (simp_all add: ac_simps)
qed simp

lemma counted_totals:
  assumes "length m = FLOWTOP_NSLOTS"
  shows "sum_list (map ctr_packets (counted d m p)) = sum_list (map ctr_packets m) + 1"
    "sum_list (map ctr_bits (counted d m p)) = sum_list (map ctr_bits m) + bitlength p"
    "length (counted d m p) = FLOWTOP_NSLOTS"
  using assms flow_slot_lt
  by (simp_all add: counted_def Let_def case_prod_unfold sum_list_update_word)

lemma counted_all_totals:
  "length m = FLOWTOP_NSLOTS \<Longrightarrow>
   sum_list (map ctr_packets (foldl (counted d) m ps)) = sum_list (map ctr_packets m) + of_nat (length ps) \<and>
   sum_list (map ctr_bits (foldl (counted d) m ps)) = sum_list (map ctr_bits m) + sum_list (map bitlength ps)"
  by (induction ps arbitrary: m) (simp_all add: counted_totals)

text \<open>The app \<^verbatim>\<open>Split\<close> as a whole.\<close>

lemma split_push_ok:
  assumes "split_ok flows a i d" and "io_ok s n" and "length (contents (io_links s i)) \<le> n"
  shows "\<exists>s' n'. split_push flows a s = Inr s' \<and> io_ok s' n' \<and> n' \<le> n \<and> contents (io_links s' i) = [] \<and>
    (\<forall>j. j \<noteq> i \<longrightarrow> contents (io_links s' j) = take LINK_MAX_PACKETS (contents (io_links s j) @
      filter (\<lambda>p. split_route flows a d p = j) (contents (io_links s i))))"
proof -
  let ?ps = "contents (io_links s i)"
  have ok: "link_ok (io_links s i)" by (rule io_okD(1) [OF assms(2)])
  then have ps: "\<forall>p \<in> set ?ps. packet_ok p" using link_okD(5) by blast
  have "io_ok s (n - length ?ps + length ?ps)" using assms(2,3) by simp
  from split_steps_ok [OF assms(1) ps this] assms(3) obtain s1 n' where
    s1: "foldR (split_step flows a i d) ?ps s = Inr s1" "io_ok s1 n'" "n' \<le> n" "io_links s1 i = io_links s i"
      "\<forall>j. j \<noteq> i \<longrightarrow> contents (io_links s1 j) =
        take LINK_MAX_PACKETS (contents (io_links s j) @ filter (\<lambda>p. split_route flows a d p = j) ?ps)"
    by auto
  from drain_ok [OF ok s1(1)] obtain inp' where
    "drain (split_step flows a i d) (io_links s i) s = Inr (inp', s1)" "link_ok inp'" "contents inp' = []"
    by blast
  then have "split_push flows a s = Inr (s1\<lparr>io_links := (io_links s1)(i := inp')\<rparr>)"
    "io_ok (s1\<lparr>io_links := (io_links s1)(i := inp')\<rparr>) n'"
    using assms(1) s1(2) by (simp_all add: split_push_def split_ok_def io_ok_def)
  with s1 \<open>contents inp' = []\<close> show ?thesis
    by (intro exI [of _ "s1\<lparr>io_links := (io_links s1)(i := inp')\<rparr>"] exI [of _ n']) simp
qed

section \<open>Properties\<close>

text \<open>
  C18. The app \<^verbatim>\<open>Split\<close>: every packet of the input goes to the output of the first flow that matches it, and
  to the default output if none does. Each output receives its packets in their order on the input,
  up to its capacity. Needed is that the outputs of the flows exist and are distinct from the default
  output and the input: the borrow of a flow's output overlaps those.
\<close>

theorem split_push_routes:
  assumes "split_ok flows a i d" and "io_ok s n" and "length (contents (io_links s i)) \<le> n"
  shows "\<exists>s' n'. split_push flows a s = Inr s' \<and> io_ok s' n' \<and> n' \<le> n \<and> contents (io_links s' i) = [] \<and>
    (\<forall>j. j \<noteq> i \<longrightarrow> contents (io_links s' j) = take LINK_MAX_PACKETS (contents (io_links s j) @
      filter (\<lambda>p. split_route flows a d p = j) (contents (io_links s i))))"
  by (rule split_push_ok [OF assms])

definition demo_flow :: flow where
  "demo_flow = \<lparr>flow_label = ''http'', flow_dir = Dst, flow_ip = 0, flow_protocol = 6, flow_port_min = 0, flow_port_max = 80\<rparr>"

definition demo_split_ports :: ports where
  "demo_split_ports = \<lparr>app_input = [(''input'', 0)], app_output = [(''default'', 1), (''http'', 2)]\<rparr>"

theorem split_push_routes_witness:
  "\<exists>s'. split_push [demo_flow] demo_split_ports (demo_io (demo_packet 60 0)) = Inr s' \<and>
    contents (io_links s' 1) = [] \<and> contents (io_links s' 2) = [demo_packet 60 0]"
proof -
  have "tcp_dst_port (tcp_of (p_data (demo_packet 60 0))) = 0"
  proof -
    have "take 20 (drop 34 (p_data (demo_packet 60 0))) = replicate 16 0 @ wr16 (htons 0) @ replicate 2 0"
      by (simp add: demo_packet_def take_append)
    then show ?thesis
      by (simp add: header_ref_def header_slice_def header_sizes tcp_of_bytes_def rd16_def tcp_dst_port_def
          ntohs_def swap_bytes16_def numeral_eq_Suc)
  qed
  then have "flow_matches demo_flow (demo_packet 60 0)"
    by (simp add: flow_matches_def demo_packet_headers demo_flow_def tcp_port_def PROTOCOL_TCP_def PROTOCOL_UDP_def)
  then have r: "split_route [demo_flow] demo_split_ports 1 (demo_packet 60 0) = 2"
    by (simp add: split_route_def) (simp add: demo_flow_def demo_split_ports_def)
  have "split_ok [demo_flow] demo_split_ports 0 1"
    by (simp add: split_ok_def demo_flow_def demo_split_ports_def)
  from split_push_routes [OF this demo_io_ok(2) [OF demo_packet_ok], of 60 0] obtain s' where
    s': "split_push [demo_flow] demo_split_ports (demo_io (demo_packet 60 0)) = Inr s'"
      "\<forall>j. j \<noteq> 0 \<longrightarrow> contents (io_links s' j) = take LINK_MAX_PACKETS
        (filter (\<lambda>p. split_route [demo_flow] demo_split_ports 1 p = j) [demo_packet 60 0])"
    by (auto simp: demo_io_ok demo_packet_ok)
  show ?thesis
    using s'(1) s'(2) [rule_format, of 1] s'(2) [rule_format, of 2] r
    by (simp add: LINK_MAX_PACKETS_def LINK_RING_SIZE_def)
qed

text \<open>
  C32. Flow identifiers and their hash lose nothing: address, protocol and port can be read back from
  the identifier at the documented bit positions, and the hash is a bijection of 64-bit words, so
  that flows share a slot only because there are 2048 of them. A slot index is always in the table.
\<close>

theorem flow_id_roundtrip:
  "ucast (flow_id ip protocol port) = ip \<and> ucast (drop_bit 32 (flow_id ip protocol port)) = protocol \<and>
   ucast (drop_bit 48 (flow_id ip protocol port)) = port \<and> inj murmurhash64_mix64 \<and>
   flow_slot (flow_id ip protocol port) < FLOWTOP_NSLOTS"
  using inj_on_inverseI [of UNIV murmurhash64_inverse murmurhash64_mix64]
  by (simp add: flow_id_fields flow_slot_lt murmurhash64_inverse)

text \<open>
  C33. The app \<^verbatim>\<open>Top\<close> forwards all packets unchanged and accounts for each of them: the packet
  counters of the table grow by the number of packets in total, and the bit counters by their length
  on the wire.
\<close>

theorem top_push_counts:
  assumes "ports_ok a i j" and "io_ok s n" and "length (contents (io_links s i)) \<le> n"
    and "length m = FLOWTOP_NSLOTS"
  shows "\<exists>m' s' n'. top_push d m a s = Inr (m', s') \<and> io_ok s' n' \<and> contents (io_links s' i) = [] \<and>
    contents (io_links s' j) = take LINK_MAX_PACKETS (contents (io_links s j) @ contents (io_links s i)) \<and>
    length m' = FLOWTOP_NSLOTS \<and>
    sum_list (map ctr_packets m') = sum_list (map ctr_packets m) + of_nat (length (contents (io_links s i))) \<and>
    sum_list (map ctr_bits m') = sum_list (map ctr_bits m) + sum_list (map bitlength (contents (io_links s i)))"
proof -
  have "length (foldl (counted d) m ps) = FLOWTOP_NSLOTS" for ps
    using assms(4) by (induction ps arbitrary: m) (simp_all add: counted_totals)
  moreover have "emitted (\<lambda>_ p. [p]) (counted d) m ps = ps" for ps
    using emitted_map [of "\<lambda>p. p" "counted d" m ps] by simp
  ultimately show ?thesis
    using tp.push_ok [OF assms(1,2,4) _ _ assms(3), of d] counted_all_totals [OF assms(4)]
    by (auto simp: top_push_def)
qed

theorem top_push_counts_witness:
  "\<exists>m' s'. top_push Src (replicate 2048 \<lparr>ctr_packets = 0, ctr_bits = 0, ctr_id = 0\<rparr>) demo_ports
      (demo_io (demo_packet 60 0)) = Inr (m', s') \<and> contents (io_links s' 1) = [demo_packet 60 0] \<and>
    sum_list (map ctr_packets m') = 1"
  using top_push_counts [OF demo_io_ok(1) demo_io_ok(2) [OF demo_packet_ok], of 60 0
      "replicate 2048 \<lparr>ctr_packets = 0, ctr_bits = 0, ctr_id = 0\<rparr>" Src]
  by (auto simp: demo_io_ok demo_packet_ok FLOWTOP_NSLOTS_def LINK_MAX_PACKETS_def LINK_RING_SIZE_def
      sum_list_replicate)

end
