(* ===== verification/Basic_Apps.thy ===== *)
theory Basic_Apps
  imports App
begin

text \<open>
  \<^verbatim>\<open>rush/src/basic_apps.rs\<close>: the apps \<^verbatim>\<open>Source\<close>, \<^verbatim>\<open>Sink\<close>, \<^verbatim>\<open>Join\<close> and \<^verbatim>\<open>Tee\<close>. They iterate over the values of their port maps;
  the lists are in the order of that iteration, which the theorems leave open.
\<close>

declare length_contents [simp del] take_append [simp del]

section \<open>Source\<close>

text \<open>The loop \<^verbatim>\<open>for _ in 0..engine::PULL_NPACKETS\<close>.\<close>

fun source_fill :: "nat \<Rightarrow> u16 \<Rightarrow> link \<times> world \<Rightarrow> (link \<times> world) res" where
  "source_fill 0 sz (out, w) = Inr (out, w)"
| "source_fill (Suc n) sz (out, w) =
     bindR (allocate w) (\<lambda>(p, w).
     let p = p\<lparr>p_data := fill (p_data p) (unat sz) 0\<rparr>;
         p = p\<lparr>p_length := sz\<rparr>
     in bindR (transmit out p w) (source_fill n sz))"

definition source_pull :: "u16 \<Rightarrow> ports \<Rightarrow> io \<Rightarrow> io res" where
  "source_pull sz a s =
     foldR (\<lambda>(_, j) s.
       bindR (source_fill PULL_NPACKETS sz (io_links s j, io_world s)) (\<lambda>(out, w).
       Inr (s\<lparr>io_links := (io_links s)(j := out), io_world := w\<rparr>))) (app_output a) s"

section \<open>Sink\<close>

definition sink_push :: "ports \<Rightarrow> io \<Rightarrow> io res" where
  "sink_push a s =
     foldR (\<lambda>(_, i) s.
       bindR (drain free (io_links s i) (io_world s)) (\<lambda>(inp, w).
       Inr (s\<lparr>io_links := (io_links s)(i := inp), io_world := w\<rparr>))) (app_input a) s"

section \<open>Join\<close>

definition join_input :: "nat \<Rightarrow> nat \<Rightarrow> io \<Rightarrow> io res" where
  "join_input j i s =
     (if i = j then Inl Already_borrowed
      else bindR (drain (\<lambda>p (out, w). transmit out p w) (io_links s i) (io_links s j, io_world s)) (\<lambda>(inp, out, w).
        Inr (s\<lparr>io_links := (io_links s)(i := inp, j := out), io_world := w\<rparr>)))"

definition join_push :: "ports \<Rightarrow> io \<Rightarrow> io res" where
  "join_push a s =
     (case map_of (app_output a) ''output'' of
        None \<Rightarrow> Inr s
      | Some j \<Rightarrow> foldR (\<lambda>(_, i). join_input j i) (app_input a) s)"

section \<open>Tee\<close>

definition tee_output :: "nat \<Rightarrow> packet \<Rightarrow> nat \<Rightarrow> io \<Rightarrow> io res" where
  "tee_output i p j s =
     (if j = i then Inl Already_borrowed
      else bindR (clone p (io_world s)) (\<lambda>(q, w).
        bindR (transmit (io_links s j) q w) (\<lambda>(out, w).
        Inr (s\<lparr>io_links := (io_links s)(j := out), io_world := w\<rparr>))))"

definition tee_packet :: "ports \<Rightarrow> nat \<Rightarrow> packet \<Rightarrow> io \<Rightarrow> io res" where
  "tee_packet a i p s =
     bindR (foldR (\<lambda>(_, j). tee_output i p j) (app_output a) s) (\<lambda>s.
     bindR (free p (io_world s)) (\<lambda>w. Inr (s\<lparr>io_world := w\<rparr>)))"

definition tee_input :: "ports \<Rightarrow> nat \<Rightarrow> io \<Rightarrow> io res" where
  "tee_input a i s =
     bindR (drain (tee_packet a i) (io_links s i) s) (\<lambda>(inp, s).
     Inr (s\<lparr>io_links := (io_links s)(i := inp)\<rparr>))"

definition tee_push :: "ports \<Rightarrow> io \<Rightarrow> io res" where
  "tee_push a s = foldR (\<lambda>(_, i). tee_input a i) (app_input a) s"

section \<open>What they do\<close>

lemma foldR_snd: "foldR (\<lambda>(_, i). f i) xs s = foldR f (map snd xs) s"
  by (induction xs arbitrary: s) (auto simp: bindR_def split: sum.splits)

lemma source_fill_ok:
  assumes "link_ok out" and "pool_ok w n" and "n + (LINK_MAX_PACKETS - length (contents out)) < pool_max"
  shows "\<exists>out' w' n'. source_fill k sz (out, w) = Inr (out', w') \<and> link_ok out' \<and>
    map frame (contents out') =
      take LINK_MAX_PACKETS (map frame (contents out) @ replicate k (replicate (unat sz) 0)) \<and>
    pool_ok w' n' \<and> n' + length (contents out) = n + length (contents out')"
  using assms
proof (induction k arbitrary: out w n)
  case 0
  then show ?case using contents_bound [OF 0(1)] by auto
next
  case (Suc k)
  have "n < pool_max" using Suc.prems(3) by simp
  from allocate_ok [OF Suc.prems(2) this] obtain p w1 where
    p: "allocate w = Inr (p, w1)" "packet_ok p" "pool_ok w1 (Suc n)"
    by blast
  define q where "q = p\<lparr>p_data := fill (p_data p) (unat sz) 0, p_length := sz\<rparr>"
  have len: "unat sz \<le> length (p_data p)"
    using p(2) unat_u16_lt [of sz] by (simp add: packet_ok_def PAYLOAD_SIZE_def del: unat_u16_lt)
  then have q: "packet_ok q" "frame q = replicate (unat sz) 0"
    using p(2) by (simp_all add: q_def packet_ok_def frame_def fill_def Let_def min_def take_append)
  from ch.send_ok [OF Suc.prems(1) q(1) p(3)] obtain out1 w2 n1 where
    t: "transmit out q w1 = Inr (out1, w2)" "link_ok out1"
       "contents out1 = take LINK_MAX_PACKETS (contents out @ [q])" "pool_ok w2 n1"
       "n1 + length (contents out) + 1 = Suc n + length (contents out1)"
    by blast
  have grow: "length (contents out) \<le> length (contents out1)" "length (contents out1) \<le> LINK_MAX_PACKETS"
    using contents_bound [OF Suc.prems(1)] by (simp_all add: t(3) take_append)
  have "n1 + (LINK_MAX_PACKETS - length (contents out1)) < pool_max"
    using Suc.prems(3) t(5) grow by linarith
  from Suc.IH [OF t(2,4) this] obtain out' w' n' where
    r: "source_fill k sz (out1, w2) = Inr (out', w')" "link_ok out'"
      "map frame (contents out') =
        take LINK_MAX_PACKETS (map frame (contents out1) @ replicate k (replicate (unat sz) 0))"
      "pool_ok w' n'" "n' + length (contents out1) = n1 + length (contents out')"
    by blast
  have "map frame (contents out1) = take LINK_MAX_PACKETS (map frame (contents out) @ [replicate (unat sz) 0])"
    by (simp add: t(3) take_map [symmetric] q(2))
  then have "map frame (contents out') =
      take LINK_MAX_PACKETS (map frame (contents out) @ replicate (Suc k) (replicate (unat sz) 0))"
    unfolding r(3) by (simp add: take_take_append)
  moreover have "source_fill (Suc k) sz (out, w) = Inr (out', w')"
    using p(1) t(1) r(1) by (simp add: q_def Let_def)
  ultimately show ?case using r t(5) by auto
qed

text \<open>One input of \<^verbatim>\<open>Join\<close>.\<close>

lemma join_input_ok:
  assumes "i \<noteq> j" and "io_ok s n" and "length (contents (io_links s i)) \<le> n"
  shows "\<exists>s' n'. join_input j i s = Inr s' \<and> io_ok s' n' \<and> contents (io_links s' i) = [] \<and>
    contents (io_links s' j) = take LINK_MAX_PACKETS (contents (io_links s j) @ contents (io_links s i)) \<and>
    (\<forall>k. k \<noteq> i \<longrightarrow> k \<noteq> j \<longrightarrow> io_links s' k = io_links s k) \<and>
    n' + length (contents (io_links s i)) + length (contents (io_links s j)) =
      n + length (contents (io_links s' j))"
proof -
  let ?ps = "contents (io_links s i)"
  have ok: "link_ok (io_links s i)" "link_ok (io_links s j)" using assms(2) by (simp_all add: io_ok_def)
  have "\<forall>p \<in> set ?ps. packet_ok p" using link_okD(5) [OF ok(1)] by blast
  moreover have "pool_ok (io_world s) (n - length ?ps + length ?ps)"
    using assms(2,3) by (simp add: io_ok_def)
  ultimately obtain out' w' n' where
    f: "foldR (\<lambda>p (out, w). transmit out p w) ?ps (io_links s j, io_world s) = Inr (out', w')" "link_ok out'"
      "contents out' = take LINK_MAX_PACKETS (contents (io_links s j) @ ?ps)" "pool_ok w' n'"
      "n' + length (contents (io_links s j)) = n - length ?ps + length (contents out')"
    using ch.send_all [OF ok(2)] by blast
  from drain_ok [OF ok(1) f(1)] obtain inp' where
    d: "drain (\<lambda>p (out, w). transmit out p w) (io_links s i) (io_links s j, io_world s) = Inr (inp', out', w')"
      "link_ok inp'" "contents inp' = []"
    by blast
  let ?s = "s\<lparr>io_links := (io_links s)(i := inp', j := out'), io_world := w'\<rparr>"
  have "join_input j i s = Inr ?s" using assms(1) d(1) by (simp add: join_input_def)
  moreover have "io_ok ?s n'" using assms(2) f(2,4) d(2) by (simp add: io_ok_def)
  ultimately show ?thesis
    using f d(3) assms(1,3) by (intro exI [of _ ?s] exI [of _ n']) auto
qed

lemma join_inputs_ok:
  assumes "j \<notin> set is" and "distinct is" and "io_ok s n"
    and "sum_list (map (\<lambda>i. length (contents (io_links s i))) is) \<le> n"
  shows "\<exists>s' n'. foldR (join_input j) is s = Inr s' \<and> io_ok s' n' \<and> n' \<le> n \<and>
    (\<forall>i \<in> set is. contents (io_links s' i) = []) \<and>
    contents (io_links s' j) = take LINK_MAX_PACKETS
      (contents (io_links s j) @ concat (map (\<lambda>i. contents (io_links s i)) is)) \<and>
    (\<forall>k. k \<notin> set is \<longrightarrow> k \<noteq> j \<longrightarrow> io_links s' k = io_links s k) \<and>
    n' + sum_list (map (\<lambda>i. length (contents (io_links s i))) is) + length (contents (io_links s j)) =
      n + length (contents (io_links s' j))"
  using assms
proof (induction "is" arbitrary: s n)
  case Nil
  then show ?case using contents_bound [OF io_okD(1) [OF Nil.prems(3)]] by auto
next
  case (Cons i "is")
  have "i \<noteq> j" "length (contents (io_links s i)) \<le> n" using Cons.prems(1,4) by auto
  from join_input_ok [OF this(1) Cons.prems(3) this(2)] obtain s1 n1 where
    1: "join_input j i s = Inr s1" "io_ok s1 n1" "contents (io_links s1 i) = []"
      "contents (io_links s1 j) = take LINK_MAX_PACKETS (contents (io_links s j) @ contents (io_links s i))"
      "\<forall>k. k \<noteq> i \<longrightarrow> k \<noteq> j \<longrightarrow> io_links s1 k = io_links s k"
      "n1 + length (contents (io_links s i)) + length (contents (io_links s j)) =
        n + length (contents (io_links s1 j))"
    by blast
  have same: "map (\<lambda>i. contents (io_links s1 i)) is = map (\<lambda>i. contents (io_links s i)) is"
    using Cons.prems(1,2) 1(5) by (intro map_cong) auto
  then have lens: "map (\<lambda>i. length (contents (io_links s1 i))) is = map (\<lambda>i. length (contents (io_links s i))) is"
    using Cons.prems(1,2) 1(5) by (intro map_cong) auto
  have grow: "length (contents (io_links s j)) \<le> length (contents (io_links s1 j))" and n1: "n1 \<le> n"
    using contents_bound [OF io_okD(1) [OF Cons.prems(3)], of j] 1(6) by (simp_all add: 1(4) take_append)
  from grow have "sum_list (map (\<lambda>i. length (contents (io_links s1 i))) is) \<le> n1"
    using Cons.prems(4) 1(6) unfolding lens by simp
  from Cons.IH [OF _ _ 1(2) this] Cons.prems(1,2) obtain s' n' where
    2: "foldR (join_input j) is s1 = Inr s'" "io_ok s' n'" "n' \<le> n1" "\<forall>i \<in> set is. contents (io_links s' i) = []"
      "contents (io_links s' j) = take LINK_MAX_PACKETS
        (contents (io_links s1 j) @ concat (map (\<lambda>i. contents (io_links s1 i)) is))"
      "\<forall>k. k \<notin> set is \<longrightarrow> k \<noteq> j \<longrightarrow> io_links s' k = io_links s1 k"
      "n' + sum_list (map (\<lambda>i. length (contents (io_links s1 i))) is) + length (contents (io_links s1 j)) =
        n1 + length (contents (io_links s' j))"
    by auto
  have "n' + sum_list (map (\<lambda>i. length (contents (io_links s i))) (i # is)) + length (contents (io_links s j)) =
      n + length (contents (io_links s' j))"
    using 2(7) 1(6) unfolding lens by simp
  moreover have "contents (io_links s' i) = []" using 2(6) 1(3) Cons.prems(1,2) by auto
  moreover have "contents (io_links s' j) = take LINK_MAX_PACKETS
      (contents (io_links s j) @ concat (map (\<lambda>i. contents (io_links s i)) (i # is)))"
    unfolding 2(5) 1(4) same by (simp add: take_take_append)
  ultimately show ?case
    using 1(1,5) 2(1-4,6) n1 by (intro exI [of _ s'] exI [of _ n']) auto
qed

text \<open>
  \<^verbatim>\<open>Tee\<close> allocates a packet per output. The room that is left on the outputs bounds how many of these
  stay in use.
\<close>

definition room :: "io \<Rightarrow> nat list \<Rightarrow> nat" where
  "room s js = sum_list (map (\<lambda>j. LINK_MAX_PACKETS - length (contents (io_links s j))) js)"

lemma clone_frame:
  assumes "pool_ok w n" and "n < pool_max" and "packet_ok p"
  shows "\<exists>q w'. clone p w = Inr (q, w') \<and> packet_ok q \<and> frame q = frame p \<and> pool_ok w' (Suc n)"
  using clone_ok [OF assms] by (auto simp: frame_def)

lemma tee_output_ok:
  assumes "j \<noteq> i" and "io_ok s n" and "n < pool_max" and "packet_ok p"
  shows "\<exists>s' n'. tee_output i p j s = Inr s' \<and> io_ok s' n' \<and>
    map frame (contents (io_links s' j)) = take LINK_MAX_PACKETS (map frame (contents (io_links s j)) @ [frame p]) \<and>
    (\<forall>k. k \<noteq> j \<longrightarrow> io_links s' k = io_links s k) \<and>
    n' + length (contents (io_links s j)) = n + length (contents (io_links s' j))"
proof -
  obtain q w where q: "clone p (io_world s) = Inr (q, w)" "packet_ok q" "frame q = frame p" "pool_ok w (Suc n)"
    using clone_frame [OF io_okD(2) [OF assms(2)] assms(3,4)] by blast
  from ch.send_ok [OF io_okD(1) [OF assms(2)] q(2,4), of j] obtain out' w' n' where
    t: "transmit (io_links s j) q w = Inr (out', w')" "link_ok out'"
       "contents out' = take LINK_MAX_PACKETS (contents (io_links s j) @ [q])" "pool_ok w' n'"
       "n' + length (contents (io_links s j)) + 1 = Suc n + length (contents out')"
    by blast
  let ?s = "s\<lparr>io_links := (io_links s)(j := out'), io_world := w'\<rparr>"
  have "tee_output i p j s = Inr ?s" using assms(1) q(1) t(1) by (simp add: tee_output_def)
  moreover have "io_ok ?s n'" using assms(2) t(2,4) by (simp add: io_ok_def)
  moreover have "map frame (contents out') = take LINK_MAX_PACKETS (map frame (contents (io_links s j)) @ [frame p])"
    by (simp add: t(3) take_map [symmetric] q(3))
  ultimately show ?thesis using t(5) by (intro exI [of _ ?s] exI [of _ n']) simp
qed

lemma room_le: "room s js \<le> length js * LINK_MAX_PACKETS"
  by (induction js) (auto simp: room_def)

lemma room_cong:
  "(\<And>j. j \<in> set js \<Longrightarrow> contents (io_links s' j) = contents (io_links s j)) \<Longrightarrow> room s' js = room s js"
  unfolding room_def by (intro arg_cong [of _ _ sum_list] map_cong) auto

lemma tee_outputs_ok:
  assumes "i \<notin> set js" and "distinct js" and "io_ok s n" and "n + room s js < pool_max" and "packet_ok p"
  shows "\<exists>s' n'. foldR (tee_output i p) js s = Inr s' \<and> io_ok s' n' \<and> n' + room s' js = n + room s js \<and> n \<le> n' \<and>
    (\<forall>j \<in> set js. map frame (contents (io_links s' j)) =
      take LINK_MAX_PACKETS (map frame (contents (io_links s j)) @ [frame p])) \<and>
    (\<forall>k. k \<notin> set js \<longrightarrow> io_links s' k = io_links s k)"
  using assms
proof (induction js arbitrary: s n)
  case (Cons j js)
  have "j \<noteq> i" "n < pool_max" using Cons.prems(1,4) by auto
  from tee_output_ok [OF this(1) Cons.prems(3) this(2) Cons.prems(5)] obtain s1 n1 where
    1: "tee_output i p j s = Inr s1" "io_ok s1 n1"
      "map frame (contents (io_links s1 j)) = take LINK_MAX_PACKETS (map frame (contents (io_links s j)) @ [frame p])"
      "\<forall>k. k \<noteq> j \<longrightarrow> io_links s1 k = io_links s k"
      "n1 + length (contents (io_links s j)) = n + length (contents (io_links s1 j))"
    by blast
  have r1: "room s1 js = room s js" using Cons.prems(2) 1(4) by (intro room_cong) auto
  have le: "length (contents (io_links s j)) \<le> length (contents (io_links s1 j))"
    "length (contents (io_links s1 j)) \<le> LINK_MAX_PACKETS"
    using arg_cong [OF 1(3), of length] contents_bound [OF io_okD(1) [OF Cons.prems(3)], of j]
    by (simp_all add: take_append)
  then have sum: "n1 + room s1 (j # js) = n + room s (j # js)" "n \<le> n1"
    using 1(5) r1 by (simp_all add: room_def)
  then have "n1 + room s1 js < pool_max" using Cons.prems(4) by (simp add: room_def)
  from Cons.IH [OF _ _ 1(2) this Cons.prems(5)] Cons.prems(1,2) obtain s' n' where
    2: "foldR (tee_output i p) js s1 = Inr s'" "io_ok s' n'" "n' + room s' js = n1 + room s1 js" "n1 \<le> n'"
      "\<forall>j \<in> set js. map frame (contents (io_links s' j)) =
        take LINK_MAX_PACKETS (map frame (contents (io_links s1 j)) @ [frame p])"
      "\<forall>k. k \<notin> set js \<longrightarrow> io_links s' k = io_links s1 k"
    by auto
  have j: "io_links s' j = io_links s1 j" using 2(6) Cons.prems(2) by simp
  have js: "io_links s1 k = io_links s k" if "k \<in> set js" for k
    using that 1(4) Cons.prems(2) by auto
  have "n' + room s' (j # js) = n + room s (j # js)"
    using 2(3) sum(1) j by (simp add: room_def)
  then show ?case
    using 1 2 sum(2) j js by (intro exI [of _ s'] exI [of _ n']) auto
qed (auto simp: room_def)

lemma tee_packet_ok:
  assumes "i \<notin> set (map snd (app_output a))" and "distinct (map snd (app_output a))"
    and "io_ok s (Suc n)" and "Suc n + room s (map snd (app_output a)) < pool_max" and "packet_ok p"
  shows "\<exists>s' n'. tee_packet a i p s = Inr s' \<and> io_ok s' n' \<and> n \<le> n' \<and>
    n' + room s' (map snd (app_output a)) = n + room s (map snd (app_output a)) \<and>
    (\<forall>j \<in> set (map snd (app_output a)). map frame (contents (io_links s' j)) =
      take LINK_MAX_PACKETS (map frame (contents (io_links s j)) @ [frame p])) \<and>
    (\<forall>k. k \<notin> set (map snd (app_output a)) \<longrightarrow> io_links s' k = io_links s k)"
proof -
  obtain s1 n1 where
    1: "foldR (tee_output i p) (map snd (app_output a)) s = Inr s1" "io_ok s1 n1"
      "n1 + room s1 (map snd (app_output a)) = Suc n + room s (map snd (app_output a))" "Suc n \<le> n1"
      "\<forall>j \<in> set (map snd (app_output a)). map frame (contents (io_links s1 j)) =
        take LINK_MAX_PACKETS (map frame (contents (io_links s j)) @ [frame p])"
      "\<forall>k. k \<notin> set (map snd (app_output a)) \<longrightarrow> io_links s1 k = io_links s k"
    using tee_outputs_ok [OF assms] by blast
  obtain m where m: "n1 = Suc m" using 1(4) by (cases n1) auto
  have f: "free p (io_world s1) = Inr (freed p (io_world s1))" "pool_ok (freed p (io_world s1)) m"
    using free_ok [of "io_world s1" m] freed_pool_ok [OF _ assms(5)] 1(2) by (simp_all add: io_ok_def m)
  let ?s = "s1\<lparr>io_world := freed p (io_world s1)\<rparr>"
  have "tee_packet a i p s = Inr ?s"
    using 1(1) f(1) by (simp add: tee_packet_def foldR_snd)
  moreover have "io_ok ?s m" using 1(2) f(2) by (simp add: io_ok_def)
  moreover have "room ?s js = room s1 js" for js by (simp add: room_def)
  ultimately show ?thesis
    using 1(3-6) m by (intro exI [of _ ?s] exI [of _ m]) simp
qed

text \<open>What a sequence of packets leaves on the outputs.\<close>

definition teed :: "io \<Rightarrow> nat list \<Rightarrow> packet list \<Rightarrow> io \<Rightarrow> bool" where
  "teed s js ps s' \<longleftrightarrow>
     (\<forall>j \<in> set js. map frame (contents (io_links s' j)) =
       take LINK_MAX_PACKETS (map frame (contents (io_links s j)) @ map frame ps))"

lemma teed_Nil: "io_ok s n \<Longrightarrow> teed s js [] s"
  using contents_bound [OF io_okD(1)] by (simp add: teed_def)

lemma teed_trans: "teed s js ps s1 \<Longrightarrow> teed s1 js qs s2 \<Longrightarrow> teed s js (ps @ qs) s2"
  by (simp add: teed_def take_take_append)

lemma tee_packets_ok:
  assumes "i \<notin> set (map snd (app_output a))" and "distinct (map snd (app_output a))"
    and "io_ok s (n + length ps)" and "n + length ps + room s (map snd (app_output a)) < pool_max"
    and "\<forall>p \<in> set ps. packet_ok p"
  shows "\<exists>s' n'. foldR (tee_packet a i) ps s = Inr s' \<and> io_ok s' n' \<and> n \<le> n' \<and>
    n' + room s' (map snd (app_output a)) = n + room s (map snd (app_output a)) \<and>
    teed s (map snd (app_output a)) ps s' \<and>
    (\<forall>k. k \<notin> set (map snd (app_output a)) \<longrightarrow> io_links s' k = io_links s k)"
  using assms(3-5)
proof (induction ps arbitrary: s n)
  case Nil
  then show ?case using teed_Nil [OF Nil.prems(1)] by auto
next
  case (Cons p ps)
  let ?js = "map snd (app_output a)"
  have "io_ok s (Suc (n + length ps))" "Suc (n + length ps) + room s ?js < pool_max" "packet_ok p"
    using Cons.prems by simp_all
  from tee_packet_ok [OF assms(1,2) this] obtain s1 n1 where
    1: "tee_packet a i p s = Inr s1" "io_ok s1 n1" "n + length ps \<le> n1"
      "n1 + room s1 ?js = n + length ps + room s ?js" "teed s ?js [p] s1"
      "\<forall>k. k \<notin> set ?js \<longrightarrow> io_links s1 k = io_links s k"
    unfolding teed_def by auto
  obtain m where m: "n1 = m + length ps" "n \<le> m" using 1(3) by (intro that [of "n1 - length ps"]) auto
  have "m + length ps + room s1 ?js < pool_max" using Cons.prems(2) 1(4) m by simp
  from Cons.IH [of s1 m, OF _ this] 1(2) m Cons.prems(3) obtain s' n' where
    2: "foldR (tee_packet a i) ps s1 = Inr s'" "io_ok s' n'" "m \<le> n'" "n' + room s' ?js = m + room s1 ?js"
      "teed s1 ?js ps s'" "\<forall>k. k \<notin> set ?js \<longrightarrow> io_links s' k = io_links s1 k"
    by auto
  have "teed s ?js (p # ps) s'" using teed_trans [OF 1(5) 2(5)] by simp
  then show ?case
    using 1 2 m by (intro exI [of _ s'] exI [of _ n']) auto
qed

lemma tee_input_ok:
  assumes "i \<notin> set (map snd (app_output a))" and "distinct (map snd (app_output a))"
    and "io_ok s n" and "n + room s (map snd (app_output a)) < pool_max" and "length (contents (io_links s i)) \<le> n"
  shows "\<exists>inp' s' n'. drain (tee_packet a i) (io_links s i) s = Inr (inp', s') \<and>
    io_ok (s'\<lparr>io_links := (io_links s')(i := inp')\<rparr>) n' \<and> contents inp' = [] \<and>
    n' + room s' (map snd (app_output a)) + length (contents (io_links s i)) = n + room s (map snd (app_output a)) \<and>
    n \<le> n' + length (contents (io_links s i)) \<and>
    teed s (map snd (app_output a)) (contents (io_links s i)) s' \<and>
    (\<forall>k. k \<notin> set (map snd (app_output a)) \<longrightarrow> io_links s' k = io_links s k)"
proof -
  let ?ps = "contents (io_links s i)"
  have ok: "link_ok (io_links s i)" by (rule io_okD(1) [OF assms(3)])
  have "io_ok s (n - length ?ps + length ?ps)"
    "n - length ?ps + length ?ps + room s (map snd (app_output a)) < pool_max"
    using assms(3-5) by simp_all
  moreover have "\<forall>p \<in> set ?ps. packet_ok p" using link_okD(5) [OF ok] by blast
  ultimately obtain s' n' where
    f: "foldR (tee_packet a i) ?ps s = Inr s'" "io_ok s' n'" "n - length ?ps \<le> n'"
      "n' + room s' (map snd (app_output a)) = n - length ?ps + room s (map snd (app_output a))"
      "teed s (map snd (app_output a)) ?ps s'"
      "\<forall>k. k \<notin> set (map snd (app_output a)) \<longrightarrow> io_links s' k = io_links s k"
    using tee_packets_ok [OF assms(1,2)] by blast
  from drain_ok [OF ok f(1)] obtain inp' where
    "drain (tee_packet a i) (io_links s i) s = Inr (inp', s')" "link_ok inp'" "contents inp' = []"
    by blast
  then show ?thesis
    using f assms(5) by (intro exI [of _ inp'] exI [of _ s'] exI [of _ n']) (auto simp: io_ok_def)
qed

lemma tee_inputs_ok:
  assumes "set is \<inter> set (map snd (app_output a)) = {}" and "distinct (map snd (app_output a))" and "distinct is"
    and "io_ok s n" and "n + room s (map snd (app_output a)) < pool_max"
    and "sum_list (map (\<lambda>i. length (contents (io_links s i))) is) \<le> n"
  shows "\<exists>s' n'. foldR (tee_input a) is s = Inr s' \<and> io_ok s' n' \<and> n' \<le> n + room s (map snd (app_output a)) \<and>
    (\<forall>i \<in> set is. contents (io_links s' i) = []) \<and>
    teed s (map snd (app_output a)) (concat (map (\<lambda>i. contents (io_links s i)) is)) s' \<and>
    (\<forall>k. k \<notin> set is \<longrightarrow> k \<notin> set (map snd (app_output a)) \<longrightarrow> io_links s' k = io_links s k) \<and>
    n' + sum_list (map (\<lambda>i. length (contents (io_links s i))) is) + room s' (map snd (app_output a)) =
      n + room s (map snd (app_output a))"
  using assms(1,3-6)
proof (induction "is" arbitrary: s n)
  case Nil
  then show ?case using teed_Nil [OF Nil.prems(3)] by auto
next
  case (Cons i "is")
  let ?js = "map snd (app_output a)"
  have "i \<notin> set ?js" "length (contents (io_links s i)) \<le> n" using Cons.prems(1,5) by auto
  from tee_input_ok [OF this(1) assms(2) Cons.prems(3,4) this(2)] obtain inp' s1 n1 where
    1: "drain (tee_packet a i) (io_links s i) s = Inr (inp', s1)"
      "io_ok (s1\<lparr>io_links := (io_links s1)(i := inp')\<rparr>) n1" "contents inp' = []"
      "n1 + room s1 ?js + length (contents (io_links s i)) = n + room s ?js"
      "n \<le> n1 + length (contents (io_links s i))"
      "teed s ?js (contents (io_links s i)) s1" "\<forall>k. k \<notin> set ?js \<longrightarrow> io_links s1 k = io_links s k"
    by blast
  let ?s = "s1\<lparr>io_links := (io_links s1)(i := inp')\<rparr>"
  have i: "i \<notin> set ?js" using Cons.prems(1) by auto
  have r: "room ?s ?js = room s1 ?js" using i by (intro room_cong) auto
  have t: "teed s ?js (contents (io_links s i)) ?s" using 1(6) i by (auto simp: teed_def)
  have same: "map (\<lambda>i. contents (io_links ?s i)) is = map (\<lambda>i. contents (io_links s i)) is"
    "map (\<lambda>i. length (contents (io_links ?s i))) is = map (\<lambda>i. length (contents (io_links s i))) is"
    using Cons.prems(1,2) 1(7) by (intro map_cong; fastforce)+
  have "n1 + room ?s ?js < pool_max" using Cons.prems(4) 1(4) unfolding r by simp
  moreover have "sum_list (map (\<lambda>i. length (contents (io_links ?s i))) is) \<le> n1"
    using Cons.prems(5) 1(5) unfolding same(2) by simp
  moreover have "set is \<inter> set ?js = {}" "distinct is" using Cons.prems(1,2) by auto
  ultimately obtain s' n' where
    2: "foldR (tee_input a) is ?s = Inr s'" "io_ok s' n'" "n' \<le> n1 + room ?s ?js"
      "\<forall>i \<in> set is. contents (io_links s' i) = []"
      "teed ?s ?js (concat (map (\<lambda>i. contents (io_links ?s i)) is)) s'"
      "\<forall>k. k \<notin> set is \<longrightarrow> k \<notin> set ?js \<longrightarrow> io_links s' k = io_links ?s k"
      "n' + sum_list (map (\<lambda>i. length (contents (io_links ?s i))) is) + room s' ?js = n1 + room ?s ?js"
    using Cons.IH [OF _ _ 1(2)] by blast
  have "n' + sum_list (map (\<lambda>i. length (contents (io_links s i))) (i # is)) + room s' ?js = n + room s ?js"
    using 2(7) 1(4) unfolding same(2) r by simp
  moreover have step: "tee_input a i s = Inr ?s" using 1(1) by (simp add: tee_input_def)
  moreover have "contents (io_links s' i) = []" using 2(6) i 1(3) Cons.prems(2) by simp
  moreover have "teed s ?js (concat (map (\<lambda>i. contents (io_links s i)) (i # is))) s'"
    using teed_trans [OF t 2(5)] unfolding same(1) by simp
  ultimately show ?case
    using 1(4,7) 2(1-4,6) r by (intro exI [of _ s'] exI [of _ n']) auto
qed

text \<open>The room that the outputs lose is taken by the packets that they get.\<close>

lemma room_contents:
  assumes "io_ok s n"
  shows "room s js + sum_list (map (\<lambda>j. length (contents (io_links s j))) js) = length js * LINK_MAX_PACKETS"
proof (induction js)
  case (Cons j js)
  have "room s (j # js) + length (contents (io_links s j)) = LINK_MAX_PACKETS + room s js"
    using contents_bound [OF io_okD(1) [OF assms], of j] by (simp add: room_def)
  with Cons.IH show ?case by simp
qed (simp add: room_def)

text \<open>\<^verbatim>\<open>Source\<close> and \<^verbatim>\<open>Sink\<close>.\<close>

lemma source_outputs_ok:
  assumes "distinct js" and "io_ok s n" and "n + room s js < pool_max"
  shows "\<exists>s' n'. foldR (\<lambda>j s. bindR (source_fill k sz (io_links s j, io_world s)) (\<lambda>(out, w).
      Inr (s\<lparr>io_links := (io_links s)(j := out), io_world := w\<rparr>))) js s = Inr s' \<and> io_ok s' n' \<and> n' \<le> n + room s js \<and>
    (\<forall>j \<in> set js. map frame (contents (io_links s' j)) =
      take LINK_MAX_PACKETS (map frame (contents (io_links s j)) @ replicate k (replicate (unat sz) 0))) \<and>
    (\<forall>h. h \<notin> set js \<longrightarrow> io_links s' h = io_links s h)"
  using assms
proof (induction js arbitrary: s n)
  case (Cons j js)
  let ?r = "LINK_MAX_PACKETS - length (contents (io_links s j))"
  have room: "room s (j # js) = ?r + room s js" by (simp add: room_def)
  from source_fill_ok [OF io_okD [OF Cons.prems(2)], of j k sz] Cons.prems(3) room obtain out w n1 where
    f: "source_fill k sz (io_links s j, io_world s) = Inr (out, w)" "link_ok out" "pool_ok w n1"
      "map frame (contents out) = take LINK_MAX_PACKETS (map frame (contents (io_links s j)) @ replicate k (replicate (unat sz) 0))"
      "n1 + length (contents (io_links s j)) = n + length (contents out)"
    by auto
  let ?s = "s\<lparr>io_links := (io_links s)(j := out), io_world := w\<rparr>"
  have ok: "io_ok ?s n1" using Cons.prems(2) f(2,3) by (simp add: io_ok_def)
  have r: "room ?s js = room s js" using Cons.prems(1) by (intro room_cong) auto
  have n1: "n1 \<le> n + ?r" using f(5) contents_bound [OF f(2)] by linarith
  have pm: "n1 + room ?s js < pool_max" using Cons.prems(3) n1 room unfolding r by linarith
  have dist: "distinct js" using Cons.prems(1) by simp
  from Cons.IH [OF dist ok pm, unfolded r] obtain s' n' where
    i: "foldR (\<lambda>j s. bindR (source_fill k sz (io_links s j, io_world s)) (\<lambda>(out, w).
        Inr (s\<lparr>io_links := (io_links s)(j := out), io_world := w\<rparr>))) js ?s = Inr s'" "io_ok s' n'" "n' \<le> n1 + room s js"
      "\<forall>j \<in> set js. map frame (contents (io_links s' j)) =
        take LINK_MAX_PACKETS (map frame (contents (io_links ?s j)) @ replicate k (replicate (unat sz) 0))"
      "\<forall>h. h \<notin> set js \<longrightarrow> io_links s' h = io_links ?s h"
    by blast
  show ?case
    by (intro exI [of _ s'] exI [of _ n'] conjI; (simp only: foldR.simps f(1) bindR_simps prod.case i(1,2))?)
      (use i(3-5) f(4) Cons.prems(1) n1 room in auto)
qed auto

lemma sink_inputs_ok:
  assumes "distinct is" and "io_ok s n" and "sum_list (map (\<lambda>i. length (contents (io_links s i))) is) \<le> n"
  shows "\<exists>s' n'. foldR (\<lambda>i s. bindR (drain free (io_links s i) (io_world s)) (\<lambda>(inp, w).
      Inr (s\<lparr>io_links := (io_links s)(i := inp), io_world := w\<rparr>))) is s = Inr s' \<and> io_ok s' n' \<and> n' \<le> n \<and>
    (\<forall>i \<in> set is. contents (io_links s' i) = []) \<and> (\<forall>h. h \<notin> set is \<longrightarrow> io_links s' h = io_links s h)"
  using assms
proof (induction "is" arbitrary: s n)
  case (Cons i "is")
  let ?ps = "contents (io_links s i)"
  have frees: "\<exists>w'. foldR free ps w = Inr w' \<and> pool_ok w' m" if "pool_ok w (m + length ps)" "\<forall>p \<in> set ps. packet_ok p" for ps w m
    using that
  proof (induction ps arbitrary: w)
    case (Cons p ps)
    have "pool_ok w (Suc (m + length ps))" using Cons.prems(1) by simp
    then show ?case using Cons.IH [of "freed p w"] Cons.prems(2) by (simp add: free_ok freed_pool_ok)
  qed simp
  have link: "link_ok (io_links s i)" by (rule io_okD(1) [OF Cons.prems(2)])
  have "pool_ok (io_world s) (n - length ?ps + length ?ps)" using io_okD(2) [OF Cons.prems(2)] Cons.prems(3) by simp
  from frees [OF this] link_okD(5) [OF link] obtain w where w: "foldR free ?ps (io_world s) = Inr w" "pool_ok w (n - length ?ps)"
    by blast
  from drain_ok [OF link w(1)] obtain inp where
    d: "drain free (io_links s i) (io_world s) = Inr (inp, w)" "link_ok inp" "contents inp = []"
    by blast
  let ?s = "s\<lparr>io_links := (io_links s)(i := inp), io_world := w\<rparr>"
  have ok: "io_ok ?s (n - length ?ps)" using Cons.prems(2) w(2) d(2) by (simp add: io_ok_def)
  have same: "map (\<lambda>i. length (contents (io_links ?s i))) is = map (\<lambda>i. length (contents (io_links s i))) is"
    using Cons.prems(1) by (intro map_cong) auto
  have sum: "sum_list (map (\<lambda>i. length (contents (io_links ?s i))) is) \<le> n - length ?ps"
    using Cons.prems(3) unfolding same by simp
  have dist: "distinct is" using Cons.prems(1) by simp
  from Cons.IH [OF dist ok sum] obtain s' n' where
    i: "foldR (\<lambda>i s. bindR (drain free (io_links s i) (io_world s)) (\<lambda>(inp, w).
        Inr (s\<lparr>io_links := (io_links s)(i := inp), io_world := w\<rparr>))) is ?s = Inr s'" "io_ok s' n'" "n' \<le> n - length ?ps"
      "\<forall>i \<in> set is. contents (io_links s' i) = []" "\<forall>h. h \<notin> set is \<longrightarrow> io_links s' h = io_links ?s h"
    by blast
  show ?case
    by (intro exI [of _ s'] exI [of _ n'] conjI; (simp only: foldR.simps d(1) bindR_simps prod.case i(1,2))?)
      (use i(3-5) d(3) Cons.prems(1) in auto)
qed auto

section \<open>Properties\<close>

text \<open>
  C34. The app \<^verbatim>\<open>Join\<close>: whatever the order in which the inputs are visited, the output receives the
  packets of the inputs one input after the other, each in order, up to its capacity, and all inputs
  are empty afterwards.
\<close>

theorem join_push_concatenates:
  assumes "map_of (app_output a) ''output'' = Some j" and "j \<notin> set (map snd (app_input a))"
    and "distinct (map snd (app_input a))" and "io_ok s n"
    and "sum_list (map (\<lambda>i. length (contents (io_links s i))) (map snd (app_input a))) \<le> n"
  shows "\<exists>s' n'. join_push a s = Inr s' \<and> io_ok s' n' \<and>
    (\<forall>i \<in> set (map snd (app_input a)). contents (io_links s' i) = []) \<and>
    contents (io_links s' j) = take LINK_MAX_PACKETS
      (contents (io_links s j) @ concat (map (\<lambda>i. contents (io_links s i)) (map snd (app_input a)))) \<and>
    (\<forall>k. k \<notin> set (map snd (app_input a)) \<longrightarrow> k \<noteq> j \<longrightarrow> io_links s' k = io_links s k) \<and>
    n' + sum_list (map (\<lambda>i. length (contents (io_links s i))) (map snd (app_input a))) + length (contents (io_links s j)) =
      n + length (contents (io_links s' j))"
  using join_inputs_ok [OF assms(2-5)] by (auto simp: join_push_def assms(1) foldR_snd)

theorem join_push_concatenates_witness:
  "\<exists>s'. join_push demo_ports (demo_io new_packet_noroot) = Inr s' \<and> contents (io_links s' 1) = [new_packet_noroot]"
  using join_push_concatenates [of demo_ports 1 "demo_io new_packet_noroot" 1]
  by (auto simp: demo_io_ok demo_io_ok(2) [unfolded One_nat_def] demo_ports_def LINK_MAX_PACKETS_def LINK_RING_SIZE_def)

text \<open>
  C35. The app \<^verbatim>\<open>Tee\<close>: every output receives, up to its capacity, a copy of every packet of every input,
  byte for byte; the inputs are empty afterwards, other links are as before, and the originals return to the freelist: the packets in use
  grow by what the outputs gain and shrink by what was on the inputs. Enough packets must be left in the pool to fill the outputs.
\<close>

theorem tee_push_copies:
  assumes "set (map snd (app_input a)) \<inter> set (map snd (app_output a)) = {}"
    and "distinct (map snd (app_output a))" and "distinct (map snd (app_input a))" and "io_ok s n"
    and "n + length (app_output a) * LINK_MAX_PACKETS < pool_max"
    and "sum_list (map (\<lambda>i. length (contents (io_links s i))) (map snd (app_input a))) \<le> n"
  shows "\<exists>s' n'. tee_push a s = Inr s' \<and> io_ok s' n' \<and>
    (\<forall>i \<in> set (map snd (app_input a)). contents (io_links s' i) = []) \<and>
    (\<forall>j \<in> set (map snd (app_output a)). map frame (contents (io_links s' j)) =
      take LINK_MAX_PACKETS (map frame (contents (io_links s j)) @
        map frame (concat (map (\<lambda>i. contents (io_links s i)) (map snd (app_input a)))))) \<and>
    (\<forall>k. k \<notin> set (map snd (app_input a)) \<longrightarrow> k \<notin> set (map snd (app_output a)) \<longrightarrow> io_links s' k = io_links s k) \<and>
    n' + sum_list (map (\<lambda>i. length (contents (io_links s i))) (map snd (app_input a))) +
        sum_list (map (\<lambda>j. length (contents (io_links s j))) (map snd (app_output a))) =
      n + sum_list (map (\<lambda>j. length (contents (io_links s' j))) (map snd (app_output a)))"
proof -
  let ?is = "map snd (app_input a)" and ?js = "map snd (app_output a)"
  from room_le [of s ?js] have "n + room s ?js < pool_max" using assms(5) by simp
  from tee_inputs_ok [OF assms(1-4) this assms(6)] obtain s' n' where
    t: "foldR (tee_input a) ?is s = Inr s'" "io_ok s' n'" "\<forall>i \<in> set ?is. contents (io_links s' i) = []"
      "teed s ?js (concat (map (\<lambda>i. contents (io_links s i)) ?is)) s'"
      "\<forall>k. k \<notin> set ?is \<longrightarrow> k \<notin> set ?js \<longrightarrow> io_links s' k = io_links s k"
      "n' + sum_list (map (\<lambda>i. length (contents (io_links s i))) ?is) + room s' ?js = n + room s ?js"
    by blast
  have "tee_push a s = Inr s'" using t(1) by (simp add: tee_push_def foldR_snd)
  moreover have "n' + sum_list (map (\<lambda>i. length (contents (io_links s i))) ?is) + sum_list (map (\<lambda>j. length (contents (io_links s j))) ?js) =
      n + sum_list (map (\<lambda>j. length (contents (io_links s' j))) ?js)"
    using t(6) room_contents [OF assms(4), of ?js] room_contents [OF t(2), of ?js] by linarith
  ultimately show ?thesis using t(2-5) unfolding teed_def by blast
qed

theorem tee_push_copies_witness:
  "\<exists>s'. tee_push demo_ports (demo_io new_packet_noroot) = Inr s' \<and> io_ok s' 1 \<and>
    map frame (contents (io_links s' 1)) = [frame new_packet_noroot]"
proof -
  from tee_push_copies [of demo_ports "demo_io new_packet_noroot" 1] obtain s' n' where
    s': "tee_push demo_ports (demo_io new_packet_noroot) = Inr s'" "io_ok s' n'"
      "map frame (contents (io_links s' 1)) = [frame new_packet_noroot]" "n' + 1 = 1 + length (contents (io_links s' 1))"
    by (auto simp: demo_io_ok demo_io_ok(2) [unfolded One_nat_def] demo_ports_def LINK_MAX_PACKETS_def
        LINK_RING_SIZE_def pool_max_def)
  moreover have "length (contents (io_links s' 1)) = 1" using arg_cong [OF s'(3), of length] by simp
  ultimately show ?thesis by auto
qed

end
