(* ===== verification/Config.thy ===== *)
theory Config
  imports Prelude "HOL-Library.AList"
begin

text \<open>
  \<^verbatim>\<open>rush/src/config.rs\<close>: link specifications such as \<^verbatim>\<open>nic.tx -> vm.rx\<close>. The regular expression
  \<^verbatim>\<open> *([\w_]+)\.([\w_]+) *-> *([\w_]+)\.([\w_]+) *\<close> is not anchored: it is matched at the first position where it
  fits. Each of its repetitions is followed by a character outside its class, so the greedy match is the
  only one at a position. Names are modelled over ASCII; \<^verbatim>\<open>\w\<close> also admits the word characters beyond it.
\<close>

section \<open>Link specifications\<close>

record link_spec =
  spec_from :: string
  spec_output :: string
  spec_to :: string
  spec_input :: string

definition word_char :: "char \<Rightarrow> bool" where
  "word_char c =
     (let n = of_char c :: nat in
      (48 \<le> n \<and> n \<le> 57) \<or> (65 \<le> n \<and> n \<le> 90) \<or> n = 95 \<or> (97 \<le> n \<and> n \<le> 122))"

abbreviation space :: char where "space \<equiv> CHR '' ''"

text \<open>\<^verbatim>\<open>([\w_]+)\<close> and the rest.\<close>

definition match_word :: "string \<Rightarrow> (string \<times> string) option" where
  "match_word s = (let w = takeWhile word_char s in if w = [] then None else Some (w, dropWhile word_char s))"

definition match_lit :: "string \<Rightarrow> string \<Rightarrow> string option" where
  "match_lit l s = (if take (length l) s = l then Some (drop (length l) s) else None)"

definition skip_spaces :: "string \<Rightarrow> string" where
  "skip_spaces s = dropWhile (\<lambda>c. c = space) s"

text \<open>The expression at the start of a string.\<close>

definition match_link :: "string \<Rightarrow> link_spec option" where
  "match_link s =
     Option.bind (match_word (skip_spaces s)) (\<lambda>(f, s).
     Option.bind (match_lit ''.'' s) (\<lambda>s.
     Option.bind (match_word s) (\<lambda>(out, s).
     Option.bind (match_lit ''->'' (skip_spaces s)) (\<lambda>s.
     Option.bind (match_word (skip_spaces s)) (\<lambda>(t, s).
     Option.bind (match_lit ''.'' s) (\<lambda>s.
     Option.bind (match_word s) (\<lambda>(inp, s).
     Some \<lparr>spec_from = f, spec_output = out, spec_to = t, spec_input = inp\<rparr>)))))))"

text \<open>\<^verbatim>\<open>LINK_SYNTAX.captures\<close>: the leftmost match.\<close>

fun captures :: "string \<Rightarrow> link_spec option" where
  "captures [] = match_link []"
| "captures (c # s) = (case match_link (c # s) of Some l \<Rightarrow> Some l | None \<Rightarrow> captures s)"

definition parse_link :: "string \<Rightarrow> link_spec res" where
  "parse_link s = (case captures s of Some l \<Rightarrow> Inr l | None \<Rightarrow> Inl (Link_parse_error s))"

definition format_link :: "link_spec \<Rightarrow> string" where
  "format_link l = spec_from l @ ''.'' @ spec_output l @ '' -> '' @ spec_to l @ ''.'' @ spec_input l"

definition canonical_link :: "string \<Rightarrow> string res" where
  "canonical_link s = bindR (parse_link s) (\<lambda>l. Inr (format_link l))"

section \<open>Configurations\<close>

text \<open>
  \<^verbatim>\<open>apps\<close> is a hash map from names to app configurations and \<^verbatim>\<open>links\<close> a hash set; the lists have no
  repeated key, and their order is that of the iteration.
\<close>

record 'c config =
  cfg_apps :: "(string \<times> 'c) list"
  cfg_links :: "string list"

definition new_config :: "'c config" where
  "new_config = \<lparr>cfg_apps = [], cfg_links = []\<rparr>"

definition add_app :: "string \<Rightarrow> 'c \<Rightarrow> 'c config \<Rightarrow> 'c config" where
  "add_app name app c = c\<lparr>cfg_apps := AList.update name app (cfg_apps c)\<rparr>"

definition add_link :: "string \<Rightarrow> 'c config \<Rightarrow> 'c config res" where
  "add_link spec c =
     bindR (canonical_link spec) (\<lambda>l. Inr (c\<lparr>cfg_links := List.insert l (cfg_links c)\<rparr>))"

section \<open>Parsing what was printed\<close>

definition spec_ok :: "link_spec \<Rightarrow> bool" where
  "spec_ok l \<longleftrightarrow>
     (\<forall>w \<in> {spec_from l, spec_output l, spec_to l, spec_input l}. w \<noteq> [] \<and> (\<forall>c \<in> set w. word_char c))"

lemma not_word_chars: "\<not> word_char space" "\<not> word_char (CHR ''.'')" "\<not> word_char (CHR ''-'')"
  by (simp_all add: word_char_def)

lemma match_word_append:
  assumes "w \<noteq> []" and "\<forall>c \<in> set w. word_char c" and "r = [] \<or> \<not> word_char (hd r)"
  shows "match_word (w @ r) = Some (w, r)"
proof -
  have "takeWhile word_char (w @ r) = w" "dropWhile word_char (w @ r) = r"
    using assms by (cases r; simp add: takeWhile_append2 dropWhile_append2)+
  then show ?thesis using assms(1) by (simp add: match_word_def Let_def)
qed

lemma skip_spaces_word:
  "w \<noteq> [] \<Longrightarrow> \<forall>c \<in> set w. word_char c \<Longrightarrow> skip_spaces (w @ r) = w @ r"
  using not_word_chars(1) by (cases w) (auto simp: skip_spaces_def)

lemma match_format:
  assumes "spec_ok l"
  shows "match_link (format_link l) = Some l"
proof -
  have w: "spec_from l \<noteq> []" "\<forall>c \<in> set (spec_from l). word_char c"
    "spec_output l \<noteq> []" "\<forall>c \<in> set (spec_output l). word_char c"
    "spec_to l \<noteq> []" "\<forall>c \<in> set (spec_to l). word_char c"
    "spec_input l \<noteq> []" "\<forall>c \<in> set (spec_input l). word_char c"
    using assms by (simp_all add: spec_ok_def)
  have "match_word (skip_spaces (format_link l)) =
      Some (spec_from l, ''.'' @ spec_output l @ '' -> '' @ spec_to l @ ''.'' @ spec_input l)"
    unfolding format_link_def skip_spaces_word [OF w(1,2)]
    by (rule match_word_append [OF w(1,2)]) (simp add: not_word_chars)
  moreover have "match_word (spec_output l @ '' -> '' @ spec_to l @ ''.'' @ spec_input l) =
      Some (spec_output l, '' -> '' @ spec_to l @ ''.'' @ spec_input l)"
    by (rule match_word_append [OF w(3,4)]) (simp add: not_word_chars)
  moreover have "skip_spaces ('' -> '' @ r) = ''-> '' @ r" for r
    by (simp add: skip_spaces_def)
  moreover have "skip_spaces ('' '' @ spec_to l @ r) = spec_to l @ r" for r
    using skip_spaces_word [OF w(5,6), of r] by (simp add: skip_spaces_def)
  moreover have "match_word (spec_to l @ ''.'' @ spec_input l) = Some (spec_to l, ''.'' @ spec_input l)"
    by (rule match_word_append [OF w(5,6)]) (simp add: not_word_chars)
  moreover have "match_word (spec_input l) = Some (spec_input l, [])"
    using match_word_append [OF w(7,8), of "[]"] by simp
  ultimately show ?thesis by (simp add: match_link_def match_lit_def)
qed

lemma match_word_Some:
  "match_word s = Some (w, r) \<Longrightarrow> w \<noteq> [] \<and> (\<forall>c \<in> set w. word_char c)"
  by (auto simp: match_word_def Let_def split: if_splits dest: set_takeWhileD)

lemma match_link_ok: "match_link s = Some l \<Longrightarrow> spec_ok l"
  by (auto simp: match_link_def spec_ok_def split: option.splits bind_splits dest!: match_word_Some)

lemma captures_ok: "captures s = Some l \<Longrightarrow> spec_ok l"
  by (induction s) (auto simp: match_link_ok split: option.splits)

lemma captures_format: "spec_ok l \<Longrightarrow> captures (format_link l) = Some l"
  using match_format [of l] by (cases "format_link l") simp_all

section \<open>Properties\<close>

text \<open>
  C36. Link specifications survive printing and parsing: a specification whose four names are
  non-empty words is parsed back from its printed form; whatever \<^verbatim>\<open>parse_link\<close> accepts consists of such
  names; so the canonical form of a link is a fixed point of \<^verbatim>\<open>canonical_link\<close>, and the engine, which parses the
  canonical form again, sees the same four names.
\<close>

theorem link_roundtrip:
  "(spec_ok l \<longrightarrow> parse_link (format_link l) = Inr l) \<and>
   (parse_link s = Inr l \<longrightarrow> spec_ok l \<and> parse_link (format_link l) = Inr l) \<and>
   (canonical_link s = Inr c \<longrightarrow> canonical_link c = Inr c \<and> parse_link c = parse_link s)"
  using captures_ok [of s] captures_format
  by (auto simp: parse_link_def canonical_link_def split: option.splits)

theorem link_roundtrip_witness:
  "parse_link ''nic.tx -> vm.rx'' =
     Inr \<lparr>spec_from = ''nic'', spec_output = ''tx'', spec_to = ''vm'', spec_input = ''rx''\<rparr>"
  using link_roundtrip [of "\<lparr>spec_from = ''nic'', spec_output = ''tx'', spec_to = ''vm'', spec_input = ''rx''\<rparr>"]
  by (simp add: spec_ok_def word_char_def format_link_def)

text \<open>
  The expression is not anchored: text before the first position where it fits is ignored, so a name
  with a character outside \<^verbatim>\<open>\w\<close> loses what precedes that character.
\<close>

theorem parse_link_skips_prefix:
  "parse_link ''br-lan.output -> tsd.input'' =
     Inr \<lparr>spec_from = ''lan'', spec_output = ''output'', spec_to = ''tsd'', spec_input = ''input''\<rparr>"
  by code_simp

end
