(* ===== verification/Engine.thy ===== *)
theory Engine
  imports Rawsocket Qos Flow Basic_Apps Config "HOL-Library.List_Lexorder" "HOL-Library.Char_ord"
begin

text \<open>
  \<^verbatim>\<open>rush/src/engine.rs\<close>: the table of apps and the table of links, their configuration, the order in which the
  callbacks run, the breathe loop and its regulation, timers, and the link report.

  Trait objects are sums over the apps of the repository: \<open>conf\<close> for \<^verbatim>\<open>AppConfig\<close>, \<open>app\<close> for
  \<^verbatim>\<open>App\<close>. A hash map is an association list with distinct keys in the order of its iteration. Where
  that order decides a result, in the sets of successors that \<^verbatim>\<open>compute_breathe_order\<close> builds, it is a
  parameter \<open>ho\<close>. An \<^verbatim>\<open>Rc\<close> to a link is the number of the link in the store of links; a link is
  dropped when neither the link table nor a port refers to it.
\<close>

section \<open>Apps and their configurations\<close>

datatype conf =
    Source u16
  | Sink
  | Join
  | Tee
  | RawSocket string
  | Checksum
  | TSD u16
  | Loss f64
  | Latency u64 nat
  | Jitter u64 f64 bool nat
  | RateLimiter u64
  | Split "flow list"
  | Top string dir

datatype app =
    SourceApp u16
  | SinkApp
  | JoinApp
  | TeeApp
  | RawSocketApp i32
  | ChecksumApp
  | TSDApp u16
  | LossApp f64
  | LatencyApp u64 delay_queue
  | JitterApp nat f64 bool delay_queue
  | RateLimiterApp rate_limiter
  | SplitApp "flow list"
  | TopApp string dir

text \<open>
  The state outside of the tables: links and packets, the random number generator, the network, the
  files that \<^verbatim>\<open>Top\<close> maps, the readings of the clock still to come, and the static variables.
\<close>

record 'n sys =
  sys_io :: io
  sys_rng :: rng
  sys_net :: 'n
  sys_files :: "string \<Rightarrow> flow_top"
  sys_clock :: "nat \<Rightarrow> nat"
  MONOTONIC_NOW :: "nat option"
  LASTFREES :: u64
  SLEEP :: u64

definition instant_now :: "'n sys \<Rightarrow> nat \<times> 'n sys" where
  "instant_now s = (sys_clock s 0, s\<lparr>sys_clock := \<lambda>i. sys_clock s (Suc i)\<rparr>)"

definition now :: "'n sys \<Rightarrow> nat \<times> 'n sys" where
  "now s = (case MONOTONIC_NOW s of Some t \<Rightarrow> (t, s) | None \<Rightarrow> instant_now s)"

text \<open>
  \<^verbatim>\<open>open_flowtop_map\<close>: the file is resized to 2048 slots, new ones zero. Mappings of one path share the
  file, so the table is kept with the path.
\<close>

definition open_flowtop_map :: "'n os \<Rightarrow> string \<Rightarrow> 'n sys \<Rightarrow> 'n sys res" where
  "open_flowtop_map os path s =
     bindR (cstr path) (\<lambda>path.
     let (fd, net) = os_open os path (sys_net s) in
     if fd < 0 then Inl (Assertion_failed ''open'')
     else let (r, net) = os_ftruncate os fd (24 * FLOWTOP_NSLOTS) net in
     if r \<noteq> 0 then Inl (Assertion_failed ''ftruncate'')
     else let (ok, net) = os_mmap os fd (24 * FLOWTOP_NSLOTS) net in
     if \<not> ok then Inl (Assertion_failed ''mmap'')
     else let net = os_close os (of_int fd) net;
              zero = \<lparr>ctr_packets = 0, ctr_bits = 0, ctr_id = 0\<rparr>;
              table = take FLOWTOP_NSLOTS (sys_files s path @ replicate FLOWTOP_NSLOTS zero)
          in Inr (s\<lparr>sys_net := net, sys_files := (sys_files s)(path := table)\<rparr>))"

text \<open>\<^verbatim>\<open>AppConfig::new\<close> of the apps, and the dispatch on the configuration.\<close>

definition source_new :: "u16 \<Rightarrow> app" where [simp]: "source_new sz = SourceApp sz"

definition sink_new :: app where [simp]: "sink_new = SinkApp"

definition join_new :: app where [simp]: "join_new = JoinApp"

definition tee_new :: app where [simp]: "tee_new = TeeApp"

definition rawsocket_new :: "'n os \<Rightarrow> string \<Rightarrow> 'n sys \<Rightarrow> (app \<times> 'n sys) res" where
  [simp]: "rawsocket_new os ifname s =
     bindR (open_raw_socket os ifname (sys_net s)) (\<lambda>(sock, net). Inr (RawSocketApp sock, s\<lparr>sys_net := net\<rparr>))"

definition checksum_new :: app where [simp]: "checksum_new = ChecksumApp"

definition latency_new :: "u64 \<Rightarrow> nat \<Rightarrow> app" where
  [simp]: "latency_new ms capacity = LatencyApp ms (dq_new capacity)"

definition jitter_new :: "u64 \<Rightarrow> f64 \<Rightarrow> bool \<Rightarrow> nat \<Rightarrow> app" where
  [simp]: "jitter_new ms strength reorder capacity = JitterApp (jitter_us ms) strength reorder (dq_new capacity)"

definition split_new :: "flow list \<Rightarrow> app" where [simp]: "split_new flows = SplitApp flows"

definition top_new :: "'n os \<Rightarrow> string \<Rightarrow> dir \<Rightarrow> 'n sys \<Rightarrow> (app \<times> 'n sys) res" where
  [simp]: "top_new os path d s = bindR (open_flowtop_map os path s) (\<lambda>s. Inr (TopApp path d, s))"

definition app_new :: "'n os \<Rightarrow> conf \<Rightarrow> 'n sys \<Rightarrow> (app \<times> 'n sys) res" where
  "app_new os c s =
     (case c of
        Source sz \<Rightarrow> Inr (source_new sz, s)
      | Sink \<Rightarrow> Inr (sink_new, s)
      | Join \<Rightarrow> Inr (join_new, s)
      | Tee \<Rightarrow> Inr (tee_new, s)
      | RawSocket ifname \<Rightarrow> rawsocket_new os ifname s
      | Checksum \<Rightarrow> Inr (checksum_new, s)
      | TSD mss \<Rightarrow> bindR (tsd_new mss) (\<lambda>mss. Inr (TSDApp mss, s))
      | Loss ratio \<Rightarrow> bindR (loss_new ratio) (\<lambda>ratio. Inr (LossApp ratio, s))
      | Latency ms capacity \<Rightarrow> Inr (latency_new ms capacity, s)
      | Jitter ms strength reorder capacity \<Rightarrow> Inr (jitter_new ms strength reorder capacity, s)
      | RateLimiter rate \<Rightarrow> Inr (RateLimiterApp (rate_limiter_new rate), s)
      | Split flows \<Rightarrow> Inr (split_new flows, s)
      | Top path d \<Rightarrow> top_new os path d s)"

definition has_pull :: "app \<Rightarrow> bool" where
  "has_pull x = (case x of
     SourceApp _ \<Rightarrow> True | RawSocketApp _ \<Rightarrow> True | LatencyApp _ _ \<Rightarrow> True | JitterApp _ _ _ _ \<Rightarrow> True | _ \<Rightarrow> False)"

definition has_push :: "app \<Rightarrow> bool" where
  "has_push x = (case x of SourceApp _ \<Rightarrow> False | _ \<Rightarrow> True)"

definition has_stop :: "app \<Rightarrow> bool" where
  "has_stop x = (case x of RawSocketApp _ \<Rightarrow> True | TopApp _ _ \<Rightarrow> True | _ \<Rightarrow> False)"

abbreviation on_io :: "io res \<Rightarrow> app \<Rightarrow> 'n sys \<Rightarrow> (app \<times> 'n sys) res" where
  "on_io r x s \<equiv> bindR r (\<lambda>i. Inr (x, s\<lparr>sys_io := i\<rparr>))"

definition app_pull :: "'n os \<Rightarrow> app \<Rightarrow> ports \<Rightarrow> 'n sys \<Rightarrow> (app \<times> 'n sys) res" where
  "app_pull os x a s =
     (case x of
        SourceApp sz \<Rightarrow> on_io (source_pull sz a (sys_io s)) x s
      | RawSocketApp sock \<Rightarrow>
          bindR (rawsocket_pull os sock a (sys_io s, sys_net s)) (\<lambda>(i, net). Inr (x, s\<lparr>sys_io := i, sys_net := net\<rparr>))
      | LatencyApp ms q \<Rightarrow>
          let (t, s) = now s in
          bindR (delay_pull t q a (sys_io s)) (\<lambda>(q, i). Inr (LatencyApp ms q, s\<lparr>sys_io := i\<rparr>))
      | JitterApp us strength reorder q \<Rightarrow>
          let (t, s) = now s in
          bindR (jitter_pull t q a (sys_io s)) (\<lambda>(q, i). Inr (JitterApp us strength reorder q, s\<lparr>sys_io := i\<rparr>))
      | _ \<Rightarrow> Inl Not_implemented)"

definition app_push :: "'n os \<Rightarrow> app \<Rightarrow> ports \<Rightarrow> 'n sys \<Rightarrow> (app \<times> 'n sys) res" where
  "app_push os x a s =
     (case x of
        SourceApp _ \<Rightarrow> Inl Not_implemented
      | SinkApp \<Rightarrow> on_io (sink_push a (sys_io s)) x s
      | JoinApp \<Rightarrow> on_io (join_push a (sys_io s)) x s
      | TeeApp \<Rightarrow> on_io (tee_push a (sys_io s)) x s
      | RawSocketApp sock \<Rightarrow>
          bindR (rawsocket_push os sock a (sys_io s, sys_net s)) (\<lambda>(i, net). Inr (x, s\<lparr>sys_io := i, sys_net := net\<rparr>))
      | ChecksumApp \<Rightarrow> on_io (checksum_push a (sys_io s)) x s
      | TSDApp mss \<Rightarrow> on_io (tsd_push mss a (sys_io s)) x s
      | LossApp ratio \<Rightarrow>
          bindR (loss_push ratio (sys_rng s) a (sys_io s)) (\<lambda>(r, i). Inr (x, s\<lparr>sys_rng := r, sys_io := i\<rparr>))
      | LatencyApp ms q \<Rightarrow>
          let (t, s) = now s in
          bindR (latency_push ms t q a (sys_io s)) (\<lambda>(q, i). Inr (LatencyApp ms q, s\<lparr>sys_io := i\<rparr>))
      | JitterApp us strength reorder q \<Rightarrow>
          let (t, s) = now s in
          bindR (jitter_push us strength reorder t q (sys_rng s) a (sys_io s)) (\<lambda>(q, r, i).
          Inr (JitterApp us strength reorder q, s\<lparr>sys_rng := r, sys_io := i\<rparr>))
      | RateLimiterApp rl \<Rightarrow>
          let (t, s) = now s in
          bindR (rate_limiter_push rl t a (sys_io s)) (\<lambda>(rl, i). Inr (RateLimiterApp rl, s\<lparr>sys_io := i\<rparr>))
      | SplitApp flows \<Rightarrow> on_io (split_push flows a (sys_io s)) x s
      | TopApp path d \<Rightarrow>
          bindR (top_push d (sys_files s path) a (sys_io s)) (\<lambda>(m, i).
          Inr (x, s\<lparr>sys_files := (sys_files s)(path := m), sys_io := i\<rparr>)))"

text \<open>\<^verbatim>\<open>App::stop\<close>; \<^verbatim>\<open>munmap\<close> leaves the file as it is.\<close>

definition app_stop :: "'n os \<Rightarrow> app \<Rightarrow> 'n sys \<Rightarrow> 'n sys res" where
  "app_stop os x s =
     (case x of
        RawSocketApp sock \<Rightarrow> Inr (s\<lparr>sys_net := rawsocket_stop os sock (sys_net s)\<rparr>)
      | TopApp _ _ \<Rightarrow> Inr s
      | _ \<Rightarrow> Inl Not_implemented)"

text \<open>What dropping an app does: a delay queue frees its packets.\<close>

definition app_drop :: "app \<Rightarrow> world \<Rightarrow> world res" where
  "app_drop x w =
     (case x of
        LatencyApp _ q \<Rightarrow> bindR (drop_queue q w) (\<lambda>(_, w). Inr w)
      | JitterApp _ _ _ q \<Rightarrow> bindR (drop_queue q w) (\<lambda>(_, w). Inr w)
      | _ \<Rightarrow> Inr w)"

section \<open>Engine state\<close>

record app_state =
  as_app :: app
  as_conf :: conf
  as_ports :: ports

record engine =
  link_table :: "(string \<times> nat) list"
  app_table :: "(string \<times> app_state) list"
  inhale :: "string list"
  exhale :: "string list"
  next_link :: nat

definition initial_engine :: engine where
  "initial_engine = \<lparr>link_table = [], app_table = [], inhale = [], exhale = [], next_link = 0\<rparr>"

abbreviation no_ports :: ports where
  "no_ports \<equiv> \<lparr>app_input = [], app_output = []\<rparr>"

definition start_app :: "'n os \<Rightarrow> string \<Rightarrow> conf \<Rightarrow> engine \<times> 'n sys \<Rightarrow> (engine \<times> 'n sys) res" where
  "start_app os name c = (\<lambda>(e, s).
     bindR (app_new os c s) (\<lambda>(x, s).
     Inr (e\<lparr>app_table := AList.update name \<lparr>as_app = x, as_conf = c, as_ports = no_ports\<rparr> (app_table e)\<rparr>, s)))"

text \<open>
  The removed app is dropped at the end. The links its ports refer to are in the link table, so they
  stay.
\<close>

definition stop_app :: "'n os \<Rightarrow> string \<Rightarrow> engine \<times> 'n sys \<Rightarrow> (engine \<times> 'n sys) res" where
  "stop_app os name = (\<lambda>(e, s).
     bindR (unwrap (map_of (app_table e) name)) (\<lambda>removed.
     let e = e\<lparr>app_table := AList.delete name (app_table e)\<rparr> in
     bindR (if has_stop (as_app removed) then app_stop os (as_app removed) s else Inr s) (\<lambda>s.
     bindR (app_drop (as_app removed) (io_world (sys_io s))) (\<lambda>w.
     Inr (e, s\<lparr>sys_io := (sys_io s)\<lparr>io_world := w\<rparr>\<rparr>)))))"

definition set_output :: "string \<Rightarrow> nat \<Rightarrow> app_state \<Rightarrow> app_state" where
  "set_output port h a = a\<lparr>as_ports := (as_ports a)\<lparr>app_output := AList.update port h (app_output (as_ports a))\<rparr>\<rparr>"

definition set_input :: "string \<Rightarrow> nat \<Rightarrow> app_state \<Rightarrow> app_state" where
  "set_input port h a = a\<lparr>as_ports := (as_ports a)\<lparr>app_input := AList.update port h (app_input (as_ports a))\<rparr>\<rparr>"

definition remove_output :: "string \<Rightarrow> app_state \<Rightarrow> app_state" where
  "remove_output port a = a\<lparr>as_ports := (as_ports a)\<lparr>app_output := AList.delete port (app_output (as_ports a))\<rparr>\<rparr>"

definition remove_input :: "string \<Rightarrow> app_state \<Rightarrow> app_state" where
  "remove_input port a = a\<lparr>as_ports := (as_ports a)\<lparr>app_input := AList.delete port (app_input (as_ports a))\<rparr>\<rparr>"

text \<open>\<^verbatim>\<open>state.app_table.get_mut(name).unwrap()\<close> and a change of the app found.\<close>

definition modify_app :: "string \<Rightarrow> (app_state \<Rightarrow> app_state) \<Rightarrow> engine \<Rightarrow> engine res" where
  "modify_app name f e =
     bindR (unwrap (map_of (app_table e) name)) (\<lambda>a. Inr (e\<lparr>app_table := AList.update name (f a) (app_table e)\<rparr>))"

definition link_apps :: "string \<Rightarrow> engine \<times> 'n sys \<Rightarrow> (engine \<times> 'n sys) res" where
  "link_apps spec = (\<lambda>(e, s).
     let (h, e, s) =
       (case map_of (link_table e) spec of
          Some h \<Rightarrow> (h, e, s)
        | None \<Rightarrow>
            let h = next_link e in
            (h, e\<lparr>link_table := AList.update spec h (link_table e), next_link := Suc h\<rparr>,
             s\<lparr>sys_io := (sys_io s)\<lparr>io_links := (io_links (sys_io s))(h := new_link)\<rparr>\<rparr>))
     in bindR (parse_link spec) (\<lambda>l.
        bindR (modify_app (spec_from l) (set_output (spec_output l) h) e) (\<lambda>e.
        bindR (modify_app (spec_to l) (set_input (spec_input l) h) e) (\<lambda>e.
        Inr (e, s)))))"

definition unlink_apps :: "string \<Rightarrow> engine \<Rightarrow> engine res" where
  "unlink_apps spec e =
     (let e = e\<lparr>link_table := AList.delete spec (link_table e)\<rparr> in
      bindR (parse_link spec) (\<lambda>l.
      bindR (modify_app (spec_from l) (remove_output (spec_output l)) e) (\<lambda>e.
      modify_app (spec_to l) (remove_input (spec_input l)) e)))"

section \<open>Breathe order\<close>

text \<open>The map of successors: from the name of an app to the names of the apps it has links to.\<close>

definition add_successor :: "string \<Rightarrow> (string \<times> string list) list \<Rightarrow> (string \<times> string list) list res" where
  "add_successor spec m =
     bindR (parse_link spec) (\<lambda>l.
     Inr (AList.update (spec_from l)
           (List.insert (spec_to l) (case map_of m (spec_from l) of None \<Rightarrow> [] | Some ss \<Rightarrow> ss)) m))"

definition build_successors ::
  "(string \<Rightarrow> string list \<Rightarrow> string list) \<Rightarrow> string list \<Rightarrow> (string \<times> string list) list res" where
  "build_successors ho links =
     bindR (foldR add_successor links []) (\<lambda>m. Inr (map (\<lambda>(n, ss). (n, ho n ss)) m))"

text \<open>
  The two loops that collect dependents: the push apps among the successors of \<open>names\<close> that are
  not yet in \<open>deps\<close> nor in \<open>ex\<close> (which is empty for the first of the two).
\<close>

definition collect_one ::
  "(string \<times> app_state) list \<Rightarrow> string list \<Rightarrow> string \<Rightarrow> string list \<Rightarrow> string list res" where
  "collect_one apps ex successor deps =
     bindR (unwrap (map_of apps successor)) (\<lambda>a.
     if has_push (as_app a) \<and> successor \<notin> set ex \<and> successor \<notin> set deps
     then Inr (deps @ [successor]) else Inr deps)"

definition collect ::
  "(string \<times> app_state) list \<Rightarrow> (string \<times> string list) list \<Rightarrow> string list \<Rightarrow> string list \<Rightarrow> string list \<Rightarrow>
   string list res" where
  "collect apps succs ex names deps =
     foldR (\<lambda>name deps. case map_of succs name of
        None \<Rightarrow> Inr deps
      | Some ss \<Rightarrow> foldR (collect_one apps ex) ss deps) names deps"

text \<open>The loop that delays dependents after their inputs.\<close>

definition select_one :: "string \<Rightarrow> string \<Rightarrow> string list \<times> string list \<Rightarrow> string list \<times> string list" where
  "select_one name successor = (\<lambda>(selected, deps).
     if successor \<notin> set selected \<and> successor \<in> set deps \<and> 1 < length deps
     then (List.insert name selected, filter (\<lambda>n. n \<noteq> successor) deps)
     else (selected, deps))"

definition select :: "(string \<times> string list) list \<Rightarrow> string list \<Rightarrow> string list" where
  "select succs deps =
     snd (fold (\<lambda>name st. case map_of succs name of
        None \<Rightarrow> st
      | Some ss \<Rightarrow> fold (select_one name) ss st) deps ([], deps))"

definition remove_all :: "string list \<Rightarrow> (string \<times> string list) list \<Rightarrow> (string \<times> string list) list" where
  "remove_all names m = fold AList.delete names m"

definition order_round ::
  "(string \<times> app_state) list \<Rightarrow> string list \<times> string list \<times> (string \<times> string list) list \<Rightarrow>
   (string list \<times> string list \<times> (string \<times> string list) list) res" where
  "order_round apps = (\<lambda>(ex, deps, succs).
     let exhaled = sort (select succs deps);
         ex = ex @ exhaled
     in bindR (collect apps succs ex exhaled []) (\<lambda>deps. Inr (ex, deps, remove_all exhaled succs)))"

definition compute_breathe_order :: "(string \<Rightarrow> string list \<Rightarrow> string list) \<Rightarrow> engine \<Rightarrow> engine res" where
  "compute_breathe_order ho e =
     bindR (build_successors ho (map fst (link_table e))) (\<lambda>succs.
     let inh = sort (map fst (filter (\<lambda>(_, a). has_pull (as_app a)) (app_table e))) in
     bindR (collect (app_table e) succs [] inh []) (\<lambda>deps.
     bindR (loopR (\<lambda>(ex, deps, succs). deps \<noteq> []) (order_round (app_table e))
             ([], deps, remove_all inh succs)) (\<lambda>(ex, _, _).
     Inr (e\<lparr>inhale := inh, exhale := ex\<rparr>))))"

section \<open>Configuration\<close>

definition referenced :: "engine \<Rightarrow> nat \<Rightarrow> bool" where
  "referenced e h \<longleftrightarrow>
     h \<in> snd ` set (link_table e) \<or>
     list_ex (\<lambda>(_, a). h \<in> snd ` set (app_input (as_ports a)) \<or> h \<in> snd ` set (app_output (as_ports a))) (app_table e)"

definition drop_unreferenced :: "engine \<Rightarrow> nat \<Rightarrow> 'n sys \<Rightarrow> 'n sys res" where
  "drop_unreferenced e h s =
     (if referenced e h then Inr s
      else bindR (drop_link (io_links (sys_io s) h) (io_world (sys_io s))) (\<lambda>(r, w).
        Inr (s\<lparr>sys_io := \<lparr>io_links = (io_links (sys_io s))(h := r), io_world = w\<rparr>\<rparr>)))"

text \<open>
  The first loop runs over a clone of the link table, which keeps the links alive until the loop
  ends.
\<close>

definition unlink_old :: "string list \<Rightarrow> engine \<Rightarrow> engine res" where
  "unlink_old links e =
     foldR (\<lambda>(spec, _) e. if spec \<in> set links then Inr e else unlink_apps spec e) (link_table e) e"

definition stop_changed :: "'n os \<Rightarrow> (string \<times> conf) list \<Rightarrow> string \<Rightarrow> engine \<times> 'n sys \<Rightarrow> (engine \<times> 'n sys) res" where
  "stop_changed os apps name = (\<lambda>(e, s).
     bindR (unwrap (map_of (app_table e) name)) (\<lambda>old.
     case map_of apps name of
       Some new \<Rightarrow> if as_conf old \<noteq> new then stop_app os name (e, s) else Inr (e, s)
     | None \<Rightarrow> stop_app os name (e, s)))"

definition start_new :: "'n os \<Rightarrow> string \<times> conf \<Rightarrow> engine \<times> 'n sys \<Rightarrow> (engine \<times> 'n sys) res" where
  "start_new os = (\<lambda>(name, c) (e, s).
     if map_of (app_table e) name = None then start_app os name c (e, s) else Inr (e, s))"

definition configure ::
  "'n os \<Rightarrow> (string \<Rightarrow> string list \<Rightarrow> string list) \<Rightarrow> conf config \<Rightarrow> engine \<times> 'n sys \<Rightarrow> (engine \<times> 'n sys) res" where
  "configure os ho c = (\<lambda>(e, s).
     let old_links = map snd (link_table e) in
     bindR (unlink_old (cfg_links c) e) (\<lambda>e.
     bindR (foldR (drop_unreferenced e) old_links s) (\<lambda>s.
     bindR (foldR (stop_changed os (cfg_apps c)) (map fst (app_table e)) (e, s)) (\<lambda>(e, s).
     bindR (foldR (start_new os) (cfg_apps c) (e, s)) (\<lambda>(e, s).
     bindR (foldR link_apps (cfg_links c) (e, s)) (\<lambda>(e, s).
     bindR (compute_breathe_order ho e) (\<lambda>e. Inr (e, s))))))))"

section \<open>Breathing\<close>

definition callback ::
  "(app \<Rightarrow> ports \<Rightarrow> 'n sys \<Rightarrow> (app \<times> 'n sys) res) \<Rightarrow> string \<Rightarrow> engine \<times> 'n sys \<Rightarrow> (engine \<times> 'n sys) res" where
  "callback f name = (\<lambda>(e, s).
     bindR (unwrap (map_of (app_table e) name)) (\<lambda>a.
     bindR (f (as_app a) (as_ports a) s) (\<lambda>(x, s).
     Inr (e\<lparr>app_table := AList.update name (a\<lparr>as_app := x\<rparr>) (app_table e)\<rparr>, s))))"

definition add_breath :: "'n sys \<Rightarrow> 'n sys" where
  "add_breath s =
     (let w = io_world (sys_io s); st = STATS w
      in s\<lparr>sys_io := (sys_io s)\<lparr>io_world := w\<lparr>STATS := st\<lparr>breaths := breaths st + 1\<rparr>\<rparr>\<rparr>\<rparr>)"

definition breathe :: "'n os \<Rightarrow> engine \<times> 'n sys \<Rightarrow> (engine \<times> 'n sys) res" where
  "breathe os = (\<lambda>(e, s).
     let (t, s) = instant_now s;
         s = s\<lparr>MONOTONIC_NOW := Some t\<rparr>
     in bindR (foldR (callback (app_pull os)) (inhale e) (e, s)) (\<lambda>(e, s).
        bindR (foldR (callback (app_push os)) (exhale e) (e, s)) (\<lambda>(e, s).
        Inr (e, add_breath s))))"

definition MAXSLEEP :: u64 where "MAXSLEEP = 100"

text \<open>The second result is the time for which the thread sleeps, in microseconds.\<close>

definition pace_breathing :: "'n sys \<Rightarrow> 'n sys \<times> u64 option" where
  "pace_breathing s =
     (let fr = frees (STATS (io_world (sys_io s))) in
      if LASTFREES s = fr
      then let d = min (SLEEP s + 1) MAXSLEEP in (s\<lparr>SLEEP := d, LASTFREES := fr\<rparr>, Some d)
      else (s\<lparr>SLEEP := SLEEP s div 2, LASTFREES := fr\<rparr>, None))"

text \<open>
  \<^verbatim>\<open>timeout\<close> and \<^verbatim>\<open>throttle\<close> make closures over a deadline; the throttle changes its own, and reads the
  time again when it does.
\<close>

definition timeout :: "nat \<Rightarrow> 'n sys \<Rightarrow> nat \<times> 'n sys" where
  "timeout duration s = (let (t, s) = now s in (t + duration, s))"

definition timeout_done :: "nat \<Rightarrow> 'n sys \<Rightarrow> bool \<times> 'n sys" where
  "timeout_done deadline s = (let (t, s) = now s in (deadline < t, s))"

definition throttle :: "'n sys \<Rightarrow> nat \<times> 'n sys" where
  "throttle s = now s"

definition throttle_call :: "nat \<Rightarrow> nat \<Rightarrow> 'n sys \<Rightarrow> bool \<times> nat \<times> 'n sys" where
  "throttle_call duration deadline s =
     (let (t, s) = now s in
      if deadline < t then let (t, s) = now s in (True, t + duration, s)
      else (False, deadline, s))"

text \<open>
  The loop of \<^verbatim>\<open>main\<close>. \<open>stop\<close> is the predicate \<^verbatim>\<open>done\<close>, which may read and change the state
  outside of the tables; a duration is turned into such a predicate.
\<close>

definition breathe_until ::
  "'n os \<Rightarrow> ('n sys \<Rightarrow> bool \<times> 'n sys) option \<Rightarrow> nat option \<Rightarrow> engine \<times> 'n sys \<Rightarrow> (engine \<times> 'n sys) res" where
  "breathe_until os stop duration = (\<lambda>(e, s).
     bindR (case duration of
        None \<Rightarrow> Inr (stop, s)
      | Some d \<Rightarrow>
          if stop \<noteq> None then Inl (Assertion_failed ''You can not have both duration and done'')
          else let (deadline, s) = timeout d s in Inr (Some (timeout_done deadline), s)) (\<lambda>(stop, s).
     let check = (\<lambda>s. case stop of None \<Rightarrow> (True, s) | Some f \<Rightarrow> let (b, s) = f s in (\<not> b, s)) in
     bindR (breathe os (e, s)) (\<lambda>(e, s).
     let (go, s) = check s in
     bindR (loopR fst (\<lambda>(_, e, s).
              let (s, _) = pace_breathing s in
              bindR (breathe os (e, s)) (\<lambda>(e, s).
              let (go, s) = check s in Inr (go, e, s))) (go, e, s)) (\<lambda>(_, e, s).
     Inr (e, s)))))"

section \<open>Reports\<close>

definition loss_rate :: "u64 \<Rightarrow> u64 \<Rightarrow> u64 res" where
  "loss_rate drp sent =
     (if sent = 0 then Inr 0
      else if drp + sent = 0 then Inl (Assertion_failed ''attempt to divide by zero'')
      else Inr (drp * 100 div (drp + sent)))"

definition report_link :: "string \<Rightarrow> link \<Rightarrow> string res" where
  "report_link name r =
     bindR (loss_rate (txdrop r) (txpackets r)) (\<lambda>l.
     Inr (''  '' @ comma_value (txpackets r) @ '' sent on '' @ name @ '' (loss rate: '' @ dec_string (unat l) @ ''%)''))"

definition report_links :: "engine \<Rightarrow> 'n sys \<Rightarrow> string list res" where
  "report_links e s =
     foldR (\<lambda>name out.
       bindR (unwrap (map_of (link_table e) name)) (\<lambda>h.
       bindR (report_link name (io_links (sys_io s) h)) (\<lambda>line. Inr (out @ [line]))))
       (sort (map fst (link_table e))) [''Link report:'']"

definition report_app :: "string \<Rightarrow> app_state \<Rightarrow> string list" where
  "report_app name a =
     (let i = length (app_input (as_ports a)); j = length (app_output (as_ports a)) in
      [''App report for '' @ name @ '':''] @
      (if i = 0 then [] else if i = 1 then [''  receiving from one input link'']
       else [''  receiving from '' @ dec_string i @ '' input links'']) @
      (if j = 0 then [] else if j = 1 then [''  transmitting to one output link'']
       else [''  transmitting to '' @ dec_string j @ '' output links'']))"

definition report_apps :: "engine \<Rightarrow> string list" where
  "report_apps e = concat (map (\<lambda>(name, a). report_app name a) (app_table e))"

text \<open>
  \<^verbatim>\<open>report_load\<close> and the static variables it keeps. Of the line that it prints, the counts and the time are
  modelled; the rates are their quotients in floating point, formatted.
\<close>

record load_state =
  LASTLOADREPORT :: "nat option"
  REPORTEDFREES :: u64
  REPORTEDFREEBITS :: u64
  REPORTEDFREEBYTES :: u64
  REPORTEDBREATHS :: u64

record load_line =
  ll_interval :: nat
  ll_newfrees :: u64
  ll_newbits :: u64
  ll_fpb :: u64
  ll_bpp :: u64
  ll_sleep :: u64

definition report_load :: "load_state \<Rightarrow> 'n sys \<Rightarrow> load_line option \<times> load_state \<times> 'n sys" where
  "report_load l s =
     (let st = STATS (io_world (sys_io s));
          (line, s) =
            (case LASTLOADREPORT l of
               None \<Rightarrow> (None, s)
             | Some lastloadreport \<Rightarrow>
                 let (t, s) = now s;
                     newfrees = frees st - REPORTEDFREES l;
                     newbits = freebits st - REPORTEDFREEBITS l;
                     newbytes = freebytes st - REPORTEDFREEBYTES l;
                     newbreaths = breaths st - REPORTEDBREATHS l
                 in (Some \<lparr>ll_interval = t - lastloadreport, ll_newfrees = newfrees, ll_newbits = newbits,
                       ll_fpb = (if 0 < newbreaths then newfrees div newbreaths else 0),
                       ll_bpp = (if 0 < newfrees then newbytes div newfrees else 0), ll_sleep = SLEEP s\<rparr>, s));
          (t, s) = now s
      in (line, \<lparr>LASTLOADREPORT = Some t, REPORTEDFREES = frees st, REPORTEDFREEBITS = freebits st,
            REPORTEDFREEBYTES = freebytes st, REPORTEDBREATHS = breaths st\<rparr>, s))"

section \<open>The engine loop\<close>

record 'n options =
  opt_done :: "('n sys \<Rightarrow> bool \<times> 'n sys) option"
  opt_duration :: "nat option"
  opt_no_report :: bool
  opt_report_load :: bool
  opt_report_links :: bool
  opt_report_apps :: bool

definition default_options :: "'n options" where
  "default_options = \<lparr>opt_done = None, opt_duration = None, opt_no_report = False, opt_report_load = False,
     opt_report_links = False, opt_report_apps = False\<rparr>"

datatype printed = Text string | Load load_line

definition reports :: "'n options \<Rightarrow> engine \<Rightarrow> load_state \<times> 'n sys \<Rightarrow> (printed list \<times> load_state \<times> 'n sys) res" where
  "reports opts e = (\<lambda>(l, s).
     if opt_no_report opts then Inr ([], l, s)
     else let (line, l, s) = (if opt_report_load opts then report_load l s else (None, l, s)) in
       bindR (if opt_report_links opts then report_links e s else Inr []) (\<lambda>links.
       let apps = (if opt_report_apps opts then report_apps e else []) in
       Inr ((case line of None \<Rightarrow> [] | Some x \<Rightarrow> [Load x]) @ map Text links @ map Text apps, l, s)))"

definition engine_main ::
  "'n os \<Rightarrow> 'n options option \<Rightarrow> load_state \<times> engine \<times> 'n sys \<Rightarrow> (printed list \<times> load_state \<times> engine \<times> 'n sys) res" where
  "engine_main os options = (\<lambda>(l, e, s).
     let opts = (case options of Some opts \<Rightarrow> opts | None \<Rightarrow> default_options) in
     bindR (breathe_until os (opt_done opts) (opt_duration opts) (e, s)) (\<lambda>(e, s).
     bindR (reports opts e (l, s)) (\<lambda>(out, l, s).
     Inr (out, l, e, s\<lparr>MONOTONIC_NOW := None\<rparr>))))"

end
