(* ===== verification/Breathe_Order.thy ===== *)
theory Breathe_Order
  imports Engine
begin

text \<open>
  What \<^verbatim>\<open>compute_breathe_order\<close> of \<^verbatim>\<open>rush/src/engine.rs\<close> computes: the loop ends, no app is scheduled twice,
  and the apps scheduled to push are those that packets can reach.
\<close>

section \<open>The network as a graph\<close>

text \<open>\<open>edge e n m\<close>: there is a link from the app \<open>n\<close> to the app \<open>m\<close>.\<close>

definition edge :: "engine \<Rightarrow> string \<Rightarrow> string \<Rightarrow> bool" where
  "edge e n m \<longleftrightarrow> (\<exists>spec \<in> fst ` set (link_table e). \<exists>l. parse_link spec = Inr l \<and> spec_from l = n \<and> spec_to l = m)"

definition pulls_app :: "engine \<Rightarrow> string \<Rightarrow> bool" where
  "pulls_app e n \<longleftrightarrow> (\<exists>a. map_of (app_table e) n = Some a \<and> has_pull (as_app a))"

definition pushes_app :: "engine \<Rightarrow> string \<Rightarrow> bool" where
  "pushes_app e n \<longleftrightarrow> (\<exists>a. map_of (app_table e) n = Some a \<and> has_push (as_app a))"

text \<open>The push apps that packets inhaled by the pull apps can reach through push apps.\<close>

inductive downstream :: "engine \<Rightarrow> string \<Rightarrow> bool" for e where
  first: "pulls_app e n \<Longrightarrow> edge e n m \<Longrightarrow> pushes_app e m \<Longrightarrow> downstream e m"
| further: "downstream e n \<Longrightarrow> edge e n m \<Longrightarrow> pushes_app e m \<Longrightarrow> downstream e m"

text \<open>Every link has a well-formed name and connects two apps of the table.\<close>

definition links_connect :: "engine \<Rightarrow> bool" where
  "links_connect e \<longleftrightarrow> (\<forall>spec \<in> fst ` set (link_table e). \<exists>l. parse_link spec = Inr l \<and>
     map_of (app_table e) (spec_from l) \<noteq> None \<and> map_of (app_table e) (spec_to l) \<noteq> None)"

definition hash_order :: "(string \<Rightarrow> string list \<Rightarrow> string list) \<Rightarrow> bool" where
  "hash_order ho \<longleftrightarrow> (\<forall>n xs. set (ho n xs) = set xs)"

definition succ_set :: "(string \<times> string list) list \<Rightarrow> string \<Rightarrow> string set" where
  "succ_set m n = (case map_of m n of None \<Rightarrow> {} | Some ss \<Rightarrow> set ss)"

section \<open>The steps of the computation\<close>

lemma edge_target: "links_connect e \<Longrightarrow> edge e n m \<Longrightarrow> m \<in> fst ` set (app_table e)"
  unfolding links_connect_def edge_def by (metis Inr_inject map_of_eq_None_iff)

lemma foldR_add_successor:
  assumes "\<forall>spec \<in> set links. \<exists>l. parse_link spec = Inr l"
  shows "\<exists>m'. foldR add_successor links m = Inr m' \<and>
    (\<forall>n. succ_set m' n = succ_set m n \<union>
      {t. \<exists>spec \<in> set links. \<exists>l. parse_link spec = Inr l \<and> spec_from l = n \<and> spec_to l = t})"
  using assms
proof (induction links arbitrary: m)
  case (Cons spec links)
  obtain l where l: "parse_link spec = Inr l" using Cons.prems by auto
  let ?ss = "case map_of m (spec_from l) of None \<Rightarrow> [] | Some ss \<Rightarrow> ss"
  let ?m = "AList.update (spec_from l) (List.insert (spec_to l) ?ss) m"
  have m: "succ_set ?m n = succ_set m n \<union> (if n = spec_from l then {spec_to l} else {})" for n
    by (auto simp: succ_set_def update_conv' split: option.splits)
  obtain m' where m': "foldR add_successor links ?m = Inr m'"
    "\<forall>n. succ_set m' n = succ_set ?m n \<union>
      {t. \<exists>spec \<in> set links. \<exists>l. parse_link spec = Inr l \<and> spec_from l = n \<and> spec_to l = t}"
    using Cons.IH [of ?m] Cons.prems by auto
  have "foldR add_successor (spec # links) m = Inr m'"
    using m'(1) l by (simp add: add_successor_def)
  moreover have "succ_set m' n = succ_set m n \<union>
      {t. \<exists>spec \<in> set (spec # links). \<exists>l. parse_link spec = Inr l \<and> spec_from l = n \<and> spec_to l = t}" for n
    unfolding m'(2) [rule_format] m using l by auto
  ultimately show ?case by blast
qed (simp add: succ_set_def)

lemma map_of_map_key: "map_of (map (\<lambda>(n, x). (n, f n x)) m) n = map_option (f n) (map_of m n)"
  by (induction m) auto

lemma build_successors_ok:
  assumes "links_connect e" and "hash_order ho"
  shows "\<exists>m. build_successors ho (map fst (link_table e)) = Inr m \<and> (\<forall>n. succ_set m n = Collect (edge e n))"
proof -
  have "\<forall>spec \<in> set (map fst (link_table e)). \<exists>l. parse_link spec = Inr l"
    using assms(1) by (auto simp: links_connect_def)
  from foldR_add_successor [OF this, of "[]"] obtain m where
    m: "foldR add_successor (map fst (link_table e)) [] = Inr m"
      "\<forall>n. succ_set m n = succ_set [] n \<union>
        {t. \<exists>spec \<in> set (map fst (link_table e)). \<exists>l. parse_link spec = Inr l \<and> spec_from l = n \<and> spec_to l = t}"
    by blast
  have edges: "succ_set m n = Collect (edge e n)" for n
    using m(2) [rule_format, of n] by (simp add: edge_def [abs_def] succ_set_def [of "[]"])
  have "succ_set (map (\<lambda>(n, ss). (n, ho n ss)) m) n = succ_set m n" for n
    using assms(2) by (simp add: succ_set_def map_of_map_key hash_order_def split: option.splits)
  then show ?thesis using m(1) edges by (simp add: build_successors_def)
qed

lemma foldR_collect_one:
  assumes "set ss \<subseteq> fst ` set (app_table e)" and "distinct deps"
  shows "\<exists>deps'. foldR (collect_one (app_table e) ex) ss deps = Inr deps' \<and> distinct deps' \<and>
    set deps' = set deps \<union> {m \<in> set ss. pushes_app e m \<and> m \<notin> set ex}"
  using assms
proof (induction ss arbitrary: deps)
  case (Cons m ss)
  obtain a where a: "map_of (app_table e) m = Some a"
    using Cons.prems(1) by (metis list.set_intros(1) map_of_eq_None_iff not_None_eq subsetD)
  let ?d = "if has_push (as_app a) \<and> m \<notin> set ex \<and> m \<notin> set deps then deps @ [m] else deps"
  have "collect_one (app_table e) ex m deps = Inr ?d" using a by (simp add: collect_one_def)
  moreover have "distinct ?d" using Cons.prems(2) by simp
  moreover have "set ?d = set deps \<union> {k \<in> {m}. pushes_app e k \<and> k \<notin> set ex}"
    using a by (auto simp: pushes_app_def)
  moreover have "set ss \<subseteq> fst ` set (app_table e)" using Cons.prems(1) by simp
  ultimately show ?case using Cons.IH [of ?d] by auto
qed simp

lemma collect_ok:
  assumes "\<forall>n \<in> set names. succ_set succs n \<subseteq> fst ` set (app_table e)" and "distinct deps"
  shows "\<exists>deps'. collect (app_table e) succs ex names deps = Inr deps' \<and> distinct deps' \<and>
    set deps' = set deps \<union> {m. (\<exists>n \<in> set names. m \<in> succ_set succs n) \<and> pushes_app e m \<and> m \<notin> set ex}"
  using assms
proof (induction names arbitrary: deps)
  case (Cons n names)
  let ?step = "case map_of succs n of None \<Rightarrow> Inr deps | Some ss \<Rightarrow> foldR (collect_one (app_table e) ex) ss deps"
  obtain d where d: "?step = Inr d" "distinct d"
    "set d = set deps \<union> {m \<in> succ_set succs n. pushes_app e m \<and> m \<notin> set ex}"
  proof (cases "map_of succs n")
    case (Some ss)
    then show ?thesis
      using that foldR_collect_one [of ss e deps ex] Cons.prems by (auto simp: succ_set_def)
  qed (use that Cons.prems in \<open>simp add: succ_set_def\<close>)
  obtain d' where d': "collect (app_table e) succs ex names d = Inr d'" "distinct d'"
    "set d' = set d \<union> {m. (\<exists>n \<in> set names. m \<in> succ_set succs n) \<and> pushes_app e m \<and> m \<notin> set ex}"
    using Cons.IH [OF _ d(2)] Cons.prems(1) by auto
  have "collect (app_table e) succs ex (n # names) deps = Inr d'"
    using d(1) d'(1) by (simp add: collect_def)
  then show ?case using d(3) d'(2,3) by auto
qed (simp add: collect_def)

lemma succ_set_remove_all: "succ_set (remove_all names m) n = (if n \<in> set names then {} else succ_set m n)"
proof (induction names arbitrary: m)
  case (Cons k names)
  have "succ_set (AList.delete k m) n = (if n = k then {} else succ_set m n)" for m
    by (simp add: succ_set_def AList.delete_conv')
  then show ?case using Cons.IH [of "AList.delete k m"] by (auto simp: remove_all_def)
qed (simp add: remove_all_def)

section \<open>Delaying dependents\<close>

text \<open>
  What holds while dependents are being delayed: those left are dependents, there is at least one, and
  a path leads to each one taken away from a selected one that is left, unless an app is its own
  successor.
\<close>

definition delays :: "(string \<times> string list) list \<Rightarrow> string list \<Rightarrow> string list \<times> string list \<Rightarrow> bool" where
  "delays succs D = (\<lambda>(sel, d).
     set d \<subseteq> set D \<and> distinct d \<and> d \<noteq> [] \<and>
     ((\<forall>n. n \<notin> succ_set succs n) \<longrightarrow>
       (\<forall>m \<in> set D - set d. \<exists>k \<in> set d \<inter> set sel. (k, m) \<in> {(x, y). y \<in> succ_set succs x \<and> x \<in> set D \<and> y \<in> set D}\<^sup>+)))"

lemma delays_one:
  assumes "delays succs D st" and "name \<in> set D" and "m \<in> succ_set succs name"
  shows "delays succs D (select_one name m st)"
proof -
  obtain sel d where st: "st = (sel, d)" by (cases st)
  let ?E = "{(x, y). y \<in> succ_set succs x \<and> x \<in> set D \<and> y \<in> set D}"
  have D: "set d \<subseteq> set D" "distinct d" "d \<noteq> []" using assms(1) by (auto simp: delays_def st)
  show ?thesis
  proof (cases "m \<notin> set sel \<and> m \<in> set d \<and> 1 < length d")
    case True
    let ?d = "filter (\<lambda>n. n \<noteq> m) d"
    have "length ?d = length d - 1"
      using True distinct_remove1_removeAll [OF D(2), of m] length_remove1 [of m d]
      by (simp add: removeAll_filter_not_eq eq_commute [of _ m])
    then have "0 < length ?d" using True by linarith
    then have "?d \<noteq> []" by blast
    moreover have "\<exists>k \<in> set ?d \<inter> set (List.insert name sel). (k, x) \<in> ?E\<^sup>+"
      if loops: "\<forall>n. n \<notin> succ_set succs n" and x: "x \<in> set D - set ?d" for x
    proof -
      have old: "\<exists>k \<in> set ?d \<inter> set sel. (k, y) \<in> ?E\<^sup>+" if "y \<in> set D - set d" for y
        using assms(1) loops that True by (fastforce simp: delays_def st)
      have nm: "(name, m) \<in> ?E" "name \<noteq> m" using assms(2,3) True D(1) loops by auto
      show ?thesis
      proof (cases "x = m")
        case True
        then show ?thesis
        proof (cases "name \<in> set d")
          case False
          then obtain k where "k \<in> set ?d \<inter> set sel" "(k, name) \<in> ?E\<^sup>+" using old assms(2) by blast
          then show ?thesis using nm(1) True by (auto intro: trancl_into_trancl)
        qed (use nm True in auto)
      next
        case False
        then show ?thesis using old [of x] x by auto
      qed
    qed
    ultimately show ?thesis
      using True D by (auto simp: delays_def select_one_def st)
  next
    case False
    then have "select_one name m st = st" by (auto simp: st select_one_def)
    with assms(1) show ?thesis by simp
  qed
qed

lemma delays_fold:
  "delays succs D st \<Longrightarrow> name \<in> set D \<Longrightarrow> set ss \<subseteq> succ_set succs name \<Longrightarrow> delays succs D (fold (select_one name) ss st)"
  by (induction ss arbitrary: st) (simp_all add: delays_one)

lemma select_ok:
  assumes "distinct D" and "D \<noteq> []"
  shows "\<exists>sel. delays succs D (sel, select succs D)"
proof -
  let ?f = "\<lambda>name st. case map_of succs name of None \<Rightarrow> st | Some ss \<Rightarrow> fold (select_one name) ss st"
  have step: "delays succs D (?f name st)" if "delays succs D st" "name \<in> set D" for name st
    using delays_fold [OF that] that(1) by (auto simp: succ_set_def split: option.splits)
  have "delays succs D (fold ?f ns st)" if "delays succs D st" "set ns \<subseteq> set D" for ns st
    using that
  proof (induction ns arbitrary: st)
    case (Cons n ns)
    have "delays succs D (?f n st)" by (rule step) (use Cons.prems in auto)
    with Cons.IH [of "?f n st"] Cons.prems(2) show ?case by simp
  qed simp
  moreover have "delays succs D ([], D)" using assms by (simp add: delays_def)
  ultimately have "delays succs D (fold ?f D ([], D))" by blast
  then have "delays succs D (fst (fold ?f D ([], D)), select succs D)"
    unfolding select_def prod.collapse .
  then show ?thesis by blast
qed


section \<open>The loop\<close>

text \<open>A step from a dependent that the loop has not processed to one it has not scheduled.\<close>

definition pending :: "engine \<Rightarrow> string set \<Rightarrow> string set \<Rightarrow> (string \<times> string) set" where
  "pending e inh ex = {(n, m). edge e n m \<and> pushes_app e m \<and> n \<notin> inh \<and> n \<notin> ex \<and> m \<notin> ex}"

definition order_inv ::
  "engine \<Rightarrow> string set \<Rightarrow> string list \<times> string list \<times> (string \<times> string list) list \<Rightarrow> bool" where
  "order_inv e inh = (\<lambda>(ex, deps, succs).
     (\<forall>n. succ_set succs n = (if n \<in> inh \<union> set ex then {} else Collect (edge e n))) \<and>
     distinct (ex @ deps) \<and> (\<forall>m \<in> set ex \<union> set deps. downstream e m) \<and>
     ((\<forall>n. \<not> edge e n n) \<longrightarrow>
       (\<forall>n \<in> inh \<union> set ex. \<forall>m. edge e n m \<longrightarrow> pushes_app e m \<longrightarrow>
         m \<in> set ex \<or> (\<exists>d \<in> set deps. (d, m) \<in> (pending e inh (set ex))\<^sup>*))))"

lemma downstream_pushes: "downstream e m \<Longrightarrow> pushes_app e m"
  by (cases rule: downstream.cases) auto

lemma pushes_in_table: "pushes_app e m \<Longrightarrow> m \<in> fst ` set (app_table e)"
  unfolding pushes_app_def by (metis map_of_eq_None_iff option.distinct(1))

text \<open>
  A path over steps pending before a round, to an app not scheduled after it, is still pending or
  passes through a dependent that the round collects.
\<close>

lemma pending_rest:
  assumes "(k, m) \<in> (pending e inh ex)\<^sup>*" and "m \<notin> ex \<union> X"
    and deps: "\<And>n y. n \<in> X \<Longrightarrow> n \<notin> inh \<union> ex \<Longrightarrow> edge e n y \<Longrightarrow> pushes_app e y \<Longrightarrow> y \<notin> ex \<union> X \<Longrightarrow> y \<in> D"
  shows "(k \<notin> ex \<union> X \<and> (k, m) \<in> (pending e inh (ex \<union> X))\<^sup>*) \<or> (\<exists>d \<in> D. (d, m) \<in> (pending e inh (ex \<union> X))\<^sup>*)"
  using assms(1)
proof (induction rule: converse_rtrancl_induct)
  case base
  then show ?case using assms(2) by simp
next
  case (step k y)
  show ?case
  proof (rule disjE [OF step.IH])
    assume y: "y \<notin> ex \<union> X \<and> (y, m) \<in> (pending e inh (ex \<union> X))\<^sup>*"
    have k: "edge e k y" "pushes_app e y" "k \<notin> inh" "k \<notin> ex" using step.hyps(1) by (auto simp: pending_def)
    show ?thesis
    proof (cases "k \<in> X")
      case True
      then have "y \<in> D" using deps k y by blast
      then show ?thesis using y by blast
    next
      case False
      then have "(k, y) \<in> pending e inh (ex \<union> X)" using k y by (auto simp: pending_def)
      then show ?thesis using y k False by (auto intro: converse_rtrancl_into_rtrancl)
    qed
  qed blast
qed

lemma order_round_ok:
  assumes "links_connect e" and "order_inv e inh (ex, deps, succs)" and "deps \<noteq> []"
  shows "\<exists>ex' deps' succs'. order_round (app_table e) (ex, deps, succs) = Inr (ex', deps', succs') \<and>
    order_inv e inh (ex', deps', succs') \<and> length ex < length ex'"
proof -
  define X where "X = sort (select succs deps)"
  let ?P = "pending e inh (set ex)" and ?P' = "pending e inh (set ex \<union> set X)"
  have succs: "\<And>n. succ_set succs n = (if n \<in> inh \<union> set ex then {} else Collect (edge e n))"
    and dist: "distinct ex" "distinct deps" "set ex \<inter> set deps = {}"
    and down: "\<And>m. m \<in> set ex \<union> set deps \<Longrightarrow> downstream e m"
    and cover: "\<And>n m. \<forall>n. \<not> edge e n n \<Longrightarrow> n \<in> inh \<union> set ex \<Longrightarrow> edge e n m \<Longrightarrow> pushes_app e m \<Longrightarrow>
      m \<in> set ex \<or> (\<exists>d \<in> set deps. (d, m) \<in> ?P\<^sup>*)"
    using assms(2) by (auto simp: order_inv_def)
  obtain sel where sel: "delays succs deps (sel, select succs deps)"
    using select_ok [OF dist(2) assms(3)] by blast
  then have X: "set X \<subseteq> set deps" "distinct X" "X \<noteq> []"
    by (auto simp: delays_def X_def simp flip: set_empty)
  have "\<forall>n \<in> set X. succ_set succs n \<subseteq> fst ` set (app_table e)"
    using edge_target [OF assms(1)] by (auto simp: succs)
  from collect_ok [OF this, of "[]" "ex @ X"] obtain D where
    D: "collect (app_table e) succs (ex @ X) X [] = Inr D" "distinct D"
      "set D = {m. (\<exists>n \<in> set X. m \<in> succ_set succs n) \<and> pushes_app e m \<and> m \<notin> set ex \<union> set X}"
    by auto
  have round: "order_round (app_table e) (ex, deps, succs) = Inr (ex @ X, D, remove_all X succs)"
    using D(1) by (simp add: order_round_def X_def Let_def)
  have "succ_set (remove_all X succs) n = (if n \<in> inh \<union> set (ex @ X) then {} else Collect (edge e n))" for n
    by (simp add: succ_set_remove_all succs)
  moreover have "distinct ((ex @ X) @ D)" using dist X D by auto
  moreover have "downstream e m" if "m \<in> set (ex @ X) \<union> set D" for m
    using that X(1) down D(3) by (auto simp: succs split: if_splits intro: downstream.further)
  moreover have "m \<in> set (ex @ X) \<or> (\<exists>d \<in> set D. (d, m) \<in> ?P'\<^sup>*)"
    if loops: "\<forall>n. \<not> edge e n n" and n: "n \<in> inh \<union> set (ex @ X)" "edge e n m" "pushes_app e m" for n m
  proof (cases "m \<in> set (ex @ X) \<or> m \<in> set D")
    case False
    then have m: "m \<notin> set ex \<union> set X" by simp
    have "n \<in> inh \<union> set ex"
    proof (rule ccontr)
      assume "n \<notin> inh \<union> set ex"
      then have "n \<in> set X" "m \<in> succ_set succs n" using n by (auto simp: succs)
      then show False using False D(3) n(3) m by blast
    qed
    with cover [OF loops this n(2,3)] m obtain d where d: "d \<in> set deps" "(d, m) \<in> ?P\<^sup>*" by auto
    obtain k where k: "k \<in> set X" "(k, d) \<in> ?P\<^sup>*"
    proof (cases "d \<in> set X")
      case False
      have "{(x, y). y \<in> succ_set succs x \<and> x \<in> set deps \<and> y \<in> set deps} \<subseteq> ?P"
        using dist(3) down downstream_pushes by (auto simp: succs pending_def split: if_splits)
      moreover obtain k where "k \<in> set X"
        "(k, d) \<in> {(x, y). y \<in> succ_set succs x \<and> x \<in> set deps \<and> y \<in> set deps}\<^sup>+"
      proof -
        have "\<forall>n. n \<notin> succ_set succs n" using loops by (simp add: succs)
        with sel False d(1) show ?thesis using that unfolding delays_def X_def by fastforce
      qed
      ultimately show ?thesis using that by (meson trancl_into_rtrancl trancl_mono)
    qed (use that in blast)
    have coll: "y \<in> set D" if "x \<in> set X" "x \<notin> inh \<union> set ex" "edge e x y" "pushes_app e y" "y \<notin> set ex \<union> set X" for x y
      using that D(3) by (auto simp: succs)
    have "(k \<notin> set ex \<union> set X \<and> (k, m) \<in> ?P'\<^sup>*) \<or> (\<exists>d \<in> set D. (d, m) \<in> ?P'\<^sup>*)"
      by (rule pending_rest [OF rtrancl_trans [OF k(2) d(2)] m]) (fact coll)
    with k(1) show ?thesis by blast
  qed (auto simp: D(3))
  ultimately have "order_inv e inh (ex @ X, D, remove_all X succs)"
    unfolding order_inv_def split_conv set_append by blast
  with round X(3) show ?thesis by auto
qed

lemma order_loop_ok:
  assumes "links_connect e" and "order_inv e inh (ex, deps, succs)"
  shows "\<exists>ex' deps' succs'. loopR (\<lambda>(ex, deps, succs). deps \<noteq> []) (order_round (app_table e)) (ex, deps, succs) =
    Inr (ex', deps', succs') \<and> order_inv e inh (ex', [], succs')"
proof -
  have bound: "length ex \<le> length (app_table e)" if "order_inv e inh (ex, deps, succs)" for ex deps succs
  proof -
    have "set ex \<subseteq> fst ` set (app_table e)" "distinct ex"
      using that downstream_pushes pushes_in_table by (auto simp: order_inv_def)
    then have "length ex \<le> card (fst ` set (app_table e))"
      by (metis List.finite_set card_mono distinct_card finite_imageI)
    also have "\<dots> \<le> length (app_table e)" by (metis card_length length_map set_map)
    finally show ?thesis .
  qed
  have "\<exists>t. loopR (\<lambda>(ex, deps, succs). deps \<noteq> []) (order_round (app_table e)) (ex, deps, succs) = Inr t \<and>
      order_inv e inh t \<and> \<not> (\<lambda>(ex, deps, succs). deps \<noteq> []) t"
  proof (rule loopR_rule [where m = "\<lambda>(ex, deps, succs). length (app_table e) - length ex"])
    show "order_inv e inh (ex, deps, succs)" by (fact assms(2))
  next
    fix s assume s: "order_inv e inh s" "(\<lambda>(ex, deps, succs). deps \<noteq> []) s"
    obtain ex deps succs where s_eq: "s = (ex, deps, succs)" by (cases s)
    from order_round_ok [OF assms(1) s(1) [unfolded s_eq]] s(2) obtain ex' deps' succs' where
      r: "order_round (app_table e) s = Inr (ex', deps', succs')" "order_inv e inh (ex', deps', succs')"
        "length ex < length ex'"
      by (auto simp: s_eq)
    then show "\<exists>s'. order_round (app_table e) s = Inr s' \<and> order_inv e inh s' \<and>
        (case s' of (ex, deps, succs) \<Rightarrow> length (app_table e) - length ex) <
        (case s of (ex, deps, succs) \<Rightarrow> length (app_table e) - length ex)"
      using bound [OF r(2)] by (intro exI [of _ "(ex', deps', succs')"]) (auto simp: s_eq)
  qed
  then show ?thesis by auto
qed


lemma compute_breathe_order_ok:
  assumes "links_connect e" and "hash_order ho" and "distinct (map fst (app_table e))"
  shows "\<exists>e'. compute_breathe_order ho e = Inr e' \<and> e' = e\<lparr>inhale := inhale e', exhale := exhale e'\<rparr> \<and>
    sorted (inhale e') \<and> distinct (inhale e') \<and> set (inhale e') = Collect (pulls_app e) \<and>
    distinct (exhale e') \<and> (\<forall>m \<in> set (exhale e'). downstream e m) \<and>
    ((\<forall>n. \<not> edge e n n) \<longrightarrow> set (exhale e') = Collect (downstream e))"
proof -
  define inh where "inh = sort (map fst (filter (\<lambda>(_, a). has_pull (as_app a)) (app_table e)))"
  have inh: "sorted inh" "distinct inh"
    using assms(3) by (simp_all add: inh_def distinct_map_filter)
  have pulls: "set inh = Collect (pulls_app e)"
    using assms(3) by (force simp: inh_def pulls_app_def intro: map_of_is_SomeI dest: map_of_SomeD)
  obtain succs where succs: "build_successors ho (map fst (link_table e)) = Inr succs"
    "\<And>n. succ_set succs n = Collect (edge e n)"
    using build_successors_ok [OF assms(1,2)] by blast
  have "\<forall>n \<in> set inh. succ_set succs n \<subseteq> fst ` set (app_table e)"
    using edge_target [OF assms(1)] by (auto simp: succs)
  from collect_ok [OF this, of "[]" "[]"] obtain deps where
    deps: "collect (app_table e) succs [] inh [] = Inr deps" "distinct deps"
      "set deps = {m. (\<exists>n \<in> set inh. edge e n m) \<and> pushes_app e m}"
    by (auto simp: succs)
  have "order_inv e (set inh) ([], deps, remove_all inh succs)"
    using deps(2,3) pulls by (auto simp: order_inv_def succ_set_remove_all succs intro: downstream.first)
  from order_loop_ok [OF assms(1) this] obtain ex d m where
    r: "loopR (\<lambda>(ex, deps, succs). deps \<noteq> []) (order_round (app_table e)) ([], deps, remove_all inh succs) =
      Inr (ex, d, m)" "order_inv e (set inh) (ex, [], m)"
    by blast
  have closed: "downstream e k \<Longrightarrow> k \<in> set ex" if "\<forall>n. \<not> edge e n n" for k
    by (induction rule: downstream.induct) (use r(2) that pulls in \<open>auto simp: order_inv_def\<close>)
  have "compute_breathe_order ho e = Inr (e\<lparr>inhale := inh, exhale := ex\<rparr>)"
    using succs(1) deps(1) r(1) by (simp add: compute_breathe_order_def inh_def Let_def)
  moreover have "distinct ex" "\<forall>m \<in> set ex. downstream e m" using r(2) by (auto simp: order_inv_def)
  ultimately show ?thesis using inh pulls closed by auto
qed

section \<open>Properties\<close>

text \<open>
  C19. In a network where no app has a link to itself, \<^verbatim>\<open>compute_breathe_order\<close> ends and schedules exactly the
  right callbacks, whatever the order in which hash tables are iterated: the pull apps, sorted by
  name, and every push app that packets can reach from a pull app through push apps, each once. It
  changes nothing else.
\<close>

theorem breathe_order_complete:
  assumes "links_connect e" and "hash_order ho" and "distinct (map fst (app_table e))" and "\<forall>n. \<not> edge e n n"
  shows "\<exists>e'. compute_breathe_order ho e = Inr e' \<and> e' = e\<lparr>inhale := inhale e', exhale := exhale e'\<rparr> \<and>
    sorted (inhale e') \<and> distinct (inhale e') \<and> set (inhale e') = Collect (pulls_app e) \<and>
    distinct (exhale e') \<and> set (exhale e') = Collect (downstream e)"
  using compute_breathe_order_ok [OF assms(1-3)] assms(4) by blast

text \<open>A source, a tee and a sink in a row.\<close>

definition demo_app :: "app \<Rightarrow> conf \<Rightarrow> app_state" where
  "demo_app x c = \<lparr>as_app = x, as_conf = c, as_ports = no_ports\<rparr>"

definition demo_network :: engine where
  "demo_network = \<lparr>
     link_table = [(''source.output -> tee.input'', 0), (''tee.output -> sink.input'', 1)],
     app_table = [(''sink'', demo_app SinkApp Sink), (''tee'', demo_app TeeApp Tee),
                  (''source'', demo_app (SourceApp 60) (Source 60))],
     inhale = [], exhale = [], next_link = 2\<rparr>"

lemma demo_specs:
  "parse_link ''source.output -> tee.input'' =
     Inr \<lparr>spec_from = ''source'', spec_output = ''output'', spec_to = ''tee'', spec_input = ''input''\<rparr>"
  "parse_link ''tee.output -> sink.input'' =
     Inr \<lparr>spec_from = ''tee'', spec_output = ''output'', spec_to = ''sink'', spec_input = ''input''\<rparr>"
  by code_simp+

lemma demo_network_ok:
  "links_connect demo_network" "hash_order (\<lambda>_ xs. rev xs)" "distinct (map fst (app_table demo_network))"
  "\<not> edge demo_network n n"
  by (auto simp: links_connect_def demo_network_def demo_specs hash_order_def edge_def)

lemma demo_downstream: "downstream demo_network ''sink''"
proof -
  have "downstream demo_network ''tee''"
    by (rule downstream.first [of _ "''source''"])
      (auto simp: pulls_app_def pushes_app_def edge_def demo_network_def demo_specs demo_app_def has_pull_def has_push_def)
  then show ?thesis
    by (rule downstream.further)
      (auto simp: pushes_app_def edge_def demo_network_def demo_specs demo_app_def has_push_def)
qed

theorem breathe_order_complete_witness:
  "\<exists>e'. compute_breathe_order (\<lambda>_ xs. rev xs) demo_network = Inr e' \<and> ''sink'' \<in> set (exhale e')"
  using breathe_order_complete [OF demo_network_ok(1-3)] demo_network_ok(4) demo_downstream by fastforce

text \<open>
  In every network, with loops of any kind, \<^verbatim>\<open>compute_breathe_order\<close> ends, runs no callback more than once
  in a breath, and runs \<^verbatim>\<open>pull\<close> and \<^verbatim>\<open>push\<close> only on apps of the table that have them.
\<close>

theorem breathe_order_terminates:
  assumes "links_connect e" and "hash_order ho" and "distinct (map fst (app_table e))"
  shows "\<exists>e'. compute_breathe_order ho e = Inr e' \<and> distinct (inhale e') \<and> distinct (exhale e') \<and>
    (\<forall>n \<in> set (inhale e'). pulls_app e n) \<and> (\<forall>n \<in> set (exhale e'). pushes_app e n)"
  using compute_breathe_order_ok [OF assms] downstream_pushes by fastforce


theorem breathe_order_terminates_witness:
  "\<exists>e'. compute_breathe_order (\<lambda>_ xs. rev xs) demo_network = Inr e' \<and> distinct (exhale e')"
  using breathe_order_terminates [OF demo_network_ok(1-3)] by blast

section \<open>Links from an app to itself\<close>

text \<open>
  Among dependents \<open>D\<close> of which \<open>a\<close> is its own successor and \<open>b\<close> is no successor of any, \<open>a\<close> delays itself.
\<close>

definition self_delay :: "string \<Rightarrow> string \<Rightarrow> string list \<Rightarrow> string list \<times> string list \<Rightarrow> bool" where
  "self_delay a b D = (\<lambda>(sel, d). set d \<subseteq> set D \<and> b \<in> set d \<and> (a \<in> set sel \<longrightarrow> a \<notin> set d))"

lemma self_delay_one:
  assumes "self_delay a b D st" and "m \<noteq> b" and "name = a \<Longrightarrow> m = a \<or> m \<notin> set D"
  shows "self_delay a b D (select_one name m st)"
proof -
  obtain sel d where st: "st = (sel, d)" by (cases st)
  show ?thesis using assms by (auto simp: self_delay_def select_one_def st)
qed

lemma self_delay_removes:
  assumes "self_delay a b D st" and "a \<noteq> b"
  shows "a \<notin> set (snd (select_one a a st))"
proof -
  obtain sel d where st: "st = (sel, d)" by (cases st)
  have d: "b \<in> set d" "a \<in> set d \<Longrightarrow> a \<notin> set sel" using assms(1) by (auto simp: self_delay_def st)
  have "1 < length d" if "a \<in> set d"
  proof -
    have "card {a, b} \<le> card (set d)" using that d(1) by (intro card_mono) auto
    then show ?thesis using assms(2) card_length [of d] by simp
  qed
  then show ?thesis using d by (auto simp: select_one_def st)
qed

lemma select_one_removed: "x \<notin> set (snd st) \<Longrightarrow> x \<notin> set (snd (select_one name m st))"
  by (cases st) (auto simp: select_one_def)

lemma select_drops_self:
  assumes "a \<in> set D" and "b \<in> set D" and "a \<noteq> b" and "a \<in> succ_set succs a"
    and "\<And>m. m \<in> succ_set succs a \<Longrightarrow> m = a \<or> m \<notin> set D" and "\<And>n. n \<in> set D \<Longrightarrow> b \<notin> succ_set succs n"
  shows "a \<notin> set (select succs D)"
proof -
  let ?f = "\<lambda>name st. case map_of succs name of None \<Rightarrow> st | Some ss \<Rightarrow> fold (select_one name) ss st"
  have ones: "self_delay a b D (fold (select_one name) ss st) \<and> (name = a \<longrightarrow> a \<in> set ss \<longrightarrow> a \<notin> set (snd (fold (select_one name) ss st))) \<and>
      (a \<notin> set (snd st) \<longrightarrow> a \<notin> set (snd (fold (select_one name) ss st)))"
    if "self_delay a b D st" "name \<in> set D" "set ss \<subseteq> succ_set succs name" for name ss st
    using that
  proof (induction ss arbitrary: st)
    case (Cons m ss)
    have "m \<noteq> b" "name = a \<Longrightarrow> m = a \<or> m \<notin> set D" using Cons.prems assms(5,6) by auto
    from self_delay_one [OF Cons.prems(1) this] have "self_delay a b D (select_one name m st)" .
    from Cons.IH [OF this Cons.prems(2)] Cons.prems(3) self_delay_removes [OF Cons.prems(1) assms(3)] select_one_removed [of a st name m]
    show ?case by auto
  qed simp
  have step: "self_delay a b D (?f name st) \<and> (name = a \<longrightarrow> a \<notin> set (snd (?f name st))) \<and> (a \<notin> set (snd st) \<longrightarrow> a \<notin> set (snd (?f name st)))"
    if "self_delay a b D st" "name \<in> set D" for name st
    using ones [OF that] that(1) assms(4) by (auto simp: succ_set_def split: option.splits)
  have "a \<notin> set (snd (fold ?f ns st))" if "self_delay a b D st" "set ns \<subseteq> set D" "a \<in> set ns \<or> a \<notin> set (snd st)" for ns st
    using that
  proof (induction ns arbitrary: st)
    case (Cons n ns)
    have s: "self_delay a b D (?f n st) \<and> (n = a \<longrightarrow> a \<notin> set (snd (?f n st))) \<and> (a \<notin> set (snd st) \<longrightarrow> a \<notin> set (snd (?f n st)))"
      by (rule step) (use Cons.prems in auto)
    have "a \<notin> set (snd (fold ?f ns (?f n st)))" by (rule Cons.IH) (use s Cons.prems in auto)
    then show ?case by simp
  qed simp
  moreover have "self_delay a b D ([], D)" using assms(2) by (simp add: self_delay_def)
  ultimately show ?thesis using assms(1) by (simp add: select_def)
qed

text \<open>
  The app \<open>a\<close> is not scheduled, and it is no dependent after the first round: only pull apps and itself link to it.
\<close>

definition starving :: "engine \<Rightarrow> string \<Rightarrow> string \<Rightarrow> string list \<times> string list \<times> (string \<times> string list) list \<Rightarrow> bool" where
  "starving e a b = (\<lambda>(ex, deps, succs). a \<notin> set ex \<and>
     (a \<in> set deps \<longrightarrow> b \<in> set deps \<and> (\<forall>m \<in> set deps. \<exists>p. pulls_app e p \<and> edge e p m)))"

lemma order_round_starves:
  assumes "links_connect e" and "order_inv e (Collect (pulls_app e)) st" and "starving e a b st" and "fst (snd st) \<noteq> []"
    and a: "edge e a a" "\<not> pulls_app e a" "\<And>n. edge e n a \<Longrightarrow> n = a \<or> pulls_app e n"
      "\<And>m p. edge e a m \<Longrightarrow> pulls_app e p \<Longrightarrow> edge e p m \<Longrightarrow> m = a"
    and b: "b \<noteq> a" "\<And>n. edge e n b \<Longrightarrow> pulls_app e n"
  shows "\<exists>st'. order_round (app_table e) st = Inr st' \<and> order_inv e (Collect (pulls_app e)) st' \<and> starving e a b st'"
proof -
  obtain ex deps succs where st: "st = (ex, deps, succs)" by (cases st)
  from order_round_ok [OF assms(1) assms(2) [unfolded st]] assms(4) obtain ex' deps' succs' where
    r: "order_round (app_table e) (ex, deps, succs) = Inr (ex', deps', succs')" "order_inv e (Collect (pulls_app e)) (ex', deps', succs')"
    by (auto simp: st)
  let ?X = "sort (select succs deps)"
  have succs: "\<And>n. succ_set succs n = (if n \<in> Collect (pulls_app e) \<union> set ex then {} else Collect (edge e n))"
    and dist: "distinct deps" "set ex \<inter> set deps = {}"
    using assms(2) by (auto simp: order_inv_def st)
  have ex': "ex' = ex @ ?X" "collect (app_table e) succs (ex @ ?X) ?X [] = Inr deps'"
    using r(1) by (auto simp: order_round_def Let_def bindR_eq_Inr)
  have "\<forall>n \<in> set ?X. succ_set succs n \<subseteq> fst ` set (app_table e)"
    using edge_target [OF assms(1)] by (auto simp: succs)
  from collect_ok [OF this, of "[]" "ex @ ?X"] ex'(2)
  have deps': "m \<in> set deps' \<Longrightarrow> \<exists>n \<in> set ?X. m \<in> succ_set succs n" for m by auto
  have X: "a \<notin> set ?X"
  proof (cases "a \<in> set deps")
    case True
    with assms(3) have d: "a \<notin> set ex" "b \<in> set deps" "\<forall>m \<in> set deps. \<exists>p. pulls_app e p \<and> edge e p m" by (auto simp: starving_def st)
    have "a \<notin> set (select succs deps)"
    proof (rule select_drops_self [OF True d(2) b(1) [symmetric]])
      show "a \<in> succ_set succs a" using a(1,2) d(1) by (simp add: succs)
      show "m = a \<or> m \<notin> set deps" if "m \<in> succ_set succs a" for m
        using that d(3) a(4) by (auto simp: succs split: if_splits)
      show "b \<notin> succ_set succs n" if "n \<in> set deps" for n using b(2) by (auto simp: succs)
    qed
    then show ?thesis by simp
  next
    case False
    obtain sel where "delays succs deps (sel, select succs deps)" using select_ok [OF dist(1)] assms(4) by (auto simp: st)
    with False show ?thesis by (auto simp: delays_def)
  qed
  moreover have "a \<notin> set deps'"
  proof
    assume "a \<in> set deps'"
    then obtain n where "n \<in> set ?X" "a \<in> succ_set succs n" using deps' by blast
    then have "n \<in> set ?X" "edge e n a" "\<not> pulls_app e n" by (auto simp: succs split: if_splits)
    with a(3) X show False by blast
  qed
  moreover have "a \<notin> set ex" using assms(3) by (simp add: starving_def st)
  ultimately show ?thesis using r by (auto simp: st starving_def ex'(1))
qed

text \<open>
  C23. A link from an app to itself can starve it: if packets reach the app \<open>a\<close> only from pull apps (and from itself), if \<open>a\<close> leads to no other app behind a pull app,
  and if another app \<open>b\<close>, with links from pull apps only, is scheduled along with it, then \<open>a\<close> is delayed after itself, and nothing collects it again: whatever the order
  in which hash tables are iterated, \<^verbatim>\<open>compute_breathe_order\<close> ends and does not schedule \<open>a\<close>, although packets reach it.
\<close>

theorem self_link_starves:
  assumes "links_connect e" and "hash_order ho" and "distinct (map fst (app_table e))"
    and "pushes_app e a" and "\<not> pulls_app e a" and "edge e a a" and "pulls_app e p" and "edge e p a"
    and "\<forall>n. edge e n a \<longrightarrow> n = a \<or> pulls_app e n" and "\<forall>m. edge e a m \<longrightarrow> m = a \<or> (\<forall>n. pulls_app e n \<longrightarrow> \<not> edge e n m)"
    and "pushes_app e b" and "b \<noteq> a" and "pulls_app e q" and "edge e q b" and "\<forall>n. edge e n b \<longrightarrow> pulls_app e n"
  shows "\<exists>e'. compute_breathe_order ho e = Inr e' \<and> downstream e a \<and> a \<notin> set (exhale e')"
proof -
  define inh where "inh = sort (map fst (filter (\<lambda>(_, a). has_pull (as_app a)) (app_table e)))"
  have inh: "set inh = Collect (pulls_app e)"
    using assms(3) by (force simp: inh_def pulls_app_def intro: map_of_is_SomeI dest: map_of_SomeD)
  obtain succs where succs: "build_successors ho (map fst (link_table e)) = Inr succs" "\<And>n. succ_set succs n = Collect (edge e n)"
    using build_successors_ok [OF assms(1,2)] by blast
  have "\<forall>n \<in> set inh. succ_set succs n \<subseteq> fst ` set (app_table e)" using edge_target [OF assms(1)] by (auto simp: succs)
  from collect_ok [OF this, of "[]" "[]"] obtain deps where
    deps: "collect (app_table e) succs [] inh [] = Inr deps" "distinct deps"
      "set deps = {m. (\<exists>n \<in> set inh. edge e n m) \<and> pushes_app e m}"
    by (auto simp: succs)
  let ?st = "([], deps, remove_all inh succs)" and ?b = "\<lambda>(ex, deps, succs). deps \<noteq> []"
  let ?P = "\<lambda>st. order_inv e (Collect (pulls_app e)) st \<and> starving e a b st"
  obtain e' where e': "compute_breathe_order ho e = Inr e'" using compute_breathe_order_ok [OF assms(1-3)] by blast
  then obtain ex d m where l: "loopR ?b (order_round (app_table e)) ?st = Inr (ex, d, m)" "exhale e' = ex"
    by (auto simp: compute_breathe_order_def succs(1) deps(1) Let_def bindR_eq_Inr simp flip: inh_def)
  have start: "?P ?st"
    using deps(2,3) inh assms(11,13,14)
    by (auto simp: order_inv_def succ_set_remove_all succs(2) starving_def intro: downstream.first)
  have "?P (ex, d, m) \<and> \<not> ?b (ex, d, m)"
  proof (rule loopR_inv [OF l(1), where P = ?P])
    show "?P ?st" by (rule start)
    fix s s' assume h: "?P s" "?b s" "order_round (app_table e) s = Inr s'"
    from h order_round_starves [OF assms(1), of s a b] assms(5,6,9,10,12,15) show "?P s'"
      by (auto simp: case_prod_unfold)
  qed
  then have "a \<notin> set (exhale e')" by (simp add: starving_def l(2))
  moreover have "downstream e a" by (rule downstream.first [OF assms(7,8,4)])
  ultimately show ?thesis using e' by blast
qed

text \<open>A source with two tees; the first of them has a link to itself.\<close>

definition self_linked :: engine where
  "self_linked = \<lparr>
     link_table = [(''source.a -> a.input'', 0), (''source.b -> b.input'', 1), (''a.back -> a.again'', 2)],
     app_table = [(''a'', demo_app TeeApp Tee), (''b'', demo_app TeeApp Tee),
                  (''source'', demo_app (SourceApp 60) (Source 60))],
     inhale = [], exhale = [], next_link = 3\<rparr>"

lemma self_linked_edges:
  "edge self_linked n m \<longleftrightarrow> n = ''source'' \<and> m \<in> {''a'', ''b''} \<or> n = ''a'' \<and> m = ''a''" "links_connect self_linked"
  "pulls_app self_linked n \<longleftrightarrow> n = ''source''" "pushes_app self_linked ''a''" "pushes_app self_linked ''b''"
proof -
  have p: "parse_link ''source.a -> a.input'' =
      Inr \<lparr>spec_from = ''source'', spec_output = ''a'', spec_to = ''a'', spec_input = ''input''\<rparr>"
    "parse_link ''source.b -> b.input'' =
      Inr \<lparr>spec_from = ''source'', spec_output = ''b'', spec_to = ''b'', spec_input = ''input''\<rparr>"
    "parse_link ''a.back -> a.again'' =
      Inr \<lparr>spec_from = ''a'', spec_output = ''back'', spec_to = ''a'', spec_input = ''again''\<rparr>"
    by code_simp+
  show "edge self_linked n m \<longleftrightarrow> n = ''source'' \<and> m \<in> {''a'', ''b''} \<or> n = ''a'' \<and> m = ''a''" "links_connect self_linked"
    by (auto simp: edge_def links_connect_def self_linked_def p)
  show "pulls_app self_linked n \<longleftrightarrow> n = ''source''" "pushes_app self_linked ''a''" "pushes_app self_linked ''b''"
    by (auto simp: pulls_app_def pushes_app_def self_linked_def demo_app_def has_pull_def has_push_def)
qed

theorem self_link_starves_witness:
  "\<exists>e'. compute_breathe_order (\<lambda>_ xs. xs) self_linked = Inr e' \<and> downstream self_linked ''a'' \<and> ''a'' \<notin> set (exhale e')"
  by (rule self_link_starves [of self_linked "\<lambda>_ xs. xs" "''a''" "''source''" "''b''" "''source''"])
    (auto simp: self_linked_edges hash_order_def, simp add: self_linked_def)

end
