(* ===== verification/Configure.thy ===== *)
theory Configure
  imports Breathe_Order
begin

text \<open>
  What \<^verbatim>\<open>configure\<close> of \<^verbatim>\<open>rush/src/engine.rs\<close> does: it makes the running network match a configuration, keeps the
  apps and the links that stay, with their state and their packets, and frees the packets of those that go.
\<close>

declare length_contents [simp del] take_append [simp del]

section \<open>Well-formed engine states\<close>

definition tables_ok :: "engine \<Rightarrow> bool" where
  "tables_ok e \<longleftrightarrow> distinct (map fst (link_table e)) \<and> distinct (map fst (app_table e)) \<and>
     distinct (map snd (link_table e)) \<and> (\<forall>h \<in> snd ` set (link_table e). h < next_link e)"

text \<open>The link \<open>h\<close> of the table leaves the output \<open>p\<close> of the app \<open>n\<close>, or enters its input \<open>p\<close>.\<close>

definition leaves :: "engine \<Rightarrow> string \<Rightarrow> string \<Rightarrow> nat \<Rightarrow> bool" where
  "leaves e n p h \<longleftrightarrow>
     (\<exists>spec l. (spec, h) \<in> set (link_table e) \<and> parse_link spec = Inr l \<and> spec_from l = n \<and> spec_output l = p)"

definition enters :: "engine \<Rightarrow> string \<Rightarrow> string \<Rightarrow> nat \<Rightarrow> bool" where
  "enters e n p h \<longleftrightarrow>
     (\<exists>spec l. (spec, h) \<in> set (link_table e) \<and> parse_link spec = Inr l \<and> spec_to l = n \<and> spec_input l = p)"

text \<open>Ports refer only to links of the table, and to those that belong there.\<close>

definition ports_sound :: "engine \<Rightarrow> bool" where
  "ports_sound e \<longleftrightarrow> (\<forall>(n, a) \<in> set (app_table e).
     (\<forall>(p, h) \<in> set (app_output (as_ports a)). leaves e n p h) \<and>
     (\<forall>(p, h) \<in> set (app_input (as_ports a)). enters e n p h))"

text \<open>The output and the input map of an app.\<close>

definition port_maps :: "engine \<Rightarrow> string \<Rightarrow> ((string \<rightharpoonup> nat) \<times> (string \<rightharpoonup> nat)) option" where
  "port_maps e n = map_option (\<lambda>a. (map_of (app_output (as_ports a)), map_of (app_input (as_ports a)))) (map_of (app_table e) n)"

text \<open>Both ends of every link of a list of links refer to it.\<close>

definition wired :: "engine \<Rightarrow> string list \<Rightarrow> bool" where
  "wired e specs \<longleftrightarrow> (\<forall>spec \<in> set specs. \<exists>h l. map_of (link_table e) spec = Some h \<and> parse_link spec = Inr l \<and>
     (\<exists>out inp. port_maps e (spec_from l) = Some (out, inp) \<and> out (spec_output l) = Some h) \<and>
     (\<exists>out inp. port_maps e (spec_to l) = Some (out, inp) \<and> inp (spec_input l) = Some h))"

definition engine_ok :: "engine \<Rightarrow> bool" where
  "engine_ok e \<longleftrightarrow> tables_ok e \<and> ports_sound e \<and> links_connect e"

text \<open>
  A configuration whose links connect its apps, and no two of them share a port.
\<close>

definition config_ok :: "conf config \<Rightarrow> bool" where
  "config_ok c \<longleftrightarrow> distinct (map fst (cfg_apps c)) \<and> distinct (cfg_links c) \<and>
     (\<forall>spec \<in> set (cfg_links c). \<exists>l. parse_link spec = Inr l \<and>
        spec_from l \<in> fst ` set (cfg_apps c) \<and> spec_to l \<in> fst ` set (cfg_apps c)) \<and>
     (\<forall>spec \<in> set (cfg_links c). \<forall>spec' \<in> set (cfg_links c). \<forall>l l'.
        parse_link spec = Inr l \<longrightarrow> parse_link spec' = Inr l' \<longrightarrow> spec \<noteq> spec' \<longrightarrow>
        (spec_from l, spec_output l) \<noteq> (spec_from l', spec_output l') \<and>
        (spec_to l, spec_input l) \<noteq> (spec_to l', spec_input l'))"

section \<open>Packets held by the network\<close>

fun held_in_queue :: "delayed_packet list \<Rightarrow> nat" where
  "held_in_queue [] = 0"
| "held_in_queue (Delay _ # ds) = held_in_queue ds"
| "held_in_queue (Packet _ # ds) = Suc (held_in_queue ds)"

definition queue_of :: "app \<Rightarrow> delayed_packet list" where
  "queue_of x = (case x of LatencyApp _ q \<Rightarrow> dq_packets q | JitterApp _ _ _ q \<Rightarrow> dq_packets q | _ \<Rightarrow> [])"

definition app_ok :: "app \<Rightarrow> bool" where
  "app_ok x \<longleftrightarrow> (\<forall>p. Packet p \<in> set (queue_of x) \<longrightarrow> packet_ok p)"

text \<open>An app is an instance of its configuration.\<close>

definition app_matches :: "conf \<Rightarrow> app \<Rightarrow> bool" where
  "app_matches c x =
     (case c of
        Source sz \<Rightarrow> x = SourceApp sz
      | Sink \<Rightarrow> x = SinkApp
      | Join \<Rightarrow> x = JoinApp
      | Tee \<Rightarrow> x = TeeApp
      | RawSocket _ \<Rightarrow> (case x of RawSocketApp _ \<Rightarrow> True | _ \<Rightarrow> False)
      | conf.Checksum \<Rightarrow> x = ChecksumApp
      | TSD mss \<Rightarrow> x = TSDApp mss \<and> 0 < mss
      | Loss ratio \<Rightarrow> x = LossApp ratio \<and> loss_new ratio = Inr ratio
      | Latency ms cap \<Rightarrow> (case x of LatencyApp ms' q \<Rightarrow> ms' = ms \<and> dq_capacity q = cap | _ \<Rightarrow> False)
      | Jitter ms st re cap \<Rightarrow>
          (case x of JitterApp us st' re' q \<Rightarrow> us = jitter_us ms \<and> st' = st \<and> re' = re \<and> dq_capacity q = cap | _ \<Rightarrow> False)
      | RateLimiter rate \<Rightarrow>
          (case x of RateLimiterApp rl \<Rightarrow> rl = rate_limiter_new rate\<lparr>rl_bucket := rl_bucket rl\<rparr> | _ \<Rightarrow> False)
      | conf.Split fs \<Rightarrow> x = SplitApp fs
      | Top path d \<Rightarrow> x = TopApp path d)"

abbreviation app_held :: "app \<Rightarrow> nat" where
  "app_held x \<equiv> held_in_queue (queue_of x)"

definition apps_view :: "engine \<Rightarrow> (string \<times> app \<times> conf) list" where
  "apps_view e = map (\<lambda>(n, a). (n, as_app a, as_conf a)) (app_table e)"

definition links_held :: "(string \<times> nat) list \<Rightarrow> io \<Rightarrow> nat" where
  "links_held ls i = sum_list (map (\<lambda>(_, h). length (contents (io_links i h))) ls)"

definition apps_held :: "(string \<times> app \<times> conf) list \<Rightarrow> nat" where
  "apps_held v = sum_list (map (\<lambda>(_, x, _). app_held x) v)"

definition held :: "engine \<Rightarrow> io \<Rightarrow> nat" where
  "held e i = links_held (link_table e) i + apps_held (apps_view e)"

text \<open>
  Every packet in use is on a link of the table or in the queue of an app of the table, and the apps
  are instances of their configurations.
\<close>

definition accounted :: "engine \<Rightarrow> io \<Rightarrow> bool" where
  "accounted e i \<longleftrightarrow> io_ok i (held e i) \<and> (\<forall>(_, x, c) \<in> set (apps_view e). app_ok x \<and> app_matches c x)"

section \<open>Association lists\<close>

lemma set_update_distinct:
  "distinct (map fst al) \<Longrightarrow> set (AList.update k v al) = insert (k, v) {(k', v') \<in> set al. k' \<noteq> k}"
  by (induction al) (auto simp: rev_image_eqI)

lemma set_delete_alist: "set (AList.delete k al) = {(k', v') \<in> set al. k' \<noteq> k}"
  by (auto simp: AList.delete_eq)

lemma set_update_sub: "set (AList.update k v al) \<subseteq> insert (k, v) (set al)"
  by (induction al) auto

lemma map_update_same:
  "map_of al k = Some v0 \<Longrightarrow> g (k, v) = g (k, v0) \<Longrightarrow> map g (AList.update k v al) = map g al"
  by (induction al) (auto split: if_splits)

lemma update_new_key: "map_of al k = None \<Longrightarrow> AList.update k v al = al @ [(k, v)]"
  by (induction al) (auto split: if_splits)

lemma delete_as_filter: "AList.delete k al = filter (\<lambda>(k', _). k' \<noteq> k) al"
  by (auto simp: AList.delete_eq intro!: filter_cong)

lemma sum_list_split_filter:
  "sum_list (map f (filter P xs)) + sum_list (map f (filter (\<lambda>x. \<not> P x) xs)) = (sum_list (map f xs) :: nat)"
  by (induction xs) auto

lemma apps_view_modify:
  assumes "map_of (app_table e) n = Some a" and "as_app a' = as_app a" and "as_conf a' = as_conf a"
  shows "apps_view (e\<lparr>app_table := AList.update n a' (app_table e)\<rparr>) = apps_view e"
  by (simp add: apps_view_def map_update_same [OF assms(1)] assms(2,3))

lemma apps_view_keys: "map fst (apps_view e) = map fst (app_table e)"
  by (simp add: apps_view_def case_prod_unfold comp_def)

lemma apps_view_lookup:
  "map_of (apps_view e) n = map_option (\<lambda>a. (as_app a, as_conf a)) (map_of (app_table e) n)"
  by (simp add: apps_view_def map_of_map_key [where f = "\<lambda>_ a. (as_app a, as_conf a)"])

lemma port_changes_keep [simp]:
  "as_app (set_output p h a) = as_app a" "as_conf (set_output p h a) = as_conf a"
  "as_app (set_input p h a) = as_app a" "as_conf (set_input p h a) = as_conf a"
  "as_app (remove_output p a) = as_app a" "as_conf (remove_output p a) = as_conf a"
  "as_app (remove_input p a) = as_app a" "as_conf (remove_input p a) = as_conf a"
  "app_input (as_ports (set_output p h a)) = app_input (as_ports a)"
  "app_output (as_ports (set_input p h a)) = app_output (as_ports a)"
  "app_output (as_ports (set_output p h a)) = AList.update p h (app_output (as_ports a))"
  "app_input (as_ports (set_input p h a)) = AList.update p h (app_input (as_ports a))"
  "app_input (as_ports (remove_output p a)) = app_input (as_ports a)"
  "app_output (as_ports (remove_input p a)) = app_output (as_ports a)"
  "app_output (as_ports (remove_output p a)) = AList.delete p (app_output (as_ports a))"
  "app_input (as_ports (remove_input p a)) = AList.delete p (app_input (as_ports a))"
  by (simp_all add: set_output_def set_input_def remove_output_def remove_input_def)

section \<open>Unlinking\<close>

lemma unlink_apps_ok:
  assumes "engine_ok e" and "spec \<in> fst ` set (link_table e)"
  shows "\<exists>e'. unlink_apps spec e = Inr e' \<and> engine_ok e' \<and> link_table e' = AList.delete spec (link_table e) \<and>
    apps_view e' = apps_view e \<and> next_link e' = next_link e"
proof -
  have ok: "tables_ok e" "ports_sound e" "links_connect e" using assms(1) by (simp_all add: engine_ok_def)
  obtain l a where l: "parse_link spec = Inr l" "map_of (app_table e) (spec_from l) = Some a"
      "map_of (app_table e) (spec_to l) \<noteq> None"
    using ok(3) assms(2) unfolding links_connect_def by blast
  define al where "al = AList.update (spec_from l) (remove_output (spec_output l) a) (app_table e)"
  obtain b where b: "map_of al (spec_to l) = Some b"
    using l(3) by (cases "spec_to l = spec_from l") (auto simp: al_def update_conv')
  define e' where "e' = e\<lparr>link_table := AList.delete spec (link_table e),
    app_table := AList.update (spec_to l) (remove_input (spec_input l) b) al\<rparr>"
  have "unlink_apps spec e = Inr e'"
    using l b by (simp add: unlink_apps_def modify_app_def Let_def al_def e'_def)
  moreover have view: "apps_view e' = apps_view e"
  proof -
    have "apps_view (e\<lparr>app_table := al\<rparr>) = apps_view e"
      unfolding al_def by (rule apps_view_modify [OF l(2)]) simp_all
    moreover have "apps_view (e\<lparr>app_table := al, app_table := AList.update (spec_to l) (remove_input (spec_input l) b) al\<rparr>) =
        apps_view (e\<lparr>app_table := al\<rparr>)"
      using apps_view_modify [of "e\<lparr>app_table := al\<rparr>"] b by simp
    ultimately show ?thesis by (simp add: e'_def apps_view_def)
  qed
  have dist: "distinct (map fst (app_table e))" "distinct (map fst al)"
    using ok(1) by (simp_all add: tables_ok_def al_def AList.distinct_update)
  have tables: "tables_ok e'"
    using ok(1) apps_view_keys [of e'] apps_view_keys [of e] view
    by (auto simp: tables_ok_def e'_def delete_as_filter distinct_map_filter)
  have shrunk: "\<exists>a0. (n, a0) \<in> set (app_table e) \<and>
      set (app_output (as_ports x)) \<subseteq> {(p, h) \<in> set (app_output (as_ports a0)). \<not> (n = spec_from l \<and> p = spec_output l)} \<and>
      set (app_input (as_ports x)) \<subseteq> {(p, h) \<in> set (app_input (as_ports a0)). \<not> (n = spec_to l \<and> p = spec_input l)}"
    if "(n, x) \<in> set (app_table e')" for n x
  proof -
    have one: "\<exists>a0. (n, a0) \<in> set (app_table e) \<and> app_input (as_ports y) = app_input (as_ports a0) \<and>
      set (app_output (as_ports y)) \<subseteq> {(p, h) \<in> set (app_output (as_ports a0)). \<not> (n = spec_from l \<and> p = spec_output l)}"
      if "(n, y) \<in> set al" for y
      using that map_of_SomeD [OF l(2)] unfolding al_def set_update_distinct [OF dist(1)]
      by (fastforce simp: set_delete_alist)
    from that consider "n = spec_to l" "x = remove_input (spec_input l) b" | "(n, x) \<in> set al" "n \<noteq> spec_to l"
      by (auto simp: e'_def set_update_distinct [OF dist(2)])
    then show ?thesis
    proof cases
      case 1
      with one [of b] map_of_SomeD [OF b] obtain a0 where
        "(n, a0) \<in> set (app_table e)" "app_input (as_ports b) = app_input (as_ports a0)"
        "set (app_output (as_ports b)) \<subseteq> {(p, h) \<in> set (app_output (as_ports a0)). \<not> (n = spec_from l \<and> p = spec_output l)}"
        by blast
      with 1 show ?thesis by (intro exI [of _ a0]) (auto simp: set_delete_alist)
    next
      case 2
      with one [OF 2(1)] show ?thesis by auto
    qed
  qed
  have keep: "leaves e' n p h" if "leaves e n p h" "\<not> (n = spec_from l \<and> p = spec_output l)" for n p h
    using that l(1) by (auto simp: leaves_def e'_def set_delete_alist)
  have keep': "enters e' n p h" if "enters e n p h" "\<not> (n = spec_to l \<and> p = spec_input l)" for n p h
    using that l(1) by (auto simp: enters_def e'_def set_delete_alist)
  have "ports_sound e'"
    unfolding ports_sound_def
  proof (clarify, intro conjI ballI; clarify)
    fix n x p h assume nx: "(n, x) \<in> set (app_table e')"
    obtain a0 where a0: "(n, a0) \<in> set (app_table e)"
      "set (app_output (as_ports x)) \<subseteq> {(p, h) \<in> set (app_output (as_ports a0)). \<not> (n = spec_from l \<and> p = spec_output l)}"
      "set (app_input (as_ports x)) \<subseteq> {(p, h) \<in> set (app_input (as_ports a0)). \<not> (n = spec_to l \<and> p = spec_input l)}"
      using shrunk [OF nx] by blast
    show "leaves e' n p h" if "(p, h) \<in> set (app_output (as_ports x))"
      using that a0 ok(2) keep by (fastforce simp: ports_sound_def)
    show "enters e' n p h" if "(p, h) \<in> set (app_input (as_ports x))"
      using that a0 ok(2) keep' by (fastforce simp: ports_sound_def)
  qed
  moreover have "links_connect e'"
  proof -
    have "map_of (app_table e') n = None \<longleftrightarrow> map_of (app_table e) n = None" for n
      unfolding map_of_eq_None_iff using view by (metis apps_view_keys set_map)
    then show ?thesis using ok(3) by (auto simp: links_connect_def e'_def set_delete_alist)
  qed
  ultimately show ?thesis using tables view by (auto simp: engine_ok_def e'_def)
qed


lemma unlink_list_ok:
  assumes "engine_ok e" and "distinct (map fst ls)" and "fst ` set ls \<subseteq> fst ` set (link_table e)"
  shows "\<exists>e'. foldR (\<lambda>(spec, _) e. if spec \<in> set keep then Inr e else unlink_apps spec e) ls e = Inr e' \<and>
    engine_ok e' \<and> apps_view e' = apps_view e \<and> next_link e' = next_link e \<and>
    link_table e' = filter (\<lambda>(spec, _). spec \<in> set keep \<or> spec \<notin> fst ` set ls) (link_table e)"
  using assms
proof (induction ls arbitrary: e)
  case (Cons sh ls)
  obtain spec h where sh: "sh = (spec, h)" by (cases sh)
  obtain e1 where e1: "(if spec \<in> set keep then Inr e else unlink_apps spec e) = Inr e1" "engine_ok e1"
    "apps_view e1 = apps_view e" "next_link e1 = next_link e"
    "link_table e1 = filter (\<lambda>(x, _). x \<in> set keep \<or> x \<noteq> spec) (link_table e)"
  proof (cases "spec \<in> set keep")
    case True
    then have "link_table e = filter (\<lambda>(x, _). x \<in> set keep \<or> x \<noteq> spec) (link_table e)"
      by (auto intro!: filter_True [symmetric])
    with that [of e] True Cons.prems(1) show ?thesis by auto
  next
    case False
    then have "AList.delete spec (link_table e) = filter (\<lambda>(x, _). x \<in> set keep \<or> x \<noteq> spec) (link_table e)"
      by (auto simp: delete_as_filter intro!: filter_cong)
    with unlink_apps_ok [OF Cons.prems(1), of spec] Cons.prems(3) False show ?thesis
      using that by (auto simp: sh)
  qed
  have "fst ` set ls \<subseteq> fst ` set (link_table e1)"
  proof
    fix x assume x: "x \<in> fst ` set ls"
    then obtain k where "(x, k) \<in> set (link_table e)" using Cons.prems(3) by auto
    moreover have "x \<noteq> spec" using x Cons.prems(2) by (auto simp: sh)
    ultimately show "x \<in> fst ` set (link_table e1)"
      unfolding e1(5) by (intro image_eqI [of _ _ "(x, k)"]) simp_all
  qed
  from Cons.IH [OF e1(2) _ this] Cons.prems(2) obtain e' where
    e': "foldR (\<lambda>(spec, _) e. if spec \<in> set keep then Inr e else unlink_apps spec e) ls e1 = Inr e'"
      "engine_ok e'" "apps_view e' = apps_view e1" "next_link e' = next_link e1"
      "link_table e' = filter (\<lambda>(spec, _). spec \<in> set keep \<or> spec \<notin> fst ` set ls) (link_table e1)"
    by auto
  have "link_table e' = filter (\<lambda>(x, _). x \<in> set keep \<or> x \<notin> fst ` set (sh # ls)) (link_table e)"
    unfolding e'(5) e1(5) sh by (auto intro!: filter_cong)
  with e' e1 show ?case by (auto simp: sh)
qed (auto intro!: filter_True [symmetric])

lemma unlink_old_ok:
  assumes "engine_ok e"
  shows "\<exists>e'. unlink_old keep e = Inr e' \<and> engine_ok e' \<and> apps_view e' = apps_view e \<and> next_link e' = next_link e \<and>
    link_table e' = filter (\<lambda>(spec, _). spec \<in> set keep) (link_table e)"
proof -
  have "distinct (map fst (link_table e))" using assms by (simp add: engine_ok_def tables_ok_def)
  from unlink_list_ok [OF assms this subset_refl, of keep] obtain e' where
    e': "unlink_old keep e = Inr e'" "engine_ok e'" "apps_view e' = apps_view e" "next_link e' = next_link e"
      "link_table e' = filter (\<lambda>(spec, _). spec \<in> set keep \<or> spec \<notin> fst ` set (link_table e)) (link_table e)"
    unfolding unlink_old_def by blast
  moreover have "link_table e' = filter (\<lambda>(spec, _). spec \<in> set keep) (link_table e)"
    unfolding e'(5) by (rule filter_cong) (auto simp: rev_image_eqI)
  ultimately show ?thesis by blast
qed

section \<open>Dropping links and queues\<close>

lemma referenced_iff: "ports_sound e \<Longrightarrow> referenced e h \<longleftrightarrow> h \<in> snd ` set (link_table e)"
  by (fastforce simp: referenced_def ports_sound_def leaves_def enters_def list_ex_iff rev_image_eqI)

lemma drop_list_ok:
  assumes "ports_sound e" and "distinct hs"
    and "io_ok (sys_io s) (m + sum_list (map (\<lambda>h. length (contents (io_links (sys_io s) h)))
      (filter (\<lambda>h. h \<notin> snd ` set (link_table e)) hs)))"
  shows "\<exists>i. foldR (drop_unreferenced e) hs s = Inr (s\<lparr>sys_io := i\<rparr>) \<and> io_ok i m \<and>
    (\<forall>h. h \<in> snd ` set (link_table e) \<or> h \<notin> set hs \<longrightarrow> io_links i h = io_links (sys_io s) h)"
  using assms(2,3)
proof (induction hs arbitrary: s)
  case Nil
  then show ?case by (intro exI [of _ "sys_io s"]) simp
next
  case (Cons h hs)
  let ?live = "\<lambda>h. h \<in> snd ` set (link_table e)"
  let ?rest = "\<lambda>i. sum_list (map (\<lambda>h. length (contents (io_links i h))) (filter (\<lambda>h. \<not> ?live h) hs))"
  obtain i where i: "drop_unreferenced e h s = Inr (s\<lparr>sys_io := i\<rparr>)" "io_ok i (m + ?rest (sys_io s))"
    "\<forall>k. ?live k \<or> k \<noteq> h \<longrightarrow> io_links i k = io_links (sys_io s) k"
  proof (cases "?live h")
    case True
    then show ?thesis
      using that [of "sys_io s"] Cons.prems(2) by (simp add: drop_unreferenced_def referenced_iff [OF assms(1)])
  next
    case False
    have "pool_ok (io_world (sys_io s)) (m + ?rest (sys_io s) + length (contents (io_links (sys_io s) h)))"
      using io_okD(2) [OF Cons.prems(2)] False by (simp add: ac_simps)
    from drop_link_ok [OF io_okD(1) [OF Cons.prems(2)] this] obtain r w where
      r: "drop_link (io_links (sys_io s) h) (io_world (sys_io s)) = Inr (r, w)" "link_ok r"
        "pool_ok w (m + ?rest (sys_io s))"
      by blast
    show ?thesis
      using that [of "\<lparr>io_links = (io_links (sys_io s))(h := r), io_world = w\<rparr>"] r False Cons.prems(2)
      by (simp add: drop_unreferenced_def referenced_iff [OF assms(1)] io_ok_def)
  qed
  have "?rest i = ?rest (sys_io s)"
    using i(3) Cons.prems(1) by (intro arg_cong [of _ _ sum_list] map_cong) auto
  with Cons.IH [of "s\<lparr>sys_io := i\<rparr>"] i(2) Cons.prems(1) obtain i' where
    "foldR (drop_unreferenced e) hs (s\<lparr>sys_io := i\<rparr>) = Inr (s\<lparr>sys_io := i'\<rparr>)" "io_ok i' m"
    "\<forall>k. ?live k \<or> k \<notin> set hs \<longrightarrow> io_links i' k = io_links i k"
    by auto
  with i(1,3) show ?case by (intro exI [of _ i']) auto
qed

lemma drop_queue_ok:
  assumes "\<forall>p. Packet p \<in> set (dq_packets q) \<longrightarrow> packet_ok p" and "pool_ok w (n + held_in_queue (dq_packets q))"
  shows "\<exists>q' w'. drop_queue q w = Inr (q', w') \<and> pool_ok w' n"
  using assms
proof (induction "dq_packets q" arbitrary: q w)
  case Nil
  then show ?case by (simp add: drop_queue_def dq_empty_def)
next
  case (Cons d ds)
  let ?q = "q\<lparr>dq_packets := ds\<rparr>"
  have q: "dq_packets q = d # ds" using Cons.hyps(2) by simp
  show ?case
  proof (cases d)
    case (Delay t)
    have "drop_queue q w = drop_queue ?q w"
      using q Delay by (simp add: drop_queue_def dq_empty_def peek_def)
    then show ?thesis using Cons.hyps(1) [of ?q w] Cons.prems q Delay by simp
  next
    case (Packet p)
    have w: "pool_ok w (Suc (n + held_in_queue ds))" "packet_ok p"
      using Cons.prems q Packet by simp_all
    have "drop_queue q w = drop_queue ?q (freed p w)"
      using q Packet free_ok [OF w(1), of p] by (simp add: drop_queue_def dq_empty_def peek_def dequeue_packet_def)
    then show ?thesis
      using Cons.hyps(1) [of ?q "freed p w"] Cons.prems q Packet freed_pool_ok [OF w] by simp
  qed
qed

lemma app_drop_ok:
  assumes "app_ok x" and "pool_ok w (n + app_held x)"
  shows "\<exists>w'. app_drop x w = Inr w' \<and> pool_ok w' n"
  using assms drop_queue_ok [of _ w n]
  by (cases x) (fastforce simp: app_drop_def app_ok_def queue_of_def)+


section \<open>Stopping and starting apps\<close>

lemma stop_app_ok:
  assumes "map_of (app_table e) name = Some a" and "app_ok (as_app a)"
    and "pool_ok (io_world (sys_io s)) (n + app_held (as_app a))"
  shows "\<exists>s'. stop_app os name (e, s) = Inr (e\<lparr>app_table := AList.delete name (app_table e)\<rparr>, s') \<and>
    io_links (sys_io s') = io_links (sys_io s) \<and> pool_ok (io_world (sys_io s')) n"
proof -
  obtain s1 where s1: "(if has_stop (as_app a) then app_stop os (as_app a) s else Inr s) = Inr s1" "sys_io s1 = sys_io s"
    by (cases "as_app a") (auto simp: has_stop_def app_stop_def)
  obtain w where "app_drop (as_app a) (io_world (sys_io s)) = Inr w" "pool_ok w n"
    using app_drop_ok [OF assms(2,3)] by blast
  then show ?thesis
    using s1 assms(1) by (auto simp: stop_app_def Let_def)
qed

lemma sum_delete:
  "distinct (map fst al) \<Longrightarrow> map_of al k = Some v \<Longrightarrow>
   sum_list (map f al) = f (k, v) + (sum_list (map f (AList.delete k al)) :: nat)"
proof (induction al)
  case (Cons kv al)
  show ?case
  proof (cases "fst kv = k")
    case True
    then have "AList.delete k al = al" "kv = (k, v)" using Cons.prems by (auto intro: AList.delete_id)
    then show ?thesis by simp
  next
    case False
    then show ?thesis using Cons by (cases kv) simp
  qed
qed simp

lemma apps_held_delete:
  assumes "distinct (map fst (app_table e))" and "map_of (app_table e) k = Some a"
  shows "apps_held (apps_view e) =
    app_held (as_app a) + apps_held (apps_view (e\<lparr>app_table := AList.delete k (app_table e)\<rparr>))"
  using sum_delete [OF assms, of "\<lambda>(_, a). app_held (as_app a)"]
  by (simp add: apps_held_def apps_view_def comp_def case_prod_unfold)

lemma stop_list_ok:
  assumes "distinct (map fst (app_table e))" and "distinct ns" and "set ns \<subseteq> fst ` set (app_table e)"
    and "\<forall>(_, a) \<in> set (app_table e). app_ok (as_app a)"
    and "pool_ok (io_world (sys_io s)) (m + apps_held (apps_view e))"
  shows "\<exists>e' s'. foldR (stop_changed os apps) ns (e, s) = Inr (e', s') \<and>
    e' = e\<lparr>app_table := filter (\<lambda>(n, a). n \<notin> set ns \<or> map_of apps n = Some (as_conf a)) (app_table e)\<rparr> \<and>
    io_links (sys_io s') = io_links (sys_io s) \<and> pool_ok (io_world (sys_io s')) (m + apps_held (apps_view e'))"
  using assms
proof (induction ns arbitrary: e s)
  case (Cons n ns)
  obtain a where a: "map_of (app_table e) n = Some a"
    using Cons.prems(3) by (metis insert_subset list.simps(15) map_of_eq_None_iff not_None_eq)
  define al where "al = filter (\<lambda>(k, x). k \<noteq> n \<or> map_of apps n = Some (as_conf x)) (app_table e)"
  have uniq: "x = a" if "(n, x) \<in> set (app_table e)" for x
    using eq_key_imp_eq_value [OF Cons.prems(1) that map_of_SomeD [OF a]] .
  obtain s1 where s1: "stop_changed os apps n (e, s) = Inr (e\<lparr>app_table := al\<rparr>, s1)"
    "io_links (sys_io s1) = io_links (sys_io s)"
    "pool_ok (io_world (sys_io s1)) (m + apps_held (apps_view (e\<lparr>app_table := al\<rparr>)))"
  proof (cases "map_of apps n = Some (as_conf a)")
    case True
    then have "al = app_table e"
      unfolding al_def by (intro filter_True) (auto dest: uniq)
    then show ?thesis using that [of s] a True Cons.prems(5) by (simp add: stop_changed_def)
  next
    case False
    have al: "al = AList.delete n (app_table e)"
      unfolding al_def delete_as_filter using False by (intro filter_cong refl) (auto dest: uniq)
    have ok: "app_ok (as_app a)" using map_of_SomeD [OF a] Cons.prems(4) by blast
    have "pool_ok (io_world (sys_io s)) (m + apps_held (apps_view (e\<lparr>app_table := al\<rparr>)) + app_held (as_app a))"
      using Cons.prems(5) apps_held_delete [OF Cons.prems(1) a] by (simp add: al ac_simps)
    from stop_app_ok [OF a ok this, of os] show ?thesis
      using that a False by (fastforce simp: stop_changed_def al split: option.splits)
  qed
  have "distinct (map fst al)" "\<forall>(_, a) \<in> set al. app_ok (as_app a)" "set ns \<subseteq> fst ` set al"
    using Cons.prems by (force simp: al_def distinct_map_filter)+
  with Cons.IH [of "e\<lparr>app_table := al\<rparr>" s1] s1(3) Cons.prems(2) obtain e' s' where
    r: "foldR (stop_changed os apps) ns (e\<lparr>app_table := al\<rparr>, s1) = Inr (e', s')"
      "e' = e\<lparr>app_table := filter (\<lambda>(n, a). n \<notin> set ns \<or> map_of apps n = Some (as_conf a)) al\<rparr>"
      "io_links (sys_io s') = io_links (sys_io s1)" "pool_ok (io_world (sys_io s')) (m + apps_held (apps_view e'))"
    by auto
  have "filter (\<lambda>(n, a). n \<notin> set ns \<or> map_of apps n = Some (as_conf a)) al =
      filter (\<lambda>(k, a). k \<notin> set (n # ns) \<or> map_of apps k = Some (as_conf a)) (app_table e)"
    by (auto simp: al_def intro!: filter_cong)
  with r s1 show ?case by auto
qed simp

lemma open_flowtop_map_io: "open_flowtop_map os path s = Inr s' \<Longrightarrow> sys_io s' = sys_io s"
  by (auto simp: open_flowtop_map_def Let_def case_prod_unfold bindR_eq_Inr split: if_splits)

lemma app_new_io: "app_new os c s = Inr (x, s') \<Longrightarrow> sys_io s' = sys_io s \<and> queue_of x = []"
  by (cases c)
    (auto simp: app_new_def queue_of_def dq_new_def bindR_eq_Inr dest: open_flowtop_map_io split: prod.splits)

lemma app_new_matches: "app_new os c s = Inr (x, s') \<Longrightarrow> app_matches c x"
  by (cases c)
    (auto simp: app_new_def app_matches_def dq_new_def bindR_eq_Inr tsd_new_def loss_new_def split: prod.splits if_splits)

definition can_start :: "'n os \<Rightarrow> conf config \<Rightarrow> bool" where
  "can_start os c \<longleftrightarrow> (\<forall>(_, cf) \<in> set (cfg_apps c). \<forall>s. \<exists>r. app_new os cf s = Inr r)"

lemma start_list_ok:
  assumes "distinct (map fst cs)" and "\<forall>(_, cf) \<in> set cs. \<forall>s. \<exists>r. app_new os cf s = Inr r"
  shows "\<exists>e' s' new. foldR (start_new os) cs (e, s) = Inr (e', s') \<and> sys_io s' = sys_io s \<and>
    e' = e\<lparr>app_table := app_table e @ new\<rparr> \<and> map fst new = filter (\<lambda>n. n \<notin> fst ` set (app_table e)) (map fst cs) \<and>
    (\<forall>(n, a) \<in> set new. (n, as_conf a) \<in> set cs \<and> queue_of (as_app a) = [] \<and> app_matches (as_conf a) (as_app a) \<and> as_ports a = no_ports)"
  using assms
proof (induction cs arbitrary: e s)
  case (Cons ncf cs)
  obtain n cf where ncf: "ncf = (n, cf)" by (cases ncf)
  show ?case
  proof (cases "map_of (app_table e) n = None")
    case True
    obtain x s1 where x: "app_new os cf s = Inr (x, s1)" using Cons.prems(2) by (fastforce simp: ncf)
    define a where "a = \<lparr>as_app = x, as_conf = cf, as_ports = no_ports\<rparr>"
    let ?e = "e\<lparr>app_table := app_table e @ [(n, a)]\<rparr>"
    have step: "start_new os (n, cf) (e, s) = Inr (?e, s1)"
      using True x by (simp add: start_new_def start_app_def update_new_key a_def)
    from Cons.IH [of ?e s1] Cons.prems obtain e' s' new where
      r: "foldR (start_new os) cs (?e, s1) = Inr (e', s')" "sys_io s' = sys_io s1"
        "e' = ?e\<lparr>app_table := app_table ?e @ new\<rparr>" "map fst new = filter (\<lambda>n. n \<notin> fst ` set (app_table ?e)) (map fst cs)"
        "\<forall>(n, a) \<in> set new. (n, as_conf a) \<in> set cs \<and> queue_of (as_app a) = [] \<and> app_matches (as_conf a) (as_app a) \<and> as_ports a = no_ports"
      by auto
    have "filter (\<lambda>k. k \<notin> fst ` set (app_table ?e)) (map fst cs) = filter (\<lambda>k. k \<notin> fst ` set (app_table e)) (map fst cs)"
      using Cons.prems(1) by (intro filter_cong) (auto simp: ncf)
    then have "map fst ((n, a) # new) = filter (\<lambda>k. k \<notin> fst ` set (app_table e)) (map fst (ncf # cs))"
      using True r(4) by (simp add: ncf map_of_eq_None_iff)
    moreover have "sys_io s' = sys_io s" using app_new_io [OF x] r(2) by simp
    moreover have "\<forall>(k, b) \<in> set ((n, a) # new). (k, as_conf b) \<in> set (ncf # cs) \<and> queue_of (as_app b) = [] \<and>
        app_matches (as_conf b) (as_app b) \<and> as_ports b = no_ports"
      using r(5) app_new_io [OF x] app_new_matches [OF x] by (auto simp: ncf a_def)
    ultimately show ?thesis
      using r(1,3) step by (intro exI [of _ e'] exI [of _ s'] exI [of _ "(n, a) # new"]) (simp add: ncf)
  next
    case False
    then have "n \<in> fst ` set (app_table e)" by (simp add: map_of_eq_None_iff)
    moreover have "start_new os (n, cf) (e, s) = Inr (e, s)" using False by (auto simp: start_new_def)
    moreover from Cons.IH [of e s] Cons.prems obtain e' s' new where
      "foldR (start_new os) cs (e, s) = Inr (e', s')" "sys_io s' = sys_io s"
      "e' = e\<lparr>app_table := app_table e @ new\<rparr>" "map fst new = filter (\<lambda>n. n \<notin> fst ` set (app_table e)) (map fst cs)"
      "\<forall>(n, a) \<in> set new. (n, as_conf a) \<in> set cs \<and> queue_of (as_app a) = [] \<and> app_matches (as_conf a) (as_app a) \<and> as_ports a = no_ports"
      by auto
    ultimately show ?thesis
      by (intro exI [of _ e'] exI [of _ s'] exI [of _ new]) (auto simp: ncf)
  qed
qed simp


section \<open>Linking\<close>

text \<open>Both ends of a link that is in the table are made to refer to it.\<close>

lemma connect_ok:
  assumes "tables_ok e" and "ports_sound e" and "map_of (link_table e) spec = Some h" and "parse_link spec = Inr l"
    and "map_of (app_table e) (spec_from l) \<noteq> None" and "map_of (app_table e) (spec_to l) \<noteq> None"
  shows "\<exists>al. bindR (modify_app (spec_from l) (set_output (spec_output l) h) e)
      (modify_app (spec_to l) (set_input (spec_input l) h)) = Inr (e\<lparr>app_table := al\<rparr>) \<and>
    apps_view (e\<lparr>app_table := al\<rparr>) = apps_view e \<and> ports_sound (e\<lparr>app_table := al\<rparr>) \<and>
    (\<forall>n. port_maps (e\<lparr>app_table := al\<rparr>) n = map_option (\<lambda>(out, inp).
      (if n = spec_from l then out(spec_output l \<mapsto> h) else out, if n = spec_to l then inp(spec_input l \<mapsto> h) else inp))
      (port_maps e n))"
proof -
  obtain a where a: "map_of (app_table e) (spec_from l) = Some a" using assms(5) by blast
  define al where "al = AList.update (spec_from l) (set_output (spec_output l) h a) (app_table e)"
  obtain b where b: "map_of al (spec_to l) = Some b"
    using assms(6) by (cases "spec_to l = spec_from l") (auto simp: al_def update_conv')
  define al' where "al' = AList.update (spec_to l) (set_input (spec_input l) h b) al"
  let ?e = "e\<lparr>app_table := al'\<rparr>"
  have "bindR (modify_app (spec_from l) (set_output (spec_output l) h) e)
      (modify_app (spec_to l) (set_input (spec_input l) h)) = Inr ?e"
    using a b by (simp add: modify_app_def al_def al'_def)
  moreover have "apps_view ?e = apps_view e"
  proof -
    have "apps_view (e\<lparr>app_table := al\<rparr>) = apps_view e"
      unfolding al_def by (rule apps_view_modify [OF a]) simp_all
    then show ?thesis
      using apps_view_modify [of "e\<lparr>app_table := al\<rparr>"] b by (simp add: al'_def)
  qed
  moreover have "ports_sound ?e"
  proof -
    have lv: "leaves e (spec_from l) (spec_output l) h" "enters e (spec_to l) (spec_input l) h"
      using map_of_SomeD [OF assms(3)] assms(4) by (auto simp: leaves_def enters_def)
    let ?S = "\<lambda>n x. (\<forall>(p, k) \<in> set (app_output (as_ports x)). leaves e n p k) \<and>
        (\<forall>(p, k) \<in> set (app_input (as_ports x)). enters e n p k)"
    have old: "?S n x" if "(n, x) \<in> set (app_table e)" for n x
      using bspec [OF assms(2) [unfolded ports_sound_def] that] by simp
    have out: "?S (spec_from l) (set_output (spec_output l) h x)" if "?S (spec_from l) x" for x
      using that lv(1) by (auto dest!: subsetD [OF set_update_sub])
    have inp: "?S (spec_to l) (set_input (spec_input l) h x)" if "?S (spec_to l) x" for x
      using that lv(2) by (auto dest!: subsetD [OF set_update_sub])
    have one: "?S n x" if "(n, x) \<in> set al" for n x
      using subsetD [OF set_update_sub that [unfolded al_def]] out [OF old [OF map_of_SomeD [OF a]]] old [of n x]
      by blast
    have "?S n x" if "(n, x) \<in> set al'" for n x
      using subsetD [OF set_update_sub that [unfolded al'_def]] inp [OF one [OF map_of_SomeD [OF b]]] one [of n x]
      by blast
    then show ?thesis by (force simp: ports_sound_def leaves_def enters_def)
  qed
  moreover have "port_maps ?e n = map_option (\<lambda>(out, inp).
      (if n = spec_from l then out(spec_output l \<mapsto> h) else out, if n = spec_to l then inp(spec_input l \<mapsto> h) else inp))
      (port_maps e n)" for n
    using a b by (auto simp: port_maps_def al'_def al_def update_conv' fun_eq_iff option.map_id split: if_splits)
  ultimately show ?thesis by (intro exI [of _ al']) simp
qed


text \<open>The table entry for a link, made if there is none.\<close>

lemma ports_sound_mono:
  "ports_sound e \<Longrightarrow> set (link_table e) \<subseteq> set ls \<Longrightarrow> ports_sound (e\<lparr>link_table := ls, next_link := k\<rparr>)"
  by (fastforce simp: ports_sound_def leaves_def enters_def)

definition ports_differ :: "link_spec \<Rightarrow> link_spec \<Rightarrow> bool" where
  "ports_differ l l' \<longleftrightarrow> (spec_from l, spec_output l) \<noteq> (spec_from l', spec_output l') \<and>
     (spec_to l, spec_input l) \<noteq> (spec_to l', spec_input l')"

lemma wired_connect:
  assumes "wired e specs" and "map_of (link_table e) spec = Some h" and "parse_link spec = Inr l"
    and "port_maps e (spec_from l) \<noteq> None" and "port_maps e (spec_to l) \<noteq> None"
    and "\<forall>spec' \<in> set specs. \<forall>l'. parse_link spec' = Inr l' \<longrightarrow> ports_differ l l'"
    and "link_table e' = link_table e"
    and "\<And>n. port_maps e' n = map_option (\<lambda>(out, inp).
      (if n = spec_from l then out(spec_output l \<mapsto> h) else out, if n = spec_to l then inp(spec_input l \<mapsto> h) else inp))
      (port_maps e n)"
  shows "wired e' (specs @ [spec])"
  unfolding wired_def
proof
  fix sp assume "sp \<in> set (specs @ [spec])"
  then consider "sp = spec" | "sp \<in> set specs" by auto
  then show "\<exists>h l. map_of (link_table e') sp = Some h \<and> parse_link sp = Inr l \<and>
     (\<exists>out inp. port_maps e' (spec_from l) = Some (out, inp) \<and> out (spec_output l) = Some h) \<and>
     (\<exists>out inp. port_maps e' (spec_to l) = Some (out, inp) \<and> inp (spec_input l) = Some h)"
  proof cases
    case 1
    then show ?thesis using assms(2-5) by (cases "spec_to l = spec_from l") (auto simp: assms(7,8))
  next
    case 2
    then obtain k l' out inp out' inp' where
      "map_of (link_table e) sp = Some k" "parse_link sp = Inr l'"
      "port_maps e (spec_from l') = Some (out, inp)" "out (spec_output l') = Some k"
      "port_maps e (spec_to l') = Some (out', inp')" "inp' (spec_input l') = Some k"
      using assms(1) unfolding wired_def by blast
    moreover from this(2) 2 have "ports_differ l l'" using assms(6) by blast
    ultimately show ?thesis by (auto simp: assms(7,8) ports_differ_def)
  qed
qed

definition link_entry :: "string \<Rightarrow> engine \<Rightarrow> io \<Rightarrow> nat \<times> engine \<times> io" where
  "link_entry spec e i =
     (case map_of (link_table e) spec of
        Some h \<Rightarrow> (h, e, i)
      | None \<Rightarrow> (next_link e, e\<lparr>link_table := link_table e @ [(spec, next_link e)], next_link := Suc (next_link e)\<rparr>,
                 i\<lparr>io_links := (io_links i)(next_link e := new_link)\<rparr>))"

lemma link_entry_ok:
  assumes "tables_ok e" and "ports_sound e" and "wired e specs" and "link_entry spec e i = (h, e', i')"
  shows "tables_ok e'" "ports_sound e'" "wired e' specs" "app_table e' = app_table e"
    "map_of (link_table e') spec = Some h" "io_world i' = io_world i" "next_link e \<le> next_link e'"
    "\<forall>k < next_link e. io_links i' k = io_links i k" "\<forall>k. io_links i' k \<in> {io_links i k, new_link}"
    "\<exists>new. link_table e' = link_table e @ new \<and> map fst new = (if spec \<in> fst ` set (link_table e) then [] else [spec]) \<and>
      (\<forall>k \<in> snd ` set new. next_link e \<le> k \<and> io_links i' k = new_link)"
proof -
  have "tables_ok e' \<and> ports_sound e' \<and> wired e' specs \<and> app_table e' = app_table e \<and>
    map_of (link_table e') spec = Some h \<and> io_world i' = io_world i \<and> next_link e \<le> next_link e' \<and>
    (\<forall>k < next_link e. io_links i' k = io_links i k) \<and> (\<forall>k. io_links i' k \<in> {io_links i k, new_link}) \<and>
    (\<exists>new. link_table e' = link_table e @ new \<and> map fst new = (if spec \<in> fst ` set (link_table e) then [] else [spec]) \<and>
      (\<forall>k \<in> snd ` set new. next_link e \<le> k \<and> io_links i' k = new_link))"
  proof (cases "map_of (link_table e) spec")
    case None
    then have new: "spec \<notin> fst ` set (link_table e)" by (simp add: map_of_eq_None_iff)
    have e': "h = next_link e" "i' = i\<lparr>io_links := (io_links i)(next_link e := new_link)\<rparr>"
      "e' = e\<lparr>link_table := link_table e @ [(spec, next_link e)], next_link := Suc (next_link e)\<rparr>"
      using assms(4) None by (auto simp: link_entry_def)
    have "tables_ok e'" using assms(1) new by (auto simp: tables_ok_def e' less_Suc_eq)
    moreover have "ports_sound e'" unfolding e' by (rule ports_sound_mono [OF assms(2)]) auto
    moreover have "port_maps e' n = port_maps e n" for n by (simp add: e' port_maps_def)
    then have "wired e' specs"
      using assms(3) by (fastforce simp: wired_def e' map_add_def)
    ultimately show ?thesis using None new by (auto simp: e' map_add_def)
  next
    case (Some k)
    then have "spec \<in> fst ` set (link_table e)" using map_of_SomeD [OF Some] by (force simp: image_iff)
    then show ?thesis using assms Some by (auto simp: link_entry_def)
  qed
  then show "tables_ok e'" "ports_sound e'" "wired e' specs" "app_table e' = app_table e"
    "map_of (link_table e') spec = Some h" "io_world i' = io_world i" "next_link e \<le> next_link e'"
    "\<forall>k < next_link e. io_links i' k = io_links i k" "\<forall>k. io_links i' k \<in> {io_links i k, new_link}"
    "\<exists>new. link_table e' = link_table e @ new \<and> map fst new = (if spec \<in> fst ` set (link_table e) then [] else [spec]) \<and>
      (\<forall>k \<in> snd ` set new. next_link e \<le> k \<and> io_links i' k = new_link)"
    by blast+
qed

lemma link_apps_entry:
  assumes "link_entry spec e (sys_io s) = (h, e', i')" and "parse_link spec = Inr l"
  shows "link_apps spec (e, s) =
    bindR (bindR (modify_app (spec_from l) (set_output (spec_output l) h) e')
      (modify_app (spec_to l) (set_input (spec_input l) h))) (\<lambda>e. Inr (e, s\<lparr>sys_io := i'\<rparr>))"
  using assms
  by (auto simp: link_apps_def link_entry_def update_new_key Let_def bindR_def split: option.splits sum.splits)

lemma link_apps_ok:
  assumes "tables_ok e" and "ports_sound e" and "wired e specs" and "parse_link spec = Inr l"
    and "spec_from l \<in> fst ` set (app_table e)" and "spec_to l \<in> fst ` set (app_table e)"
    and "\<forall>spec' \<in> set specs. \<forall>l'. parse_link spec' = Inr l' \<longrightarrow> ports_differ l l'"
  shows "\<exists>e' i' new. link_apps spec (e, s) = Inr (e', s\<lparr>sys_io := i'\<rparr>) \<and> tables_ok e' \<and> ports_sound e' \<and>
    wired e' (specs @ [spec]) \<and> apps_view e' = apps_view e \<and> io_world i' = io_world (sys_io s) \<and>
    next_link e \<le> next_link e' \<and> (\<forall>k < next_link e. io_links i' k = io_links (sys_io s) k) \<and>
    (\<forall>k. io_links i' k \<in> {io_links (sys_io s) k, new_link}) \<and> link_table e' = link_table e @ new \<and> map fst new = (if spec \<in> fst ` set (link_table e) then [] else [spec]) \<and>
    (\<forall>k \<in> snd ` set new. next_link e \<le> k \<and> io_links i' k = new_link)"
proof -
  obtain h e1 i1 where entry: "link_entry spec e (sys_io s) = (h, e1, i1)" by (cases "link_entry spec e (sys_io s)")
  note e1 = link_entry_ok [OF assms(1-3) entry]
  have ends: "map_of (app_table e1) (spec_from l) \<noteq> None" "map_of (app_table e1) (spec_to l) \<noteq> None"
    using assms(5,6) e1(4) by (simp_all add: map_of_eq_None_iff)
  obtain al where al: "bindR (modify_app (spec_from l) (set_output (spec_output l) h) e1)
      (modify_app (spec_to l) (set_input (spec_input l) h)) = Inr (e1\<lparr>app_table := al\<rparr>)"
    "apps_view (e1\<lparr>app_table := al\<rparr>) = apps_view e1" "ports_sound (e1\<lparr>app_table := al\<rparr>)"
    "\<And>n. port_maps (e1\<lparr>app_table := al\<rparr>) n = map_option (\<lambda>(out, inp).
      (if n = spec_from l then out(spec_output l \<mapsto> h) else out, if n = spec_to l then inp(spec_input l \<mapsto> h) else inp))
      (port_maps e1 n)"
    using connect_ok [OF e1(1,2,5) assms(4) ends] by blast
  have "wired (e1\<lparr>app_table := al\<rparr>) (specs @ [spec])"
    by (rule wired_connect [OF e1(3,5) assms(4) _ _ assms(7) _ al(4)]) (use ends in \<open>simp_all add: port_maps_def\<close>)
  moreover have "tables_ok (e1\<lparr>app_table := al\<rparr>)"
    using e1(1) al(2) apps_view_keys [of "e1\<lparr>app_table := al\<rparr>"] apps_view_keys [of e1] by (simp add: tables_ok_def)
  moreover have "link_apps spec (e, s) = Inr (e1\<lparr>app_table := al\<rparr>, s\<lparr>sys_io := i1\<rparr>)"
    by (simp add: link_apps_entry [OF entry assms(4)] al(1))
  moreover have "apps_view (e1\<lparr>app_table := al\<rparr>) = apps_view e" using al(2) e1(4) by (simp add: apps_view_def)
  ultimately show ?thesis
    using al(3) e1(6-10) by (intro exI [of _ "e1\<lparr>app_table := al\<rparr>"] exI [of _ i1]) auto
qed


lemma link_list_ok:
  assumes "tables_ok e" and "ports_sound e" and "wired e specs" and "distinct (specs @ ls)"
    and "\<And>spec. spec \<in> set ls \<Longrightarrow> \<exists>l. parse_link spec = Inr l \<and>
      spec_from l \<in> fst ` set (app_table e) \<and> spec_to l \<in> fst ` set (app_table e)"
    and "\<And>spec spec' l l'. spec \<in> set (specs @ ls) \<Longrightarrow> spec' \<in> set (specs @ ls) \<Longrightarrow> spec \<noteq> spec' \<Longrightarrow>
      parse_link spec = Inr l \<Longrightarrow> parse_link spec' = Inr l' \<Longrightarrow> ports_differ l l'"
  shows "\<exists>e' i' new. foldR link_apps ls (e, s) = Inr (e', s\<lparr>sys_io := i'\<rparr>) \<and> tables_ok e' \<and> ports_sound e' \<and>
    wired e' (specs @ ls) \<and> apps_view e' = apps_view e \<and> io_world i' = io_world (sys_io s) \<and>
    next_link e \<le> next_link e' \<and> (\<forall>k < next_link e. io_links i' k = io_links (sys_io s) k) \<and>
    (\<forall>k. io_links i' k \<in> {io_links (sys_io s) k, new_link}) \<and> link_table e' = link_table e @ new \<and> set (map fst new) = set ls - fst ` set (link_table e) \<and>
    (\<forall>k \<in> snd ` set new. next_link e \<le> k \<and> io_links i' k = new_link)"
  using assms
proof (induction ls arbitrary: e s specs)
  case Nil
  then show ?case by (intro exI [of _ e] exI [of _ "sys_io s"] exI [of _ "[]"]) simp
next
  case (Cons spec ls)
  obtain l where l: "parse_link spec = Inr l" "spec_from l \<in> fst ` set (app_table e)" "spec_to l \<in> fst ` set (app_table e)"
    using Cons.prems(5) [of spec] by auto
  have "\<forall>spec' \<in> set specs. \<forall>l'. parse_link spec' = Inr l' \<longrightarrow> ports_differ l l'"
    using Cons.prems(4) Cons.prems(6) [OF _ _ _ l(1)] by fastforce
  from link_apps_ok [OF Cons.prems(1-3) l this, of s] obtain e1 i1 new1 where
    1: "link_apps spec (e, s) = Inr (e1, s\<lparr>sys_io := i1\<rparr>)" "tables_ok e1" "ports_sound e1" "wired e1 (specs @ [spec])"
      "apps_view e1 = apps_view e" "io_world i1 = io_world (sys_io s)" "next_link e \<le> next_link e1"
      "\<forall>k < next_link e. io_links i1 k = io_links (sys_io s) k" "link_table e1 = link_table e @ new1"
      "map fst new1 = (if spec \<in> fst ` set (link_table e) then [] else [spec])"
      "\<forall>k \<in> snd ` set new1. next_link e \<le> k \<and> io_links i1 k = new_link"
      "\<forall>k. io_links i1 k \<in> {io_links (sys_io s) k, new_link}"
    by blast
  have keys: "fst ` set (app_table e1) = fst ` set (app_table e)"
    using 1(5) apps_view_keys by (metis set_map)
  obtain e' i' new where
    2: "foldR link_apps ls (e1, s\<lparr>sys_io := i1\<rparr>) = Inr (e', s\<lparr>sys_io := i'\<rparr>)" "tables_ok e'" "ports_sound e'"
      "wired e' ((specs @ [spec]) @ ls)" "apps_view e' = apps_view e1" "io_world i' = io_world i1" "next_link e1 \<le> next_link e'"
      "\<forall>k < next_link e1. io_links i' k = io_links i1 k" "link_table e' = link_table e1 @ new"
      "set (map fst new) = set ls - fst ` set (link_table e1)"
      "\<forall>k \<in> snd ` set new. next_link e1 \<le> k \<and> io_links i' k = new_link"
      "\<forall>k. io_links i' k \<in> {io_links i1 k, new_link}"
  proof -
    have p5: "\<exists>l. parse_link sp = Inr l \<and> spec_from l \<in> fst ` set (app_table e1) \<and> spec_to l \<in> fst ` set (app_table e1)"
      if "sp \<in> set ls" for sp
      unfolding keys using Cons.prems(5) [of sp] that by simp
    have p6: "ports_differ l l'" if "sp \<in> set ((specs @ [spec]) @ ls)" "sp' \<in> set ((specs @ [spec]) @ ls)" "sp \<noteq> sp'"
      "parse_link sp = Inr l" "parse_link sp' = Inr l'" for sp sp' l l'
      using Cons.prems(6) [of sp sp' l l'] that by auto
    have "distinct ((specs @ [spec]) @ ls)" using Cons.prems(4) by auto
    note ih = Cons.IH [OF 1(2-4) this, of "s\<lparr>sys_io := i1\<rparr>"]
    show ?thesis
      by (rule ih [THEN exE]) (use p5 p6 that in \<open>auto simp del: set_append\<close>)
  qed
  have lt: "\<forall>k \<in> snd ` set new1. k < next_link e1"
    using 1(2) by (auto simp: tables_ok_def 1(9))
  have "set (map fst (new1 @ new)) = set (spec # ls) - fst ` set (link_table e)"
    unfolding map_append set_append 2(10) 1(9,10) using 1(10) by (auto simp: image_Un simp flip: set_map)
  moreover have "io_links i' k = new_link \<and> next_link e \<le> k" if "k \<in> snd ` set (new1 @ new)" for k
  proof -
    from that consider "k \<in> snd ` set new1" | "k \<in> snd ` set new" by auto
    then show ?thesis
    proof cases
      case 1
      then show ?thesis using lt \<open>\<forall>k \<in> snd ` set new1. next_link e \<le> k \<and> io_links i1 k = new_link\<close> 2(8) by metis
    next
      case 2
      then show ?thesis using \<open>\<forall>k \<in> snd ` set new. next_link e1 \<le> k \<and> io_links i' k = new_link\<close> 1(7) le_trans by blast
    qed
  qed
  moreover have "\<forall>k < next_link e. io_links i' k = io_links (sys_io s) k" using 1(7,8) 2(8) by simp
  moreover have "\<forall>k. io_links i' k \<in> {io_links (sys_io s) k, new_link}" using 1(12) 2(12) by (metis insertE insertI1 insertI2 singletonD)
  ultimately show ?case
    using 1(1,5,6,7,9) 2(1-7,9) by (intro exI [of _ e'] exI [of _ i'] exI [of _ "new1 @ new"]) auto
qed


section \<open>The whole of configure\<close>

lemma links_held_cong:
  "(\<And>spec h. (spec, h) \<in> set ls \<Longrightarrow> io_links i h = io_links j h) \<Longrightarrow> links_held ls i = links_held ls j"
  unfolding links_held_def by (intro arg_cong [of _ _ sum_list] map_cong) auto

text \<open>The first two steps: links that go are unlinked and dropped.\<close>

lemma unlink_stage:
  assumes "engine_ok e" and "accounted e (sys_io s)"
  shows "\<exists>e' i. unlink_old keep e = Inr e' \<and> foldR (drop_unreferenced e') (map snd (link_table e)) s = Inr (s\<lparr>sys_io := i\<rparr>) \<and>
    engine_ok e' \<and> accounted e' i \<and> apps_view e' = apps_view e \<and> next_link e' = next_link e \<and>
    link_table e' = filter (\<lambda>(spec, _). spec \<in> set keep) (link_table e) \<and>
    (\<forall>h \<in> snd ` set (link_table e'). io_links i h = io_links (sys_io s) h)"
proof -
  obtain e' where e': "unlink_old keep e = Inr e'" "engine_ok e'" "apps_view e' = apps_view e" "next_link e' = next_link e"
    "link_table e' = filter (\<lambda>(spec, _). spec \<in> set keep) (link_table e)"
    using unlink_old_ok [OF assms(1)] by blast
  let ?live = "\<lambda>h. h \<in> snd ` set (link_table e')" and ?len = "\<lambda>h. length (contents (io_links (sys_io s) h))"
  have inj: "distinct (map snd (link_table e))" and sound: "ports_sound e'"
    using assms(1) e'(2) by (simp_all add: engine_ok_def tables_ok_def)
  have kept: "filter (\<lambda>(spec, _). spec \<in> set keep) (link_table e) = filter (?live \<circ> snd) (link_table e)"
  proof (rule filter_cong [OF refl])
    fix x assume x: "x \<in> set (link_table e)"
    have subset: "set (link_table e') \<subseteq> set (link_table e)" unfolding e'(5) by auto
    have "y = x" if "y \<in> set (link_table e)" "snd y = snd x" for y
      using that x inj by (auto simp: distinct_map dest: inj_onD)
    then have "x \<in> set (link_table e')" if "?live (snd x)"
      using that subset by auto
    then have "?live (snd x) \<longleftrightarrow> x \<in> set (link_table e')" by blast
    then show "(case x of (spec, _) \<Rightarrow> spec \<in> set keep) = (?live \<circ> snd) x"
      using x unfolding e'(5) by simp
  qed
  have "sum_list (map (?len \<circ> snd) (filter (?live \<circ> snd) (link_table e))) = links_held (link_table e') (sys_io s)"
    using arg_cong [OF trans [OF e'(5) kept], of "\<lambda>ls. sum_list (map (?len \<circ> snd) ls)"]
    by (simp add: links_held_def comp_def case_prod_unfold)
  then have total: "links_held (link_table e) (sys_io s) = links_held (link_table e') (sys_io s) +
      sum_list (map ?len (filter (\<lambda>h. \<not> ?live h) (map snd (link_table e))))"
    using sum_list_split_filter [of "?len \<circ> snd" "?live \<circ> snd" "link_table e"]
    by (simp add: links_held_def filter_map comp_def case_prod_unfold)
  have "io_ok (sys_io s) (held e' (sys_io s) + sum_list (map ?len (filter (\<lambda>h. \<not> ?live h) (map snd (link_table e)))))"
    using assms(2) total e'(3) by (simp add: accounted_def held_def ac_simps)
  from drop_list_ok [OF sound inj this] obtain i where
    i: "foldR (drop_unreferenced e') (map snd (link_table e)) s = Inr (s\<lparr>sys_io := i\<rparr>)" "io_ok i (held e' (sys_io s))"
      "\<forall>h. ?live h \<or> h \<notin> set (map snd (link_table e)) \<longrightarrow> io_links i h = io_links (sys_io s) h"
    by blast
  have "held e' i = held e' (sys_io s)"
    unfolding held_def using i(3) links_held_cong [of "link_table e'" i "sys_io s"] by (force simp: image_iff)
  then have "accounted e' i" using i(2) assms(2) e'(3) by (simp add: accounted_def)
  then show ?thesis using e' i by blast
qed

text \<open>The next two: changed apps are stopped, and apps are started.\<close>

lemma restart_stage:
  assumes "tables_ok e" and "ports_sound e" and "accounted e (sys_io s)" and "distinct (map fst (cfg_apps c))" and "can_start os c"
  shows "\<exists>e1 s1 e' s'. foldR (stop_changed os (cfg_apps c)) (map fst (app_table e)) (e, s) = Inr (e1, s1) \<and>
    foldR (start_new os) (cfg_apps c) (e1, s1) = Inr (e', s') \<and> tables_ok e' \<and> ports_sound e' \<and> accounted e' (sys_io s') \<and>
    io_links (sys_io s') = io_links (sys_io s) \<and> link_table e' = link_table e \<and> next_link e' = next_link e \<and>
    (\<forall>n. map_option as_conf (map_of (app_table e') n) = map_of (cfg_apps c) n) \<and>
    (\<forall>n a. map_of (app_table e) n = Some a \<longrightarrow> map_of (cfg_apps c) n = Some (as_conf a) \<longrightarrow> map_of (app_table e') n = Some a)"
proof -
  let ?keep = "\<lambda>(n, a). map_of (cfg_apps c) n = Some (as_conf a)"
  have dist: "distinct (map fst (app_table e))" using assms(1) by (simp add: tables_ok_def)
  have ok: "\<forall>(_, a) \<in> set (app_table e). app_ok (as_app a)"
    using assms(3) by (auto simp: accounted_def apps_view_def)
  have "pool_ok (io_world (sys_io s)) (links_held (link_table e) (sys_io s) + apps_held (apps_view e))"
    using assms(3) by (simp add: accounted_def held_def io_ok_def)
  from stop_list_ok [OF dist dist _ ok this, of os "cfg_apps c"] obtain e1 s1 where
    1: "foldR (stop_changed os (cfg_apps c)) (map fst (app_table e)) (e, s) = Inr (e1, s1)"
      "e1 = e\<lparr>app_table := filter (\<lambda>(n, a). n \<notin> set (map fst (app_table e)) \<or> map_of (cfg_apps c) n = Some (as_conf a)) (app_table e)\<rparr>"
      "io_links (sys_io s1) = io_links (sys_io s)"
      "pool_ok (io_world (sys_io s1)) (links_held (link_table e) (sys_io s) + apps_held (apps_view e1))"
    by auto
  have t1: "app_table e1 = filter ?keep (app_table e)"
    unfolding 1(2) by (auto intro!: filter_cong simp: rev_image_eqI)
  from start_list_ok [OF assms(4), of os e1 s1] assms(5) obtain e' s' new where
    2: "foldR (start_new os) (cfg_apps c) (e1, s1) = Inr (e', s')" "sys_io s' = sys_io s1"
      "e' = e1\<lparr>app_table := app_table e1 @ new\<rparr>"
      "map fst new = filter (\<lambda>n. n \<notin> fst ` set (app_table e1)) (map fst (cfg_apps c))"
      "\<forall>(n, a) \<in> set new. (n, as_conf a) \<in> set (cfg_apps c) \<and> queue_of (as_app a) = [] \<and> app_matches (as_conf a) (as_app a) \<and>
        as_ports a = no_ports"
    by (auto simp: can_start_def)
  have lt: "link_table e' = link_table e" "next_link e' = next_link e" using 1(2) 2(3) by simp_all
  have d1: "distinct (map fst (app_table e1))" using dist by (simp add: t1 distinct_map_filter)
  have "distinct (map fst new)" "fst ` set new \<inter> fst ` set (app_table e1) = {}"
    using assms(4) 2(4) by (simp_all flip: set_map) blast
  then have tables: "tables_ok e'" using assms(1) d1 2(3) 1(2) by (auto simp: tables_ok_def)
  have sound: "ports_sound e'"
    using assms(2) 2(5) unfolding ports_sound_def 2(3) by (fastforce simp: t1 1(2) leaves_def enters_def)
  have "apps_held (apps_view e') = apps_held (apps_view e1)"
    using 2(5) by (auto simp: apps_held_def apps_view_def 2(3) case_prod_unfold)
  moreover have "links_held (link_table e) (sys_io s') = links_held (link_table e) (sys_io s)"
    using 1(3) 2(2) by (simp add: links_held_def)
  ultimately have acc: "accounted e' (sys_io s')"
    using assms(3) 1(3,4) 2(2,5) ok lt
    by (fastforce simp: accounted_def held_def io_ok_def apps_view_def 2(3) t1 app_ok_def)
  have conf: "map_option as_conf (map_of (app_table e') n) = map_of (cfg_apps c) n" for n
  proof (cases "map_of (app_table e') n")
    case None
    then have "n \<notin> fst ` set (app_table e1)" "n \<notin> set (map fst new)" by (simp_all add: 2(3) map_of_eq_None_iff image_Un)
    then have "map_of (cfg_apps c) n = None" unfolding 2(4) by (simp add: map_of_eq_None_iff)
    with None show ?thesis by simp
  next
    case (Some a)
    then have "(n, a) \<in> set (filter ?keep (app_table e)) \<union> set new"
      using map_of_SomeD [OF Some] by (auto simp: 2(3) t1)
    then show ?thesis using Some 2(5) assms(4) by (auto dest: map_of_is_SomeI)
  qed
  have "map_of (app_table e') n = Some a" if "map_of (app_table e) n = Some a" "map_of (cfg_apps c) n = Some (as_conf a)" for n a
  proof (rule map_of_is_SomeI)
    show "distinct (map fst (app_table e'))" using tables by (simp add: tables_ok_def)
    show "(n, a) \<in> set (app_table e')" using that map_of_SomeD [OF that(1)] by (simp add: 2(3) t1)
  qed
  then show ?thesis
    using 1(1,3) 2(1,2) tables sound acc lt conf by (intro exI [of _ e1] exI [of _ s1] exI [of _ e'] exI [of _ s']) auto
qed


lemma ordered_same:
  assumes "e' = e\<lparr>inhale := xs, exhale := ys\<rparr>"
  shows "engine_ok e' = engine_ok e" "wired e' ls = wired e ls" "held e' i = held e i" "accounted e' i = accounted e i"
  by (simp_all add: assms engine_ok_def tables_ok_def ports_sound_def links_connect_def leaves_def enters_def wired_def
      port_maps_def accounted_def held_def apps_view_def)

lemma configure_ok:
  assumes "engine_ok e" and "accounted e (sys_io s)" and "config_ok c" and "can_start os c" and "hash_order ho"
  shows "\<exists>e' s'. configure os ho c (e, s) = Inr (e', s') \<and> engine_ok e' \<and> accounted e' (sys_io s') \<and>
    wired e' (cfg_links c) \<and> fst ` set (link_table e') = set (cfg_links c) \<and>
    (\<forall>n. map_option as_conf (map_of (app_table e') n) = map_of (cfg_apps c) n) \<and>
    (\<forall>n a. map_of (app_table e) n = Some a \<longrightarrow> map_of (cfg_apps c) n = Some (as_conf a) \<longrightarrow>
      map_option as_app (map_of (app_table e') n) = Some (as_app a)) \<and>
    (\<forall>spec h. map_of (link_table e) spec = Some h \<longrightarrow> spec \<in> set (cfg_links c) \<longrightarrow>
      map_of (link_table e') spec = Some h \<and> io_links (sys_io s') h = io_links (sys_io s) h) \<and>
    (\<forall>spec \<in> set (cfg_links c). map_of (link_table e) spec = None \<longrightarrow>
      (\<exists>h. map_of (link_table e') spec = Some h \<and> io_links (sys_io s') h = new_link)) \<and>
    compute_breathe_order ho e' = Inr e'"
proof -
  have c: "distinct (map fst (cfg_apps c))" "distinct (cfg_links c)" using assms(3) by (simp_all add: config_ok_def)
  obtain e1 i1 where 1: "unlink_old (cfg_links c) e = Inr e1"
    "foldR (drop_unreferenced e1) (map snd (link_table e)) s = Inr (s\<lparr>sys_io := i1\<rparr>)" "engine_ok e1" "accounted e1 i1"
    "apps_view e1 = apps_view e" "next_link e1 = next_link e"
    "link_table e1 = filter (\<lambda>(spec, _). spec \<in> set (cfg_links c)) (link_table e)"
    "\<forall>h \<in> snd ` set (link_table e1). io_links i1 h = io_links (sys_io s) h"
    using unlink_stage [OF assms(1,2)] by blast
  have acc1: "accounted e1 (sys_io (s\<lparr>sys_io := i1\<rparr>))" and ok1: "tables_ok e1" "ports_sound e1"
    using 1(3,4) by (simp_all add: engine_ok_def)
  from restart_stage [OF ok1 acc1 c(1) assms(4)] obtain e2 s2 e3 s3 where
    2: "foldR (stop_changed os (cfg_apps c)) (map fst (app_table e1)) (e1, s\<lparr>sys_io := i1\<rparr>) = Inr (e2, s2)"
      "foldR (start_new os) (cfg_apps c) (e2, s2) = Inr (e3, s3)" "tables_ok e3" "ports_sound e3" "accounted e3 (sys_io s3)"
      "io_links (sys_io s3) = io_links i1" "link_table e3 = link_table e1" "next_link e3 = next_link e1"
      "\<And>n. map_option as_conf (map_of (app_table e3) n) = map_of (cfg_apps c) n"
      "\<And>n a. map_of (app_table e1) n = Some a \<Longrightarrow> map_of (cfg_apps c) n = Some (as_conf a) \<Longrightarrow> map_of (app_table e3) n = Some a"
    by auto
  have keys: "n \<in> fst ` set (app_table e3) \<longleftrightarrow> n \<in> fst ` set (cfg_apps c)" for n
    using 2(9) [of n] by (metis map_of_eq_None_iff option.map_disc_iff)
  have ends: "\<exists>l. parse_link spec = Inr l \<and> spec_from l \<in> fst ` set (app_table e3) \<and> spec_to l \<in> fst ` set (app_table e3)"
    if "spec \<in> set (cfg_links c)" for spec
    unfolding keys using assms(3) that by (simp add: config_ok_def)
  have differ: "ports_differ l l'" if "sp \<in> set ([] @ cfg_links c)" "sp' \<in> set ([] @ cfg_links c)" "sp \<noteq> sp'"
    "parse_link sp = Inr l" "parse_link sp' = Inr l'" for sp sp' l l'
    using assms(3) that unfolding config_ok_def ports_differ_def by auto
  have "wired e3 []" "distinct ([] @ cfg_links c)" using c(2) by (simp_all add: wired_def)
  note link = link_list_ok [OF 2(3,4) this, of s3]
  obtain e4 i4 new where
    4: "foldR link_apps (cfg_links c) (e3, s3) = Inr (e4, s3\<lparr>sys_io := i4\<rparr>)" "tables_ok e4" "ports_sound e4"
      "wired e4 (cfg_links c)" "apps_view e4 = apps_view e3" "io_world i4 = io_world (sys_io s3)"
      "\<forall>k < next_link e3. io_links i4 k = io_links (sys_io s3) k" "link_table e4 = link_table e3 @ new"
      "set (map fst new) = set (cfg_links c) - fst ` set (link_table e3)"
      "\<forall>k \<in> snd ` set new. next_link e3 \<le> k \<and> io_links i4 k = new_link"
      "\<forall>k. io_links i4 k \<in> {io_links (sys_io s3) k, new_link}"
    by (rule link [THEN exE]) (use ends differ in auto)
  have old: "io_links i4 h = io_links (sys_io s) h" if "(spec, h) \<in> set (link_table e1)" for spec h
  proof -
    have "h < next_link e3" using that ok1(1) 2(8) by (force simp: tables_ok_def)
    then show ?thesis using 4(7) 2(6) 1(8) that by force
  qed
  have links: "fst ` set (link_table e4) = set (cfg_links c)"
    unfolding 4(8) set_append image_Un using 4(9) by (auto simp: 2(7) 1(7))
  have connect: "links_connect e4"
  proof -
    have "fst ` set (app_table e4) = fst ` set (app_table e3)" using 4(5) apps_view_keys by (metis set_map)
    then show ?thesis using ends unfolding links_connect_def links map_of_eq_None_iff by auto
  qed
  have acc4: "accounted e4 i4"
  proof -
    have "links_held (link_table e4) i4 = links_held (link_table e3) (sys_io s3) + links_held new i4"
      using links_held_cong [of "link_table e3" i4 "sys_io s3"] 2(3) 4(7) by (force simp: 4(8) links_held_def tables_ok_def)
    also have "links_held new i4 = 0" using 4(10) by (auto simp: links_held_def)
    finally have "held e4 i4 = held e3 (sys_io s3)" by (simp add: held_def 4(5))
    moreover have "link_ok (io_links i4 h)" for h
      using 4(11) [rule_format, of h] 2(5) by (auto simp: accounted_def io_ok_def new_link_ok)
    ultimately show ?thesis using 2(5) 4(5,6) by (simp add: accounted_def io_ok_def)
  qed
  have dist4: "distinct (map fst (app_table e4))" using 4(2) by (simp add: tables_ok_def)
  from compute_breathe_order_ok [OF connect assms(5) dist4] obtain e' where
    e': "compute_breathe_order ho e4 = Inr e'" "e' = e4\<lparr>inhale := inhale e', exhale := exhale e'\<rparr>"
    by blast
  have tables: "link_table e' = link_table e4" "app_table e' = app_table e4" by (subst e'(2), simp)+
  have views: "map_option (\<lambda>a. (as_app a, as_conf a)) (map_of (app_table e4) n) =
      map_option (\<lambda>a. (as_app a, as_conf a)) (map_of (app_table e3) n)"
    "map_option (\<lambda>a. (as_app a, as_conf a)) (map_of (app_table e1) n) =
      map_option (\<lambda>a. (as_app a, as_conf a)) (map_of (app_table e) n)" for n
    by (simp_all flip: apps_view_lookup add: 4(5) 1(5))
  show ?thesis
  proof (intro exI [of _ e'] exI [of _ "s3\<lparr>sys_io := i4\<rparr>"] conjI allI impI ballI)
    show "configure os ho c (e, s) = Inr (e', s3\<lparr>sys_io := i4\<rparr>)"
      using 1(1,2) 2(1,2) 4(1) e'(1) by (simp add: configure_def Let_def)
    show "engine_ok e'" "wired e' (cfg_links c)" "accounted e' (sys_io (s3\<lparr>sys_io := i4\<rparr>))"
      using 4(2-4) connect acc4 unfolding ordered_same [OF e'(2)] by (simp_all add: engine_ok_def)
    show "fst ` set (link_table e') = set (cfg_links c)" using links tables by simp
    show "map_option as_conf (map_of (app_table e') n) = map_of (cfg_apps c) n" for n
      using 2(9) [of n] views(1) [of n] unfolding tables by (auto simp: map_option_case split: option.splits)
    show "map_option as_app (map_of (app_table e') n) = Some (as_app a)"
      if n: "map_of (app_table e) n = Some a" "map_of (cfg_apps c) n = Some (as_conf a)" for n a
    proof -
      obtain b where b: "map_of (app_table e1) n = Some b" "as_app b = as_app a" "as_conf b = as_conf a"
        using views(2) [of n] n(1) by auto
      with 2(10) [OF b(1)] n(2) views(1) [of n] show ?thesis unfolding tables by auto
    qed
    show "map_of (link_table e') spec = Some h" "io_links (sys_io (s3\<lparr>sys_io := i4\<rparr>)) h = io_links (sys_io s) h"
      if "map_of (link_table e) spec = Some h" "spec \<in> set (cfg_links c)" for spec h
    proof -
      have "(spec, h) \<in> set (link_table e1)" using map_of_SomeD [OF that(1)] that(2) by (simp add: 1(7))
      then show "io_links (sys_io (s3\<lparr>sys_io := i4\<rparr>)) h = io_links (sys_io s) h" "map_of (link_table e') spec = Some h"
        using old 4(2) by (auto simp: tables 4(8) 2(7) tables_ok_def intro!: map_of_is_SomeI)
    qed
    show "\<exists>h. map_of (link_table e') spec = Some h \<and> io_links (sys_io (s3\<lparr>sys_io := i4\<rparr>)) h = new_link"
      if "spec \<in> set (cfg_links c)" "map_of (link_table e) spec = None" for spec
    proof -
      have "spec \<notin> fst ` set (link_table e3)" using that(2) by (force simp: 2(7) 1(7) map_of_eq_None_iff)
      then have "spec \<in> set (map fst new)" using that(1) 4(9) by blast
      then obtain h where "(spec, h) \<in> set new" by auto
      then have "map_of (link_table e4) spec = Some h" "io_links i4 h = new_link"
        using 4(2,10) by (auto simp: tables_ok_def 4(8) simp del: map_of_append intro!: map_of_is_SomeI)
      then show ?thesis by (simp add: tables)
    qed
    have "compute_breathe_order ho (e4\<lparr>inhale := xs, exhale := ys\<rparr>) = compute_breathe_order ho e4" for xs ys
      by (simp add: compute_breathe_order_def)
    then show "compute_breathe_order ho e' = Inr e'" using e' by metis
  qed
qed


section \<open>Properties\<close>

text \<open>
  C8. \<^verbatim>\<open>configure\<close> makes the running network match the configuration, from any well-formed state. It does not
  panic if the apps can be started; afterwards the app table has the apps of the configuration with their
  configurations and the link table the links of the configuration, both ends of every link refer to it, and the callbacks
  are ordered for the new network. No packet leaks: before and after, every packet in use is on a link
  of the table or in the queue of an app of the table, so what was on links and in apps that went is back on the
  freelist.
\<close>

theorem configure_applies:
  assumes "engine_ok e" and "accounted e (sys_io s)" and "config_ok c" and "can_start os c" and "hash_order ho"
  shows "\<exists>e' s'. configure os ho c (e, s) = Inr (e', s') \<and> engine_ok e' \<and> accounted e' (sys_io s') \<and>
    wired e' (cfg_links c) \<and> fst ` set (link_table e') = set (cfg_links c) \<and>
    (\<forall>n. map_option as_conf (map_of (app_table e') n) = map_of (cfg_apps c) n) \<and>
    compute_breathe_order ho e' = Inr e'"
  using configure_ok [OF assms] by blast

text \<open>
  C9. Reconfiguration is seamless for what stays: an app whose configuration did not change keeps its state (its
  queue, its tokens, its socket), a link that is in both configurations keeps its place in memory and the packets on it,
  and only links that are new start out empty.
\<close>

theorem configure_keeps:
  assumes "engine_ok e" and "accounted e (sys_io s)" and "config_ok c" and "can_start os c" and "hash_order ho"
    and "configure os ho c (e, s) = Inr (e', s')"
  shows "(\<forall>n a. map_of (app_table e) n = Some a \<longrightarrow> map_of (cfg_apps c) n = Some (as_conf a) \<longrightarrow>
      map_option as_app (map_of (app_table e') n) = Some (as_app a)) \<and>
    (\<forall>spec h. map_of (link_table e) spec = Some h \<longrightarrow> spec \<in> set (cfg_links c) \<longrightarrow>
      map_of (link_table e') spec = Some h \<and> io_links (sys_io s') h = io_links (sys_io s) h) \<and>
    (\<forall>spec \<in> set (cfg_links c). map_of (link_table e) spec = None \<longrightarrow>
      (\<exists>h. map_of (link_table e') spec = Some h \<and> io_links (sys_io s') h = new_link))"
  using configure_ok [OF assms(1-5)] assms(6) by auto

text \<open>From no network to a source and a sink, and from there to another source.\<close>

definition demo_config :: "u16 \<Rightarrow> conf config" where
  "demo_config sz = \<lparr>cfg_apps = [(''source'', Source sz), (''sink'', Sink)], cfg_links = [''source.output -> sink.input'']\<rparr>"

definition demo_sys :: "(u8 list list \<times> u8 list list) sys" where
  "demo_sys = \<lparr>sys_io = \<lparr>io_links = \<lambda>_. new_link, io_world = initial_world\<rparr>, sys_rng = \<lambda>_. 0, sys_net = ([], []),
     sys_files = \<lambda>_. [], sys_clock = \<lambda>i. i, MONOTONIC_NOW = None, LASTFREES = 0, SLEEP = 0\<rparr>"

lemma demo_links: "cfg_links (demo_config sz) = [''source.output -> sink.input'']"
  by (simp add: demo_config_def)

lemma demo_start:
  "engine_ok initial_engine" "accounted initial_engine (sys_io demo_sys)" "config_ok (demo_config sz)"
  "can_start demo_os (demo_config sz)" "hash_order (\<lambda>_ xs. xs)"
proof -
  have "parse_link ''source.output -> sink.input'' =
      Inr \<lparr>spec_from = ''source'', spec_output = ''output'', spec_to = ''sink'', spec_input = ''input''\<rparr>"
    by code_simp
  then show "config_ok (demo_config sz)" by (simp add: config_ok_def demo_config_def)
qed (simp_all add: engine_ok_def tables_ok_def ports_sound_def links_connect_def initial_engine_def accounted_def held_def
    links_held_def apps_held_def apps_view_def io_ok_def demo_sys_def new_link_ok initial_pool_ok can_start_def demo_config_def
    app_new_def hash_order_def)

theorem configure_applies_witness:
  "\<exists>e' s'. configure demo_os (\<lambda>_ xs. xs) (demo_config 60) (initial_engine, demo_sys) = Inr (e', s') \<and>
    engine_ok e' \<and> accounted e' (sys_io s') \<and> wired e' [''source.output -> sink.input'']"
  using configure_applies [OF demo_start(1,2) demo_start(3,4) [of 60] demo_start(5)] unfolding demo_links by blast

theorem configure_keeps_witness:
  "\<exists>e s e' s'. configure demo_os (\<lambda>_ xs. xs) (demo_config 60) (initial_engine, demo_sys) = Inr (e, s) \<and>
    configure demo_os (\<lambda>_ xs. xs) (demo_config 120) (e, s) = Inr (e', s') \<and>
    (\<exists>h. map_of (link_table e) ''source.output -> sink.input'' = Some h \<and>
      map_of (link_table e') ''source.output -> sink.input'' = Some h \<and> io_links (sys_io s') h = io_links (sys_io s) h)"
proof -
  obtain e s where 1: "configure demo_os (\<lambda>_ xs. xs) (demo_config 60) (initial_engine, demo_sys) = Inr (e, s)"
    "engine_ok e" "accounted e (sys_io s)" "wired e (cfg_links (demo_config 60))"
    using configure_ok [OF demo_start(1,2) demo_start(3,4) [of 60] demo_start(5)] by blast
  obtain e' s' where 2: "configure demo_os (\<lambda>_ xs. xs) (demo_config 120) (e, s) = Inr (e', s')"
    using configure_ok [OF 1(2,3) demo_start(3,4) [of 120] demo_start(5)] by blast
  obtain h where "map_of (link_table e) ''source.output -> sink.input'' = Some h"
    using 1(4) unfolding wired_def demo_links by auto
  with configure_keeps [OF 1(2,3) demo_start(3,4) [of 120] demo_start(5) 2] 1(1) 2 show ?thesis
    unfolding demo_links by (meson list.set_intros(1))
qed

end
