(* ===== verification/Conservation.thy ===== *)
theory Conservation
  imports Configure
begin

text \<open>
  Conservation of packets by every callback of every app, whatever the packets and the state, as long as
  the callback returns: what a callback takes from its input links or its queue, it puts on an output link, keeps
  in its queue, or returns to the freelist.

  The locale \<open>conserving\<close> is the contract of the apps that handle one packet at a time; the others
  are shown to keep the ledger directly.
\<close>

declare length_contents [simp del] take_append [simp del]

section \<open>Invariants of loops that return\<close>

lemma unwrap_eq_Inr: "unwrap x = Inr y \<longleftrightarrow> x = Some y"
  by (cases x) simp_all

lemma foldR_inv:
  "foldR f xs s = Inr t \<Longrightarrow> P s \<Longrightarrow> (\<And>x s s'. x \<in> set xs \<Longrightarrow> P s \<Longrightarrow> f x s = Inr s' \<Longrightarrow> P s') \<Longrightarrow> P t"
  by (induction xs arbitrary: s) (auto simp: bindR_eq_Inr)

text \<open>A loop that drains a link: \<open>P k s\<close> holds while \<open>k\<close> packets are left.\<close>

lemma drain_inv:
  assumes "drain f inp s = Inr (inp', s')" and "link_ok inp" and "P (length (contents inp)) s"
    and step: "\<And>k p s s'. P (Suc k) s \<Longrightarrow> packet_ok p \<Longrightarrow> f p s = Inr s' \<Longrightarrow> P k s'"
  shows "link_ok inp' \<and> contents inp' = [] \<and> P 0 s'"
proof -
  let ?I = "\<lambda>(inp, s). link_ok inp \<and> P (length (contents inp)) s"
  have "?I (inp', s') \<and> \<not> (case (inp', s') of (inp, s) \<Rightarrow> \<not> empty inp)"
  proof (rule loopR_inv [OF assms(1) [unfolded drain_def]])
    fix x y assume x: "?I x" "case x of (inp, s) \<Rightarrow> \<not> empty inp"
      "(case x of (inp, s) \<Rightarrow> bindR (receive inp) (\<lambda>(p, inp). bindR (f p s) (\<lambda>s. Inr (inp, s)))) = Inr y"
    obtain i t where xt: "x = (i, t)" by (cases x)
    have i: "link_ok i" "P (length (contents i)) t" using x(1) by (simp_all add: xt)
    have "contents i \<noteq> []" using x(2) ch.is_empty_iff [OF i(1)] by (simp add: xt)
    then obtain p ps where ps: "contents i = p # ps" by (cases "contents i") auto
    then obtain i' where i': "receive i = Inr (p, i')" "link_ok i'" "contents i' = ps"
      using ch.recv_first [OF i(1)] by blast
    have "packet_ok p" using link_okD(5) [OF i(1), of p] ps by simp
    moreover obtain t' where "f p t = Inr t'" "y = (i', t')" using x(3) i'(1) by (auto simp: xt bindR_eq_Inr)
    ultimately show "?I y" using step [of "length ps" t p t'] i i' ps by simp
  qed (use assms(2,3) in simp)
  then show ?thesis using ch.is_empty_iff by auto
qed

section \<open>The freelist and one link\<close>

lemma allocate_inv:
  assumes "allocate w = Inr (p, w')" and "pool_ok w n"
  shows "packet_ok p" "pool_ok w' (Suc n)"
proof -
  have "n < pool_max"
    using assms allocate_panic [of w] pool_ok_n_le [OF assms(2)] by (cases "n = pool_max") auto
  with allocate_ok [OF assms(2)] assms(1) show "packet_ok p" "pool_ok w' (Suc n)" by auto
qed

lemma clone_inv:
  assumes "clone p w = Inr (q, w')" and "pool_ok w n"
  shows "packet_ok q" "pool_ok w' (Suc n)"
proof -
  obtain r where r: "allocate w = Inr (r, w')" "q = r\<lparr>p_data := copy (p_data r) (p_data p) (unat (p_length p)), p_length := p_length p\<rparr>"
    using assms(1) by (auto simp: clone_def bindR_eq_Inr)
  show "packet_ok q" "pool_ok w' (Suc n)"
    using allocate_inv [OF r(1) assms(2)] by (simp_all add: r(2) packet_ok_def)
qed

text \<open>A packet in hand is put on a link, or freed.\<close>

lemma transmit_inv:
  assumes "transmit out p w = Inr (out', w')" and "link_ok out" and "packet_ok p"
    and "pool_ok w (Suc (b + length (contents out)))"
  shows "link_ok out' \<and> pool_ok w' (b + length (contents out'))"
proof -
  from ch.send_ok [OF assms(2,3,4)] assms(1) obtain n where
    "link_ok out'" "pool_ok w' n" "n + length (contents out) + 1 = Suc (b + length (contents out)) + length (contents out')"
    by auto
  moreover from this(3) have "n = b + length (contents out')" by linarith
  ultimately show ?thesis by simp
qed

lemma free_inv:
  assumes "free p w = Inr w'" and "packet_ok p" and "pool_ok w (Suc n)"
  shows "pool_ok w' n"
  using free_ok [OF assms(3), of p] freed_pool_ok [OF assms(3,2)] assms(1) by simp

section \<open>Steps on one packet\<close>

locale conserving =
  fixes step :: "packet \<Rightarrow> link \<times> world \<times> 'x \<Rightarrow> (link \<times> world \<times> 'x) res"
  assumes step_conserves: "step p (out, w, x) = Inr (out', w', x') \<Longrightarrow> link_ok out \<Longrightarrow> packet_ok p \<Longrightarrow>
    pool_ok w (Suc (b + length (contents out))) \<Longrightarrow> link_ok out' \<and> pool_ok w' (b + length (contents out'))"
begin

lemma drain_conserves:
  assumes "drain step inp (out, w, x) = Inr (inp', out', w', x')" and "link_ok inp" and "link_ok out"
    and "pool_ok w (b + length (contents inp) + length (contents out))"
  shows "link_ok inp' \<and> contents inp' = [] \<and> link_ok out' \<and> pool_ok w' (b + length (contents out'))"
proof -
  let ?P = "\<lambda>k (out, w, x). link_ok out \<and> pool_ok w (b + k + length (contents out))"
  have "link_ok inp' \<and> contents inp' = [] \<and> ?P 0 (out', w', x')"
  proof (rule drain_inv [OF assms(1,2), where P = ?P])
    fix k p s s' assume "?P (Suc k) s" "packet_ok p" "step p s = Inr s'"
    then show "?P k s'"
      using step_conserves [of p _ _ _ _ _ _ "b + k"] by (cases s; cases s') auto
  qed (use assms(3,4) in simp)
  then show ?thesis by simp
qed

end

lemma transmit_step: "conserving (\<lambda>p (out, w, x). bindR (transmit out p w) (\<lambda>(out, w). Inr (out, w, x)))"
  by unfold_locales (auto simp: bindR_eq_Inr dest: transmit_inv)

interpretation lossc: conserving "loss_step ratio" for ratio
  by unfold_locales
    (auto simp: loss_step_def Let_def bindR_eq_Inr dest: transmit_inv free_inv split: if_splits prod.splits)

interpretation ratec: conserving "rate_step scale" for scale
  by unfold_locales (auto simp: rate_step_def Let_def bindR_eq_Inr dest: transmit_inv free_inv split: if_splits)

interpretation topc: conserving "top_step d" for d
  by unfold_locales (auto simp: top_step_def bindR_eq_Inr dest: transmit_inv)

lemma put_length:
  assumes "length m = PAYLOAD_SIZE"
  shows "length (put_tcp m t) = PAYLOAD_SIZE" "length (put_udp m u) = PAYLOAD_SIZE" "length (put_ip m i) = PAYLOAD_SIZE"
proof -
  have "proto_ofs + tcp_size \<le> length m" "proto_ofs + udp_size \<le> length m" "ethernet_size + ipv4_size \<le> length m"
    using assms by (simp_all add: PAYLOAD_SIZE_def header_sizes)
  then show "length (put_tcp m t) = PAYLOAD_SIZE" "length (put_udp m u) = PAYLOAD_SIZE" "length (put_ip m i) = PAYLOAD_SIZE"
    by (simp_all add: tcph.length_put udph.length_put iph.length_put assms)
qed

lemma maybe_fill_packet_ok:
  assumes "maybe_fill_in_checksum p = Inr q" and "packet_ok p"
  shows "packet_ok q"
  using assms
  by (auto simp: maybe_fill_in_checksum_def fill_tcp_def fill_udp_def Let_def bindR_eq_Inr packet_ok_def put_length
      split: if_splits)

interpretation checksumc: conserving checksum_step
  by unfold_locales (auto simp: checksum_step_def bindR_eq_Inr dest: maybe_fill_packet_ok transmit_inv)

lemma segment_step_inv:
  assumes "segment_step mss ofs (p, out, w, d, l) = Inr (p', out', w', d', l')" and "packet_ok p" and "link_ok out"
    and "pool_ok w (b + length (contents out))"
  shows "packet_ok p' \<and> link_ok out' \<and> pool_ok w' (b + length (contents out'))"
proof -
  obtain s w1 where s: "allocate w = Inr (s, w1)" using assms(1) by (auto simp: segment_step_def bindR_eq_Inr)
  note s_ok = allocate_inv [OF s assms(4)]
  from assms(1) s obtain seg where
    seg: "transmit out seg w1 = Inr (out', w')" "length (p_data seg) = length (p_data s)"
    and p': "length (p_data p') = PAYLOAD_SIZE"
    using assms(2)
    by (auto simp: segment_step_def bindR_eq_Inr Let_def slice_from_def packet_ok_def put_length min_def split: if_splits)
  show ?thesis
    using transmit_inv [OF seg(1) assms(3), of b] seg(2) s_ok p' by (simp add: packet_ok_def)
qed

interpretation tsdc: conserving tsd_step
proof unfold_locales
  fix p out w mss out' w' mss' b
  assume h: "tsd_step p (out, w, mss) = Inr (out', w', mss')" "link_ok out" "packet_ok p"
    "pool_ok w (Suc (b + length (contents out)))"
  then have f: "forward_tcp_segments out p mss w = Inr (out', w')"
    by (auto simp: tsd_step_def bindR_eq_Inr)
  let ?I = "\<lambda>(p, out, w, _, _). packet_ok p \<and> link_ok out \<and> pool_ok w (Suc b + length (contents out))"
  have seg: "link_ok out' \<and> pool_ok w' (b + length (contents out'))"
    if "bindR (loopR (\<lambda>(p, out, w, data_ofs, data_length). 0 < data_length) (segment_step mss k) (p, out, w, k, l))
         (\<lambda>(p, out, w, _, _). bindR (free p w) (\<lambda>w. Inr (out, w))) = Inr (out', w')" for k l
  proof -
    from that obtain q w1 d1 l1 where
      r: "loopR (\<lambda>(p, out, w, data_ofs, data_length). 0 < data_length) (segment_step mss k) (p, out, w, k, l) = Inr (q, out', w1, d1, l1)"
        "free q w1 = Inr w'"
      by (auto simp: bindR_eq_Inr)
    have "?I (q, out', w1, d1, l1) \<and> \<not> (\<lambda>(p, out, w, data_ofs, data_length). 0 < data_length) (q, out', w1, d1, l1)"
      by (rule loopR_inv [OF r(1)]) (use h segment_step_inv [where b = "Suc b"] in auto)
    then show ?thesis using free_inv [OF r(2)] by simp
  qed
  show "link_ok out' \<and> pool_ok w' (b + length (contents out'))"
    using f transmit_inv [OF _ h(2,3,4)] seg
    by (auto simp: forward_tcp_segments_def Let_def bindR_eq_Inr [of "from_mem _ _ _"] simp del: loopR_step loopR_stop
      split: if_splits)
qed


section \<open>The ledger\<close>

text \<open>
  The links of the set \<open>H\<close> hold packets, \<open>b\<close> packets are elsewhere (in a queue, or in the hands of a callback), and
  there are no others.
\<close>

definition ledger :: "nat set \<Rightarrow> nat \<Rightarrow> io \<Rightarrow> bool" where
  "ledger H b s \<longleftrightarrow> (\<forall>h. link_ok (io_links s h)) \<and> pool_ok (io_world s) (b + (\<Sum>h \<in> H. length (contents (io_links s h))))"

lemma ledger_link: "ledger H b s \<Longrightarrow> link_ok (io_links s h)"
  by (simp add: ledger_def)

text \<open>A link is taken out of the ledger, and put back.\<close>

lemma ledger_take: "finite H \<Longrightarrow> i \<in> H \<Longrightarrow> ledger H b s \<Longrightarrow> ledger (H - {i}) (b + length (contents (io_links s i))) s"
  by (simp add: ledger_def sum.remove [of H i] ac_simps)

lemma ledger_put:
  assumes "finite H" and "i \<in> H" and "ledger (H - {i}) (b + length (contents r)) s" and "link_ok r"
  shows "ledger H b (s\<lparr>io_links := (io_links s)(i := r)\<rparr>)"
  using assms by (simp add: ledger_def sum.remove [of H i] ac_simps)

text \<open>A change of one link.\<close>

lemma ledger_change:
  assumes "finite H" and "i \<in> H" and "ledger H b s"
    and "\<And>c. pool_ok (io_world s) (b + c + length (contents (io_links s i))) \<Longrightarrow> link_ok r \<and> pool_ok w (b' + c + length (contents r))"
  shows "ledger H b' (s\<lparr>io_links := (io_links s)(i := r), io_world := w\<rparr>)"
proof -
  let ?c = "\<Sum>h \<in> H - {i}. length (contents (io_links s h))"
  have "pool_ok (io_world s) (b + ?c + length (contents (io_links s i)))"
    using ledger_take [OF assms(1-3)] by (simp add: ledger_def ac_simps)
  from assms(4) [OF this] assms(1-3) show ?thesis by (simp add: ledger_def sum.remove [of H i] ac_simps)
qed

text \<open>A change of two links.\<close>

lemma ledger_change2:
  assumes "finite H" and "i \<in> H" and "j \<in> H" and "i \<noteq> j" and "ledger H b s"
    and "\<And>c. pool_ok (io_world s) (b + c + length (contents (io_links s i)) + length (contents (io_links s j))) \<Longrightarrow>
      link_ok r \<and> link_ok q \<and> pool_ok w (b' + c + length (contents r) + length (contents q))"
  shows "ledger H b' (s\<lparr>io_links := (io_links s)(i := r, j := q), io_world := w\<rparr>)"
proof -
  let ?c = "\<Sum>h \<in> H - {i} - {j}. length (contents (io_links s h))"
  have split: "(\<Sum>h \<in> H. f h) = f i + (f j + (\<Sum>h \<in> H - {i} - {j}. f h))" for f :: "nat \<Rightarrow> nat"
    using assms(1-4) by (simp add: sum.remove [of H i] sum.remove [of "H - {i}" j])
  have "(\<Sum>h \<in> H - {i} - {j}. length (contents (((io_links s)(i := r, j := q)) h))) = ?c"
    by (rule sum.cong) auto
  moreover have "pool_ok (io_world s) (b + ?c + length (contents (io_links s i)) + length (contents (io_links s j)))"
    using assms(5) by (simp add: ledger_def split ac_simps)
  ultimately show ?thesis
    using assms(6) [of ?c] assms(4,5) by (simp add: ledger_def split ac_simps)
qed

definition handles :: "ports \<Rightarrow> nat set" where
  "handles a = snd ` set (app_input a) \<union> snd ` set (app_output a)"

lemma handles_lookup:
  "map_of (app_input a) p = Some h \<Longrightarrow> h \<in> handles a" "map_of (app_output a) p = Some h \<Longrightarrow> h \<in> handles a"
  by (force simp: handles_def dest: map_of_SomeD)+

lemma borrow_io_inv: "borrow_io a = Inr (i, j) \<Longrightarrow> i \<in> handles a \<and> j \<in> handles a \<and> i \<noteq> j"
  by (auto simp: borrow_io_def unwrap_def bindR_eq_Inr handles_lookup split: option.splits if_splits)

context conserving
begin

lemma push_through_ledger:
  assumes "push_through step a x s = Inr (x', s')" and "ledger H b s" and "finite H" and "handles a \<subseteq> H"
  shows "ledger H b s'"
proof -
  obtain i j inp out w where r: "borrow_io a = Inr (i, j)"
    "drain step (io_links s i) (io_links s j, io_world s, x) = Inr (inp, out, w, x')"
    "s' = s\<lparr>io_links := (io_links s)(i := inp, j := out), io_world := w\<rparr>"
    using assms(1) by (auto simp: push_through_def bindR_eq_Inr)
  have ij: "i \<in> H" "j \<in> H" "i \<noteq> j" using borrow_io_inv [OF r(1)] assms(4) by auto
  show ?thesis
    unfolding r(3)
  proof (rule ledger_change2 [OF assms(3) ij assms(2)])
    fix c assume "pool_ok (io_world s) (b + c + length (contents (io_links s i)) + length (contents (io_links s j)))"
    from drain_conserves [OF r(2) ledger_link [OF assms(2)] ledger_link [OF assms(2)] this]
    show "link_ok inp \<and> link_ok out \<and> pool_ok w (b + c + length (contents inp) + length (contents out))" by simp
  qed
qed

end

section \<open>Callbacks\<close>

lemma source_fill_inv:
  "source_fill n sz (out, w) = Inr (out', w') \<Longrightarrow> link_ok out \<Longrightarrow> pool_ok w (b + length (contents out)) \<Longrightarrow>
   link_ok out' \<and> pool_ok w' (b + length (contents out'))"
proof (induction n arbitrary: out w)
  case (Suc n)
  obtain p w1 out1 w2 where r: "allocate w = Inr (p, w1)"
    "transmit out (p\<lparr>p_data := fill (p_data p) (unat sz) 0, p_length := sz\<rparr>) w1 = Inr (out1, w2)"
    "source_fill n sz (out1, w2) = Inr (out', w')"
    using Suc.prems(1) by (auto simp: bindR_eq_Inr Let_def)
  have "packet_ok (p\<lparr>p_data := fill (p_data p) (unat sz) 0, p_length := sz\<rparr>)" "pool_ok w1 (Suc (b + length (contents out)))"
    using allocate_inv [OF r(1) Suc.prems(3)] by (simp_all add: packet_ok_def)
  from transmit_inv [OF r(2) Suc.prems(2) this] Suc.IH [OF r(3)] show ?case by blast
qed simp

lemma source_pull_ledger:
  assumes "source_pull sz a s = Inr s'" and "ledger H b s" and "finite H" and "handles a \<subseteq> H"
  shows "ledger H b s'"
  unfolding source_pull_def
proof (rule foldR_inv [OF assms(1) [unfolded source_pull_def], where P = "ledger H b"])
  fix x s s' assume x: "x \<in> set (app_output a)" "ledger H b s"
    "(case x of (_, j) \<Rightarrow> \<lambda>s. bindR (source_fill PULL_NPACKETS sz (io_links s j, io_world s)) (\<lambda>(out, w).
       Inr (s\<lparr>io_links := (io_links s)(j := out), io_world := w\<rparr>))) s = Inr s'"
  then have "snd x \<in> H" using assms(4) by (auto simp: handles_def)
  with x show "ledger H b s'"
    using ledger_change [OF assms(3) _ x(2)] source_fill_inv ledger_link [OF x(2)]
    by (fastforce simp: bindR_eq_Inr split: prod.splits)
qed (fact assms(2))

lemma sink_push_ledger:
  assumes "sink_push a s = Inr s'" and "ledger H b s" and "finite H" and "handles a \<subseteq> H"
  shows "ledger H b s'"
proof (rule foldR_inv [OF assms(1) [unfolded sink_push_def], where P = "ledger H b"])
  fix x s s' assume x: "x \<in> set (app_input a)" "ledger H b s"
    "(case x of (_, i) \<Rightarrow> \<lambda>s. bindR (drain free (io_links s i) (io_world s)) (\<lambda>(inp, w).
       Inr (s\<lparr>io_links := (io_links s)(i := inp), io_world := w\<rparr>))) s = Inr s'"
  obtain i inp w where r: "snd x = i" "drain free (io_links s i) (io_world s) = Inr (inp, w)"
    "s' = s\<lparr>io_links := (io_links s)(i := inp), io_world := w\<rparr>"
    using x(3) by (auto simp: bindR_eq_Inr split: prod.splits)
  have "i \<in> H" using x(1) r(1) assms(4) by (auto simp: handles_def)
  then show "ledger H b s'"
    unfolding r(3)
  proof (rule ledger_change [OF assms(3) _ x(2)])
    fix c assume c: "pool_ok (io_world s) (b + c + length (contents (io_links s i)))"
    have "link_ok inp \<and> contents inp = [] \<and> pool_ok w (b + c + 0)"
      by (rule drain_inv [OF r(2) ledger_link [OF x(2)], where P = "\<lambda>k w. pool_ok w (b + c + k)"]) (use c free_inv in auto)
    then show "link_ok inp \<and> pool_ok w (b + c + length (contents inp))" by simp
  qed
qed (fact assms(2))

lemma join_push_ledger:
  assumes "join_push a s = Inr s'" and "ledger H b s" and "finite H" and "handles a \<subseteq> H"
  shows "ledger H b s'"
proof (cases "map_of (app_output a) ''output''")
  case None
  then show ?thesis using assms(1,2) by (simp add: join_push_def)
next
  case (Some j)
  have j: "j \<in> H" using handles_lookup(2) [OF Some] assms(4) by blast
  have "foldR (\<lambda>(_, i). join_input j i) (app_input a) s = Inr s'" using assms(1) Some by (simp add: join_push_def)
  then show ?thesis
  proof (rule foldR_inv [where P = "ledger H b"])
    fix x s s' assume x: "x \<in> set (app_input a)" "ledger H b s" "(case x of (_, i) \<Rightarrow> join_input j i) s = Inr s'"
    obtain i inp out w where r: "snd x = i" "i \<noteq> j"
      "drain (\<lambda>p (out, w). transmit out p w) (io_links s i) (io_links s j, io_world s) = Inr (inp, out, w)"
      "s' = s\<lparr>io_links := (io_links s)(i := inp, j := out), io_world := w\<rparr>"
      using x(3) by (auto simp: join_input_def bindR_eq_Inr split: prod.splits if_splits)
    have i: "i \<in> H" using x(1) r(1) assms(4) by (auto simp: handles_def)
    show "ledger H b s'"
      unfolding r(4)
    proof (rule ledger_change2 [OF assms(3) i j r(2) x(2)])
      fix c assume c: "pool_ok (io_world s) (b + c + length (contents (io_links s i)) + length (contents (io_links s j)))"
      let ?P = "\<lambda>k (out, w). link_ok out \<and> pool_ok w (b + c + k + length (contents out))"
      have "link_ok inp \<and> contents inp = [] \<and> ?P 0 (out, w)"
      proof (rule drain_inv [OF r(3) ledger_link [OF x(2)], where P = ?P])
        fix k p s s' assume "?P (Suc k) s" "packet_ok p" "(case s of (out, w) \<Rightarrow> transmit out p w) = Inr s'"
        then show "?P k s'" using transmit_inv [of _ p _ _ _ "b + c + k"] by (cases s; cases s') auto
      qed (use c ledger_link [OF x(2)] in \<open>simp add: ac_simps\<close>)
      then show "link_ok inp \<and> link_ok out \<and> pool_ok w (b + c + length (contents inp) + length (contents out))" by simp
    qed
  qed (fact assms(2))
qed


text \<open>A packet in hand is put on a link of the ledger; a clone is one more in hand.\<close>

lemma transmit_ledger:
  assumes "transmit (io_links s j) p (io_world s) = Inr (out, w)" and "packet_ok p" and "finite H" and "j \<in> H"
    and "ledger H (Suc b) s"
  shows "ledger H b (s\<lparr>io_links := (io_links s)(j := out), io_world := w\<rparr>)"
  by (rule ledger_change [OF assms(3-5)])
    (use transmit_inv [OF assms(1) ledger_link [OF assms(5)] assms(2)] in \<open>simp add: add.assoc [symmetric]\<close>)

lemma clone_ledger:
  assumes "clone p (io_world s) = Inr (q, w)" and "ledger H b s"
  shows "packet_ok q \<and> ledger H (Suc b) (s\<lparr>io_world := w\<rparr>)"
  using clone_inv [OF assms(1)] assms(2) by (auto simp: ledger_def)

text \<open>A loop that drains a link while it changes others.\<close>

lemma drain_ledger:
  assumes "drain f (io_links s i) s = Inr (inp, s')" and "finite H" and "i \<in> H" and "ledger H b s"
    and step: "\<And>k p s s'. ledger (H - {i}) (Suc k) s \<Longrightarrow> packet_ok p \<Longrightarrow> f p s = Inr s' \<Longrightarrow> ledger (H - {i}) k s'"
  shows "ledger H b (s'\<lparr>io_links := (io_links s')(i := inp)\<rparr>)"
proof -
  have "link_ok inp \<and> contents inp = [] \<and> ledger (H - {i}) (b + 0) s'"
    by (rule drain_inv [OF assms(1) ledger_link [OF assms(4)], where P = "\<lambda>k. ledger (H - {i}) (b + k)"])
      (use ledger_take [OF assms(2-4)] step in auto)
  then show ?thesis by (intro ledger_put [OF assms(2,3)]) auto
qed

lemma tee_packet_ledger:
  assumes "tee_packet a i p s = Inr s'" and "packet_ok p" and "ledger H (Suc b) s" and "finite H"
    and "\<forall>j \<in> snd ` set (app_output a). j \<noteq> i \<longrightarrow> j \<in> H"
  shows "ledger H b s'"
proof -
  obtain s1 w where s1: "foldR (\<lambda>(_, j). tee_output i p j) (app_output a) s = Inr s1" "free p (io_world s1) = Inr w"
    "s' = s1\<lparr>io_world := w\<rparr>"
    using assms(1) by (auto simp: tee_packet_def bindR_eq_Inr)
  have "ledger H (Suc b) s1"
  proof (rule foldR_inv [OF s1(1), where P = "ledger H (Suc b)"])
    fix x s s' assume x: "x \<in> set (app_output a)" "ledger H (Suc b) s" "(case x of (_, j) \<Rightarrow> tee_output i p j) s = Inr s'"
    obtain j q w out w' where j: "snd x = j" "j \<noteq> i" "clone p (io_world s) = Inr (q, w)"
      "transmit (io_links s j) q w = Inr (out, w')" "s' = s\<lparr>io_links := (io_links s)(j := out), io_world := w'\<rparr>"
      using x(3) by (auto simp: tee_output_def bindR_eq_Inr split: prod.splits if_splits)
    have "j \<in> H" using assms(5) x(1) j(1,2) by auto
    with transmit_ledger [of "s\<lparr>io_world := w\<rparr>" j q out w' H "Suc b"] clone_ledger [OF j(3) x(2)] j(4,5) assms(4)
    show "ledger H (Suc b) s'" by simp
  qed (fact assms(3))
  with free_inv [OF s1(2) assms(2)] show ?thesis by (simp add: s1(3) ledger_def)
qed

lemma tee_push_ledger:
  assumes "tee_push a s = Inr s'" and "ledger H b s" and "finite H" and "handles a \<subseteq> H"
  shows "ledger H b s'"
proof (rule foldR_inv [OF assms(1) [unfolded tee_push_def], where P = "ledger H b"])
  fix x s s' assume x: "x \<in> set (app_input a)" "ledger H b s" "(case x of (_, i) \<Rightarrow> tee_input a i) s = Inr s'"
  obtain i inp s1 where r: "snd x = i" "drain (tee_packet a i) (io_links s i) s = Inr (inp, s1)"
    "s' = s1\<lparr>io_links := (io_links s1)(i := inp)\<rparr>"
    using x(3) by (auto simp: tee_input_def bindR_eq_Inr split: prod.splits)
  have "i \<in> H" using x(1) r(1) assms(4) by (auto simp: handles_def)
  then show "ledger H b s'"
    unfolding r(3)
    by (rule drain_ledger [OF r(2) assms(3) _ x(2)])
      (erule tee_packet_ledger, use assms(3,4) in \<open>auto simp: handles_def\<close>)
qed (fact assms(2))

lemma split_target_inv:
  "split_target flows a i d p = Inr j \<Longrightarrow> map_of (app_output a) ''default'' = Some d \<Longrightarrow> j \<in> handles a \<and> j \<noteq> i"
  by (auto simp: split_target_def bindR_eq_Inr unwrap_eq_Inr dest: handles_lookup split: if_splits option.splits)

lemma split_push_ledger:
  assumes "split_push flows a s = Inr s'" and "ledger H b s" and "finite H" and "handles a \<subseteq> H"
  shows "ledger H b s'"
proof -
  obtain i d inp s1 where r: "map_of (app_input a) ''input'' = Some i" "map_of (app_output a) ''default'' = Some d"
    "drain (split_step flows a i d) (io_links s i) s = Inr (inp, s1)" "s' = s1\<lparr>io_links := (io_links s1)(i := inp)\<rparr>"
    using assms(1) by (auto simp: split_push_def unwrap_def bindR_eq_Inr split: option.splits)
  have "i \<in> H" using handles_lookup(1) [OF r(1)] assms(4) by blast
  then show ?thesis
    unfolding r(4)
  proof (rule drain_ledger [OF r(3) assms(3) _ assms(2)])
    fix k p s s' assume s: "ledger (H - {i}) (Suc k) s" "packet_ok p" "split_step flows a i d p s = Inr s'"
    obtain j out w where j: "split_target flows a i d p = Inr j" "transmit (io_links s j) p (io_world s) = Inr (out, w)"
      "s' = s\<lparr>io_links := (io_links s)(j := out), io_world := w\<rparr>"
      using s(3) by (auto simp: split_step_def bindR_eq_Inr)
    have "j \<in> H - {i}" using split_target_inv [OF j(1) r(2)] assms(4) by blast
    with transmit_ledger [OF j(2) s(2) _ _ s(1)] assms(3) show "ledger (H - {i}) k s'" by (simp add: j(3))
  qed
qed


section \<open>Sockets\<close>

text \<open>
  \<^verbatim>\<open>read(2)\<close> stores at most as many bytes as it is given room for.
\<close>

definition reads_fit :: "'n os \<Rightarrow> bool" where
  "reads_fit os \<longleftrightarrow> (\<forall>sock n net r bytes net'. os_read os sock n net = (r, bytes, net') \<longrightarrow> length bytes \<le> n)"

lemma sock_receive_inv:
  assumes "sock_receive os sock (w, net) = Inr (p, w', net')" and "reads_fit os" and "pool_ok w n"
  shows "packet_ok p" "pool_ok w' (Suc n)"
proof -
  obtain r bytes net1 where n: "os_read os sock PAYLOAD_SIZE net = (r, bytes, net1)" by (metis prod_cases3)
  obtain q where q: "allocate w = Inr (q, w')" "p = q\<lparr>p_data := bytes @ drop (length bytes) (p_data q), p_length := of_int r\<rparr>"
    using assms(1) by (auto simp: sock_receive_def bindR_eq_Inr Let_def n split: if_splits)
  note ok = allocate_inv [OF q(1) assms(3)]
  show "pool_ok w' (Suc n)" by (rule ok)
  have "length bytes \<le> PAYLOAD_SIZE" using assms(2) n unfolding reads_fit_def by blast
  then show "packet_ok p" using ok(1) by (simp add: q(2) packet_ok_def)
qed

lemma rawsocket_pull_loop_inv:
  assumes "reads_fit os"
  shows "rawsocket_pull_loop os sock limit (out, w, net) = Inr (out', w', net') \<Longrightarrow> link_ok out \<Longrightarrow>
    pool_ok w (b + length (contents out)) \<Longrightarrow> link_ok out' \<and> pool_ok w' (b + length (contents out'))"
proof (induction limit arbitrary: out w net)
  case (Suc limit)
  show ?case
  proof (cases "\<exists>net1. can_receive os sock net = Inr (False, net1)")
    case True
    with Suc.prems show ?thesis by auto
  next
    case False
    then obtain net1 p w1 net2 out1 w2 where r: "sock_receive os sock (w, net1) = Inr (p, w1, net2)"
      "transmit out p w1 = Inr (out1, w2)" "rawsocket_pull_loop os sock limit (out1, w2, net2) = Inr (out', w', net')"
      using Suc.prems(1) by (auto simp: bindR_eq_Inr split: if_splits)
    note p = sock_receive_inv [OF r(1) assms Suc.prems(3)]
    from transmit_inv [OF r(2) Suc.prems(2) p] Suc.IH [OF r(3)] show ?thesis by blast
  qed
qed simp

lemma rawsocket_pull_ledger:
  assumes "rawsocket_pull os sock a (s, net) = Inr (s', net')" and "reads_fit os" and "ledger H b s" and "finite H"
    and "handles a \<subseteq> H"
  shows "ledger H b s'"
proof (cases "map_of (app_output a) ''output''")
  case (Some j)
  then have j: "j \<in> H" using handles_lookup(2) assms(5) by blast
  obtain out w where r: "rawsocket_pull_loop os sock PULL_NPACKETS (io_links s j, io_world s, net) = Inr (out, w, net')"
    "s' = s\<lparr>io_links := (io_links s)(j := out), io_world := w\<rparr>"
    using assms(1) Some by (auto simp: rawsocket_pull_def bindR_eq_Inr)
  show ?thesis
    unfolding r(2)
    by (rule ledger_change [OF assms(4) j assms(3)])
      (rule rawsocket_pull_loop_inv [OF assms(2) r(1) ledger_link [OF assms(3)]])
qed (use assms(1,3) in \<open>simp add: rawsocket_pull_def\<close>)

lemma sock_transmit_inv:
  "sock_transmit os sock p (w, net) = Inr (w', net') \<Longrightarrow> packet_ok p \<Longrightarrow> pool_ok w (Suc n) \<Longrightarrow> pool_ok w' n"
  by (auto simp: sock_transmit_def Let_def bindR_eq_Inr dest: free_inv split: prod.splits if_splits)

lemma rawsocket_push_loop_inv:
  assumes "rawsocket_push_loop os sock (inp, w, net) = Inr (inp', w', net')" and "link_ok inp"
    and "pool_ok w (b + length (contents inp))"
  shows "link_ok inp' \<and> pool_ok w' (b + length (contents inp'))"
proof -
  let ?f = "\<lambda>(go, inp, w, net).
              bindR (receive inp) (\<lambda>(p, inp).
              bindR (sock_transmit os sock p (w, net)) (\<lambda>(w, net).
              bindR (push_ready os sock inp net) (\<lambda>(go, net). Inr (go, inp, w, net))))"
  let ?I = "\<lambda>(go, inp, w, net). link_ok inp \<and> pool_ok w (b + length (contents inp))"
  obtain go net1 go' where r: "loopR fst ?f (go, inp, w, net1) = Inr (go', inp', w', net')"
    using assms(1) by (auto simp: rawsocket_push_loop_def bindR_eq_Inr)
  have "?I (go', inp', w', net') \<and> \<not> fst (go', inp', w', net')"
  proof (rule loopR_inv [OF r])
    fix s s' assume s: "?I s" "fst s" "?f s = Inr s'"
    obtain go inp w net where st: "s = (go, inp, w, net)" by (cases s)
    obtain p inp1 w1 net1 where f: "receive inp = Inr (p, inp1)" "sock_transmit os sock p (w, net) = Inr (w1, net1)"
      "fst (snd s') = inp1" "fst (snd (snd s')) = w1"
      using s(3) by (auto simp: st bindR_eq_Inr)
    note i = receive_inv [OF _ f(1)]
    have "packet_ok p" using i(1) s(1) link_okD(5) [of inp p] by (simp add: st)
    with i s(1) sock_transmit_inv [OF f(2)] have "link_ok inp1 \<and> pool_ok w1 (b + length (contents inp1))"
      by (simp add: st)
    then show "?I s'" using f(3,4) by (cases s') auto
  qed (use assms(2,3) in simp)
  then show ?thesis by simp
qed

lemma rawsocket_push_ledger:
  assumes "rawsocket_push os sock a (s, net) = Inr (s', net')" and "ledger H b s" and "finite H" and "handles a \<subseteq> H"
  shows "ledger H b s'"
proof (cases "map_of (app_input a) ''input''")
  case (Some i)
  then have i: "i \<in> H" using handles_lookup(1) assms(4) by blast
  obtain inp w where r: "rawsocket_push_loop os sock (io_links s i, io_world s, net) = Inr (inp, w, net')"
    "s' = s\<lparr>io_links := (io_links s)(i := inp), io_world := w\<rparr>"
    using assms(1) Some by (auto simp: rawsocket_push_def bindR_eq_Inr)
  show ?thesis
    unfolding r(2)
    by (rule ledger_change [OF assms(3) i assms(2)]) (rule rawsocket_push_loop_inv [OF r(1) ledger_link [OF assms(2)]])
qed (use assms(1,2) in \<open>simp add: rawsocket_push_def\<close>)


section \<open>Delay queues\<close>

abbreviation held_q :: "delay_queue \<Rightarrow> nat" where
  "held_q q \<equiv> held_in_queue (dq_packets q)"

text \<open>The queue holds packets of the freelist, and has the capacity \<open>c\<close>.\<close>

definition queue_ok :: "nat \<Rightarrow> delay_queue \<Rightarrow> bool" where
  "queue_ok c q \<longleftrightarrow> (\<forall>p. Packet p \<in> set (dq_packets q) \<longrightarrow> packet_ok p) \<and> dq_capacity q = c"

lemma held_in_queue_append [simp]: "held_in_queue (xs @ ys) = held_in_queue xs + held_in_queue ys"
  by (induction xs rule: held_in_queue.induct) auto

lemma enqueue_delay_inv: "enqueue_delay t q = Inr q' \<Longrightarrow> queue_ok c q \<Longrightarrow> queue_ok c q' \<and> held_q q' = held_q q"
  by (auto simp: enqueue_delay_def queue_ok_def split: if_splits)

lemma enqueue_packet_inv:
  "enqueue_packet p q = Inr q' \<Longrightarrow> queue_ok c q \<Longrightarrow> packet_ok p \<Longrightarrow> queue_ok c q' \<and> held_q q' = Suc (held_q q)"
  by (auto simp: enqueue_packet_def queue_ok_def split: if_splits)

lemma dequeue_packet_inv:
  "dequeue_packet q = Inr (p, q') \<Longrightarrow> queue_ok c q \<Longrightarrow> packet_ok p \<and> queue_ok c q' \<and> held_q q = Suc (held_q q')"
  by (auto simp: dequeue_packet_def queue_ok_def split: list.splits delayed_packet.splits)

lemma pull_cond_inv: "pull_cond tm q = Inr (go, q') \<Longrightarrow> queue_ok c q \<Longrightarrow> queue_ok c q' \<and> held_q q' = held_q q"
  by (auto simp: pull_cond_def need_tx_def peek_def queue_ok_def bindR_eq_Inr
      split: if_splits list.splits delayed_packet.splits)

lemma receive_ok_inv:
  assumes "receive inp = Inr (p, inp')" and "link_ok inp"
  shows "packet_ok p \<and> link_ok inp' \<and> length (contents inp) = Suc (length (contents inp'))"
  using receive_inv [OF assms(2,1)] link_okD(5) [OF assms(2), of p] by simp

lemma delay_pull_ledger:
  assumes "delay_pull tm q a s = Inr (q', s')" and "ledger H (b + held_q q) s" and "finite H" and "handles a \<subseteq> H"
    and "queue_ok c q"
  shows "ledger H (b + held_q q') s' \<and> queue_ok c q'"
proof -
  obtain j go q1 go' out w where r: "map_of (app_output a) ''output'' = Some j" "pull_cond tm q = Inr (go, q1)"
    "loopR fst (pull_body tm) (go, q1, io_links s j, io_world s) = Inr (go', q', out, w)"
    "s' = s\<lparr>io_links := (io_links s)(j := out), io_world := w\<rparr>"
    using assms(1) by (auto simp: delay_pull_def pull_loop_def unwrap_eq_Inr bindR_eq_Inr)
  have j: "j \<in> H" using handles_lookup(2) [OF r(1)] assms(4) by blast
  note q1 = pull_cond_inv [OF r(2) assms(5)]
  have inv: "link_ok out \<and> queue_ok c q' \<and>
      pool_ok w (b0 + held_q q' + length (contents out))"
    if "pool_ok (io_world s) (b0 + held_q q1 + length (contents (io_links s j)))" for b0
  proof -
    let ?I = "\<lambda>(go, q, out, w). link_ok out \<and> queue_ok c q \<and> pool_ok w (b0 + held_q q + length (contents out))"
    have "?I (go', q', out, w) \<and> \<not> fst (go', q', out, w)"
    proof (rule loopR_inv [OF r(3)])
      fix x y assume x: "?I x" "fst x" "pull_body tm x = Inr y"
      obtain g q out w where xt: "x = (g, q, out, w)" by (cases x)
      obtain p q2 out2 w2 g3 q3 where f: "dequeue_packet q = Inr (p, q2)" "transmit out p w = Inr (out2, w2)"
        "pull_cond tm q2 = Inr (g3, q3)" "y = (g3, q3, out2, w2)"
        using x(3) by (auto simp: xt pull_body_def bindR_eq_Inr)
      have i: "link_ok out" "queue_ok c q" "pool_ok w (b0 + held_q q + length (contents out))"
        using x(1) by (simp_all add: xt)
      note p = dequeue_packet_inv [OF f(1) i(2)]
      with pull_cond_inv [OF f(3), of c] transmit_inv [OF f(2) i(1), of "b0 + held_q q2"] i(3)
      show "?I y" by (simp add: f(4))
    qed (use that q1 ledger_link [OF assms(2)] in simp)
    then show ?thesis by simp
  qed
  have "pool_ok (io_world s) (b + held_q q1 + (\<Sum>h \<in> H - {j}. length (contents (io_links s h))) + length (contents (io_links s j)))"
    using ledger_take [OF assms(3) j assms(2)] q1 by (simp add: ledger_def ac_simps)
  then have "queue_ok c q'" using inv [of "b + (\<Sum>h \<in> H - {j}. length (contents (io_links s h)))"] by (simp add: ac_simps)
  moreover have "ledger H (b + held_q q') s'"
    unfolding r(4)
  proof (rule ledger_change [OF assms(3) j assms(2)])
    fix k assume "pool_ok (io_world s) (b + held_q q + k + length (contents (io_links s j)))"
    then show "link_ok out \<and> pool_ok w (b + held_q q' + k + length (contents out))"
      using inv [of "b + k"] q1 by (simp add: ac_simps)
  qed
  ultimately show ?thesis by blast
qed

lemma latency_push_ledger:
  assumes "latency_push ms tm q a s = Inr (q', s')" and "ledger H (b + held_q q) s" and "finite H"
    and "handles a \<subseteq> H" and "queue_ok c q"
  shows "ledger H (b + held_q q') s' \<and> queue_ok c q'"
proof -
  obtain i q1 inp where r: "map_of (app_input a) ''input'' = Some i"
    "(if \<not> empty (io_links s i) \<and> \<not> dq_full q then enqueue_delay (tm + unat ms * 1000000) q else Inr q) = Inr q1"
    "latency_enqueue (io_links s i) q1 = Inr (inp, q')" "s' = s\<lparr>io_links := (io_links s)(i := inp)\<rparr>"
    using assms(1) by (auto simp: latency_push_def unwrap_eq_Inr bindR_eq_Inr Let_def)
  have i: "i \<in> H" using handles_lookup(1) [OF r(1)] assms(4) by blast
  have q1: "queue_ok c q1 \<and> held_q q1 = held_q q"
    using r(2) enqueue_delay_inv assms(5) by (auto split: if_splits)
  let ?n = "held_q q + length (contents (io_links s i))"
  let ?I = "\<lambda>(inp, q). link_ok inp \<and> queue_ok c q \<and> held_q q + length (contents inp) = ?n"
  have "?I (inp, q') \<and> \<not> (\<lambda>(inp, q). \<not> empty inp \<and> \<not> dq_full q) (inp, q')"
  proof (rule loopR_inv [OF r(3) [unfolded latency_enqueue_def]])
    fix x y assume x: "?I x" "(\<lambda>(inp, q). \<not> empty inp \<and> \<not> dq_full q) x"
      "(\<lambda>(inp, q). bindR (receive inp) (\<lambda>(p, inp). bindR (enqueue_packet p q) (\<lambda>q. Inr (inp, q)))) x = Inr y"
    obtain inp q where xt: "x = (inp, q)" by (cases x)
    obtain p inp1 q2 where f: "receive inp = Inr (p, inp1)" "enqueue_packet p q = Inr q2" "y = (inp1, q2)"
      using x(3) by (auto simp: xt bindR_eq_Inr)
    with x(1) receive_ok_inv [OF f(1)] enqueue_packet_inv [OF f(2), of c] show "?I y" by (auto simp: xt)
  qed (use q1 ledger_link [OF assms(2)] in simp)
  then have e: "link_ok inp" "queue_ok c q'" "held_q q' + length (contents inp) = ?n" by simp_all
  have "ledger H (b + held_q q') (s\<lparr>io_links := (io_links s)(i := inp), io_world := io_world s\<rparr>)"
  proof (rule ledger_change [OF assms(3) i assms(2)])
    fix k assume k: "pool_ok (io_world s) (b + held_q q + k + length (contents (io_links s i)))"
    have eq: "b + held_q q' + k + length (contents inp) = b + held_q q + k + length (contents (io_links s i))"
      using e(3) by linarith
    show "link_ok inp \<and> pool_ok (io_world s) (b + held_q q' + k + length (contents inp))"
      unfolding eq using k e(1) by simp
  qed
  with e(2) show ?thesis by (simp add: r(4))
qed


text \<open>One round of \<^verbatim>\<open>JitterApp::push\<close>.\<close>

lemma jitter_body_inv:
  assumes "jitter_body us st re tm (inp, out, w, q, rng) = Inr (inp', out', w', q', rng')" and "link_ok inp"
    and "link_ok out" and "queue_ok c q" and "pool_ok w (b + held_q q + length (contents inp) + length (contents out))"
  shows "link_ok inp' \<and> link_ok out' \<and> queue_ok c q' \<and>
    pool_ok w' (b + held_q q' + length (contents inp') + length (contents out'))"
proof -
  obtain d rng0 e rng2 where g: "gen_f64 rng = (d, rng0)" "gen_f64 rng0 = (e, rng2)" by fastforce
  define add where "add \<longleftrightarrow> f64_lt (draw_val d) st"
  obtain q1 rng1 where q1: "(if add then bindR (enqueue_delay (tm + jitter_amount us e * 1000) q) (\<lambda>q. Inr (q, rng2))
        else Inr (q, rng0)) = Inr (q1, rng1)"
    and r: "(if \<not> add \<and> re then
          bindR (receive inp) (\<lambda>(p, inp). bindR (transmit out p w) (\<lambda>(out, w). Inr (inp, out, w, q1, rng1)))
        else if \<not> dq_full q1 then
          bindR (receive inp) (\<lambda>(p, inp). bindR (enqueue_packet p q1) (\<lambda>q. Inr (inp, out, w, q, rng1)))
        else Inr (inp, out, w, q1, rng1)) = Inr (inp', out', w', q', rng')"
    using assms(1) by (auto simp: jitter_body_def g add_def [symmetric] bindR_eq_Inr [of "If _ _ _"] Let_def cong: if_cong)
  have ok: "queue_ok c q1 \<and> held_q q1 = held_q q"
    using q1 enqueue_delay_inv assms(4) by (auto simp: bindR_eq_Inr split: if_splits)
  consider (tx) p where "receive inp = Inr (p, inp')" "transmit out p w = Inr (out', w')" "q' = q1"
    | (enq) p where "receive inp = Inr (p, inp')" "enqueue_packet p q1 = Inr q'" "out' = out" "w' = w"
    | (none) "inp' = inp" "out' = out" "w' = w" "q' = q1"
    using r by (auto simp: bindR_eq_Inr split: if_splits)
  then show ?thesis
  proof cases
    case tx
    then show ?thesis
      using receive_ok_inv [OF tx(1) assms(2)] transmit_inv [OF tx(2) assms(3), of "b + held_q q + length (contents inp')"]
        assms(5) ok by simp
  next
    case enq
    then show ?thesis
      using receive_ok_inv [OF enq(1) assms(2)] enqueue_packet_inv [OF enq(2), of c] assms(3,5) ok by simp
  qed (use ok assms(2,3,5) in simp)
qed

lemma jitter_push_ledger:
  assumes "jitter_push us st re tm q rng a s = Inr (q', rng', s')" and "ledger H (b + held_q q) s" and "finite H"
    and "handles a \<subseteq> H" and "queue_ok c q"
  shows "ledger H (b + held_q q') s' \<and> queue_ok c q'"
proof -
  obtain i j inp out w where r: "borrow_io a = Inr (i, j)"
    "loopR (\<lambda>(inp, out, w, q, rng). \<not> empty inp \<and> \<not> dq_full q) (jitter_body us st re tm)
      (io_links s i, io_links s j, io_world s, q, rng) = Inr (inp, out, w, q', rng')"
    "s' = s\<lparr>io_links := (io_links s)(i := inp, j := out), io_world := w\<rparr>"
    using assms(1) by (auto simp: jitter_push_def bindR_eq_Inr)
  have ij: "i \<in> H" "j \<in> H" "i \<noteq> j" using borrow_io_inv [OF r(1)] assms(4) by auto
  have inv: "link_ok inp \<and> link_ok out \<and> queue_ok c q' \<and>
      pool_ok w (b0 + held_q q' + length (contents inp) + length (contents out))"
    if "pool_ok (io_world s) (b0 + held_q q + length (contents (io_links s i)) + length (contents (io_links s j)))" for b0
  proof -
    let ?I = "\<lambda>(inp, out, w, q, rng). link_ok inp \<and> link_ok out \<and> queue_ok c q \<and>
      pool_ok w (b0 + held_q q + length (contents inp) + length (contents out))"
    have "?I (inp, out, w, q', rng') \<and> \<not> (\<lambda>(inp, out, w, q, rng). \<not> empty inp \<and> \<not> dq_full q) (inp, out, w, q', rng')"
    proof (rule loopR_inv [OF r(2)])
      fix x y assume x: "?I x" "jitter_body us st re tm x = Inr y"
      then show "?I y" using jitter_body_inv [of us st re tm _ _ _ _ _ _ _ _ _ _ c b0] by (cases x; cases y) simp
    qed (use that assms(5) ledger_link [OF assms(2)] in simp)
    then show ?thesis by simp
  qed
  have "queue_ok c q'"
  proof -
    let ?c = "\<Sum>h \<in> H - {i} - {j}. length (contents (io_links s h))"
    have "pool_ok (io_world s) (b + ?c + held_q q + length (contents (io_links s i)) + length (contents (io_links s j)))"
      using ledger_take [of "H - {i}" j, OF _ _ ledger_take [OF assms(3) ij(1) assms(2)]] ij assms(3)
      by (simp add: ledger_def ac_simps)
    with inv show ?thesis by blast
  qed
  moreover have "ledger H (b + held_q q') s'"
    unfolding r(3)
  proof (rule ledger_change2 [OF assms(3) ij assms(2)])
    fix k assume "pool_ok (io_world s) (b + held_q q + k + length (contents (io_links s i)) + length (contents (io_links s j)))"
    then have "pool_ok (io_world s) (b + k + held_q q + length (contents (io_links s i)) + length (contents (io_links s j)))"
      by (simp add: ac_simps)
    from inv [OF this] show "link_ok inp \<and> link_ok out \<and> pool_ok w (b + held_q q' + k + length (contents inp) + length (contents out))"
      by (simp add: ac_simps)
  qed
  ultimately show ?thesis by blast
qed


section \<open>Every callback of every app\<close>

lemma now_keeps [simp]: "sys_io (snd (now s)) = sys_io s"
  by (simp add: now_def instant_now_def split: option.splits)

lemma now_split: "now s = (t, s') \<Longrightarrow> sys_io s' = sys_io s"
  using now_keeps [of s] by simp

text \<open>
  The contract of \<^verbatim>\<open>pull\<close> and \<^verbatim>\<open>push\<close>: the packets on the links of the app and in its queue stay on the ledger, and the app
  stays an instance of its configuration.
\<close>

locale app_callback =
  fixes cb :: "'n os \<Rightarrow> app \<Rightarrow> ports \<Rightarrow> 'n sys \<Rightarrow> (app \<times> 'n sys) res"
  assumes cb_keeps: "cb os x a s = Inr (x', s') \<Longrightarrow> reads_fit os \<Longrightarrow> ledger H (b + app_held x) (sys_io s) \<Longrightarrow> finite H \<Longrightarrow>
    handles a \<subseteq> H \<Longrightarrow> app_ok x \<Longrightarrow> app_matches c x \<Longrightarrow>
    ledger H (b + app_held x') (sys_io s') \<and> app_ok x' \<and> app_matches c x'"

lemma app_ok_queue:
  "app_ok (LatencyApp ms q) \<longleftrightarrow> queue_ok (dq_capacity q) q"
  "app_ok (JitterApp us st re q) \<longleftrightarrow> queue_ok (dq_capacity q) q"
  by (simp_all add: app_ok_def queue_of_def queue_ok_def)

lemma app_held_queue [simp]:
  "app_held (LatencyApp ms q) = held_q q" "app_held (JitterApp us st re q) = held_q q"
  by (simp_all add: queue_of_def)

lemma queue_ok_capacity: "queue_ok c q \<Longrightarrow> queue_ok (dq_capacity q) q \<and> dq_capacity q = c"
  by (simp add: queue_ok_def)

interpretation pullc: app_callback app_pull
proof unfold_locales
  fix os :: "'n os" and x a s x' and s' :: "'n sys" and H b c
  assume h: "app_pull os x a s = Inr (x', s')" "reads_fit os" "ledger H (b + app_held x) (sys_io s)" "finite H"
    "handles a \<subseteq> H" "app_ok x" "app_matches c x"
  have delay: "ledger H (b + held_q q') i \<and> queue_ok (dq_capacity q) q'"
    if "delay_pull t q a (sys_io s) = Inr (q', i)" "app_held x = held_q q" "queue_ok (dq_capacity q) q" for t q q' i
    using delay_pull_ledger [OF that(1) _ h(4,5) that(3)] h(3) that(2) by simp
  show "ledger H (b + app_held x') (sys_io s') \<and> app_ok x' \<and> app_matches c x'"
  proof (cases x)
    case (SourceApp sz)
    then show ?thesis using h by (auto simp: app_pull_def bindR_eq_Inr dest: source_pull_ledger)
  next
    case (RawSocketApp sock)
    then show ?thesis using h by (auto simp: app_pull_def bindR_eq_Inr dest: rawsocket_pull_ledger)
  next
    case (LatencyApp ms q)
    obtain t s1 where t: "now s = (t, s1)" by (cases "now s")
    from h(1) obtain q' i where q': "delay_pull t q a (sys_io s) = Inr (q', i)" "x' = LatencyApp ms q'" "sys_io s' = i"
      by (auto simp: app_pull_def LatencyApp t now_split [OF t] bindR_eq_Inr)
    with delay [OF q'(1)] h(6) have "ledger H (b + held_q q') i" "queue_ok (dq_capacity q) q'"
      by (simp_all add: LatencyApp app_ok_queue)
    with queue_ok_capacity h(7) q' show ?thesis
      by (auto simp: LatencyApp app_ok_queue app_matches_def split: conf.splits)
  next
    case (JitterApp us st re q)
    obtain t s1 where t: "now s = (t, s1)" by (cases "now s")
    from h(1) obtain q' i where q': "delay_pull t q a (sys_io s) = Inr (q', i)" "x' = JitterApp us st re q'" "sys_io s' = i"
      by (auto simp: app_pull_def JitterApp t now_split [OF t] bindR_eq_Inr)
    with delay [OF q'(1)] h(6) have "ledger H (b + held_q q') i" "queue_ok (dq_capacity q) q'"
      by (simp_all add: JitterApp app_ok_queue)
    with queue_ok_capacity h(7) q' show ?thesis
      by (auto simp: JitterApp app_ok_queue app_matches_def split: conf.splits)
  qed (use h(1) in \<open>simp_all add: app_pull_def\<close>)
qed


lemmas push_ledger = sink_push_ledger join_push_ledger tee_push_ledger split_push_ledger rawsocket_push_ledger
  lossc.push_through_ledger ratec.push_through_ledger topc.push_through_ledger checksumc.push_through_ledger
  tsdc.push_through_ledger

lemmas push_through_defs = checksum_push_def tsd_push_def loss_push_def rate_limiter_push_def top_push_def

interpretation pushc: app_callback app_push
proof unfold_locales
  fix os :: "'n os" and x a s x' and s' :: "'n sys" and H b c
  assume h: "app_push os x a s = Inr (x', s')" "reads_fit os" "ledger H (b + app_held x) (sys_io s)" "finite H"
    "handles a \<subseteq> H" "app_ok x" "app_matches c x"
  show "ledger H (b + app_held x') (sys_io s') \<and> app_ok x' \<and> app_matches c x'"
  proof (cases x)
    case (LatencyApp ms q)
    obtain t s1 where t: "now s = (t, s1)" by (cases "now s")
    from h(1) obtain q' i where q': "latency_push ms t q a (sys_io s) = Inr (q', i)" "x' = LatencyApp ms q'" "sys_io s' = i"
      by (auto simp: app_push_def LatencyApp t now_split [OF t] bindR_eq_Inr)
    with latency_push_ledger [OF q'(1) _ h(4,5), of b] h(3,6) have "ledger H (b + held_q q') i" "queue_ok (dq_capacity q) q'"
      by (simp_all add: LatencyApp app_ok_queue)
    with queue_ok_capacity h(7) q' show ?thesis
      by (auto simp: LatencyApp app_ok_queue app_matches_def split: conf.splits)
  next
    case (JitterApp us st re q)
    obtain t s1 where t: "now s = (t, s1)" by (cases "now s")
    from h(1) t obtain q' r i where q': "jitter_push us st re t q (sys_rng s1) a (sys_io s) = Inr (q', r, i)"
      "x' = JitterApp us st re q'" "sys_io s' = i"
      by (auto simp: app_push_def JitterApp now_split [OF t] bindR_eq_Inr)
    with jitter_push_ledger [OF q'(1) _ h(4,5), of b] h(3,6) have "ledger H (b + held_q q') i" "queue_ok (dq_capacity q) q'"
      by (simp_all add: JitterApp app_ok_queue)
    with queue_ok_capacity h(7) q' show ?thesis
      by (auto simp: JitterApp app_ok_queue app_matches_def split: conf.splits)
  next
    case (RateLimiterApp rl)
    obtain t s1 where t: "now s = (t, s1)" by (cases "now s")
    from h(1) obtain bk i where r: "push_through (rate_step (rl_scale rl)) a (replenish rl t (rl_bucket rl)) (sys_io s) = Inr (bk, i)"
      "x' = RateLimiterApp (rl\<lparr>rl_bucket := bk\<rparr>)" "sys_io s' = i"
      by (auto simp: app_push_def RateLimiterApp t now_split [OF t] bindR_eq_Inr rate_limiter_push_def)
    with ratec.push_through_ledger [OF r(1) _ h(4,5), of b] h(3) have "ledger H b i"
      by (simp add: RateLimiterApp queue_of_def)
    with r(2,3) h(7) show ?thesis
      by (cases rl) (auto simp: RateLimiterApp app_ok_def queue_of_def app_matches_def rate_limiter_new_def split: conf.splits)
  qed (use h in \<open>auto simp: app_push_def bindR_eq_Inr push_through_defs dest: push_ledger\<close>)
qed


text \<open>
  C20. Every callback of every app, on any packets and in any state: when \<^verbatim>\<open>pull\<close> or \<^verbatim>\<open>push\<close> returns, each packet that was on the links
  of the app or in its queue is on one of the links, in its queue or on the freelist, packets it made are there too, and the app
  is still an instance of its configuration, with the queue capacity and the rates it was started with.
\<close>

theorem callbacks_conserve:
  assumes "app_pull os x a s = Inr (x', s') \<or> app_push os x a s = Inr (x', s')" and "reads_fit os"
    and "ledger H (b + app_held x) (sys_io s)" and "finite H" and "handles a \<subseteq> H" and "app_ok x" and "app_matches c x"
  shows "ledger H (b + app_held x') (sys_io s') \<and> app_ok x' \<and> app_matches c x'"
  using assms(1) pullc.cb_keeps [OF _ assms(2-7)] pushc.cb_keeps [OF _ assms(2-7)] by blast

lemma demo_reads_fit: "reads_fit demo_os"
  by (auto simp: reads_fit_def demo_os_def split: list.splits prod.splits)

text \<open>A sink with a link from elsewhere.\<close>

theorem callbacks_conserve_witness:
  "\<exists>s'. app_push demo_os SinkApp \<lparr>app_input = [(''input'', 0)], app_output = []\<rparr> demo_sys = Inr (SinkApp, s') \<and>
    ledger {0} 0 (sys_io s')"
proof -
  let ?a = "\<lparr>app_input = [(''input'', 0)], app_output = []\<rparr> :: ports"
  have s: "sink_push ?a (sys_io demo_sys) = Inr (sys_io demo_sys)"
    by (simp add: sink_push_def drain_def demo_sys_def empty_iff [OF new_link_ok] fun_upd_idem)
  then have p: "app_push demo_os SinkApp ?a demo_sys = Inr (SinkApp, demo_sys\<lparr>sys_io := sys_io demo_sys\<rparr>)"
    by (simp add: app_push_def)
  have "ledger {0} (0 + app_held SinkApp) (sys_io demo_sys)" "handles ?a \<subseteq> {0}" "app_ok SinkApp" "app_matches Sink SinkApp"
    by (simp_all add: ledger_def demo_sys_def new_link_ok initial_pool_ok queue_of_def handles_def app_ok_def app_matches_def)
  from callbacks_conserve [OF disjI2 [OF p] demo_reads_fit this(1) _ this(2-4)] p show ?thesis
    by (auto simp: queue_of_def)
qed

end
