(* ===== verification/Reachable.thy ===== *)
theory Reachable
  imports Conservation
begin

text \<open>
  The states an engine gets into: from no network, by configurations, breaths, pauses, and changes of the world outside.
  In all of them the tables are well formed, the links are wired to the ports they name, the breathe order names apps
  that have the callbacks, and every packet in use is on a link or in the queue of an app.
\<close>

section \<open>One app of the table\<close>

lemma sum_list_update:
  "map_of al k = Some v0 \<Longrightarrow> sum_list (map f (AList.update k v al)) + f (k, v0) = sum_list (map f al) + (f (k, v) :: nat)"
  by (induction al) (auto split: if_splits)

lemma links_held_set:
  "distinct (map snd ls) \<Longrightarrow> links_held ls i = (\<Sum>h \<in> snd ` set ls. length (contents (io_links i h)))"
  by (induction ls) (auto simp: links_held_def)

text \<open>The apps of the table are well formed, and instances of their configurations.\<close>

definition apps_ok :: "engine \<Rightarrow> bool" where
  "apps_ok e \<longleftrightarrow> (\<forall>(n, a) \<in> set (app_table e). app_ok (as_app a) \<and> app_matches (as_conf a) (as_app a))"

lemma accounted_ledger:
  assumes "engine_ok e"
  shows "accounted e i \<longleftrightarrow> ledger (snd ` set (link_table e)) (apps_held (apps_view e)) i \<and> apps_ok e"
proof -
  have "distinct (map snd (link_table e))" using assms by (simp add: engine_ok_def tables_ok_def)
  then show ?thesis
    by (auto simp: accounted_def apps_ok_def ledger_def held_def io_ok_def links_held_set apps_view_def ac_simps)
qed

lemma ports_handles:
  assumes "engine_ok e" and "(n, a) \<in> set (app_table e)"
  shows "handles (as_ports a) \<subseteq> snd ` set (link_table e)"
  using assms
  by (fastforce simp: engine_ok_def ports_sound_def handles_def leaves_def enters_def rev_image_eqI)

text \<open>An app of the table is replaced by another with the same ports and configuration.\<close>

abbreviation replace_app :: "string \<Rightarrow> app_state \<Rightarrow> app \<Rightarrow> engine \<Rightarrow> engine" where
  "replace_app n a x e \<equiv> e\<lparr>app_table := AList.update n (a\<lparr>as_app := x\<rparr>) (app_table e)\<rparr>"

lemma replace_app_engine_ok:
  assumes "engine_ok e" and "map_of (app_table e) n = Some a"
  shows "engine_ok (replace_app n a x e)"
proof -
  let ?e = "replace_app n a x e"
  have dist: "distinct (map fst (app_table e))" using assms(1) by (simp add: engine_ok_def tables_ok_def)
  have "tables_ok ?e"
    using assms(1) by (simp add: engine_ok_def tables_ok_def AList.distinct_update)
  moreover have "ports_sound ?e"
    unfolding ports_sound_def
  proof (clarify)
    fix m y assume "(m, y) \<in> set (app_table ?e)"
    then obtain y0 where y0: "(m, y0) \<in> set (app_table e)" "as_ports y = as_ports y0"
      using map_of_SomeD [OF assms(2)] by (auto simp: set_update_distinct [OF dist])
    then show "(\<forall>(p, h) \<in> set (app_output (as_ports y)). leaves ?e m p h) \<and>
        (\<forall>(p, h) \<in> set (app_input (as_ports y)). enters ?e m p h)"
      using assms(1) by (fastforce simp: engine_ok_def ports_sound_def leaves_def enters_def)
  qed
  moreover have "links_connect ?e"
    using assms(1) by (fastforce simp: engine_ok_def links_connect_def update_conv')
  ultimately show ?thesis by (simp add: engine_ok_def)
qed

lemma replace_app_lookup:
  assumes "map_of (app_table e) n = Some a"
  shows "map_option as_conf (map_of (app_table (replace_app n a x e)) m) = map_option as_conf (map_of (app_table e) m)"
    and "port_maps (replace_app n a x e) m = port_maps e m"
  using assms by (simp_all add: update_conv' port_maps_def)

lemma replace_app_wired:
  "map_of (app_table e) n = Some a \<Longrightarrow> wired (replace_app n a x e) specs \<longleftrightarrow> wired e specs"
  by (simp add: wired_def replace_app_lookup)

lemma replace_app_apps_ok:
  assumes "engine_ok e" and "map_of (app_table e) n = Some a" and "apps_ok e" and "app_ok x" and "app_matches (as_conf a) x"
  shows "apps_ok (replace_app n a x e)"
proof -
  have dist: "distinct (map fst (app_table e))" using assms(1) by (simp add: engine_ok_def tables_ok_def)
  show ?thesis using assms(3-5) by (auto simp: apps_ok_def set_update_distinct [OF dist])
qed

lemma replace_app_held:
  assumes "map_of (app_table e) n = Some a"
  shows "apps_held (apps_view (replace_app n a x e)) + app_held (as_app a) = apps_held (apps_view e) + app_held x"
  using sum_list_update [OF assms, of "\<lambda>(_, a). app_held (as_app a)" "a\<lparr>as_app := x\<rparr>"]
  by (simp add: apps_held_def apps_view_def comp_def case_prod_unfold)


section \<open>The invariant of the engine\<close>

definition sound :: "engine \<Rightarrow> io \<Rightarrow> bool" where
  "sound e i \<longleftrightarrow> engine_ok e \<and> accounted e i \<and> wired e (map fst (link_table e)) \<and>
     distinct (inhale e) \<and> (\<forall>n \<in> set (inhale e). pulls_app e n) \<and>
     distinct (exhale e) \<and> (\<forall>n \<in> set (exhale e). pushes_app e n)"

text \<open>What callbacks leave as it is.\<close>

definition same_network :: "engine \<Rightarrow> engine \<Rightarrow> bool" where
  "same_network e e' \<longleftrightarrow> link_table e' = link_table e \<and> next_link e' = next_link e \<and> inhale e' = inhale e \<and>
     exhale e' = exhale e \<and> (\<forall>n. port_maps e' n = port_maps e n) \<and>
     (\<forall>n. map_option as_conf (map_of (app_table e') n) = map_option as_conf (map_of (app_table e) n))"

lemma same_network_refl: "same_network e e"
  by (simp add: same_network_def)

lemma same_network_trans: "same_network e e1 \<Longrightarrow> same_network e1 e2 \<Longrightarrow> same_network e e2"
  by (simp add: same_network_def)

lemma app_matches_callbacks:
  assumes "app_matches c x"
  shows "has_pull x \<longleftrightarrow> (case c of Source _ \<Rightarrow> True | RawSocket _ \<Rightarrow> True | Latency _ _ \<Rightarrow> True | Jitter _ _ _ _ \<Rightarrow> True | _ \<Rightarrow> False)"
    and "has_push x \<longleftrightarrow> (case c of Source _ \<Rightarrow> False | _ \<Rightarrow> True)"
  using assms by (cases c; simp add: app_matches_def has_pull_def has_push_def split: app.splits)+

lemma replace_app_callbacks:
  assumes "map_of (app_table e) n = Some a" and "app_matches c (as_app a)" and "app_matches c x"
  shows "pulls_app (replace_app n a x e) m \<longleftrightarrow> pulls_app e m" "pushes_app (replace_app n a x e) m \<longleftrightarrow> pushes_app e m"
  using assms(1) app_matches_callbacks [OF assms(2)] app_matches_callbacks [OF assms(3)] by (auto simp: pulls_app_def pushes_app_def update_conv')

context app_callback
begin

lemma callback_keeps:
  assumes "callback (cb os) n (e, s) = Inr (e', s')" and "reads_fit os" and "sound e (sys_io s)"
  shows "sound e' (sys_io s') \<and> same_network e e'"
proof -
  have ok: "engine_ok e" "accounted e (sys_io s)" using assms(3) by (simp_all add: sound_def)
  obtain a x where a: "map_of (app_table e) n = Some a" "cb os (as_app a) (as_ports a) s = Inr (x, s')"
    "e' = replace_app n a x e"
    using assms(1) by (auto simp: callback_def bindR_eq_Inr unwrap_eq_Inr)
  let ?H = "snd ` set (link_table e)"
  have led: "ledger ?H (apps_held (apps_view e)) (sys_io s)" "apps_ok e"
    using accounted_ledger [OF ok(1)] ok(2) by blast+
  have "app_held (as_app a) \<le> apps_held (apps_view e)"
    using replace_app_held [OF a(1), of SinkApp] by (simp add: queue_of_def)
  then obtain b where b: "apps_held (apps_view e) = b + app_held (as_app a)" by (metis le_add_diff_inverse2)
  have app: "app_ok (as_app a)" "app_matches (as_conf a) (as_app a)"
    using led(2) map_of_SomeD [OF a(1)] by (auto simp: apps_ok_def)
  have k: "ledger ?H (b + app_held x) (sys_io s')" "app_ok x" "app_matches (as_conf a) x"
    using cb_keeps [OF a(2) assms(2) led(1) [unfolded b] _ ports_handles [OF ok(1) map_of_SomeD [OF a(1)]] app] by auto
  have ok': "engine_ok e'" using replace_app_engine_ok [OF ok(1) a(1)] by (simp add: a(3))
  have "apps_held (apps_view e') = b + app_held x" using replace_app_held [OF a(1), of x] b by (simp add: a(3))
  with k(1) replace_app_apps_ok [OF ok(1) a(1) led(2) k(2,3)] have "accounted e' (sys_io s')"
    unfolding accounted_ledger [OF ok'] by (simp add: a(3))
  moreover have "same_network e e'" 
    by (simp add: same_network_def a(3) replace_app_lookup(2) [OF a(1)] update_conv' a(1))
  ultimately show ?thesis
    using ok' assms(3) replace_app_wired [OF a(1)] replace_app_callbacks [OF a(1) app(2) k(3)]
    by (simp add: sound_def a(3))
qed

lemma callbacks_keep:
  assumes "foldR (callback (cb os)) ns (e, s) = Inr (e', s')" and "reads_fit os" and "sound e (sys_io s)"
  shows "sound e' (sys_io s') \<and> same_network e e'"
proof -
  let ?P = "\<lambda>(e', s'). sound e' (sys_io s') \<and> same_network e e'"
  have "?P (e', s')"
  proof (rule foldR_inv [OF assms(1), where P = ?P])
    fix n x y assume "?P x" "callback (cb os) n x = Inr y"
    then show "?P y" using callback_keeps [OF _ assms(2)] same_network_trans by (cases x; cases y) blast
  qed (simp add: assms(3) same_network_refl)
  then show ?thesis by simp
qed

end

lemma add_breath_keeps: "sound e (sys_io (add_breath s)) \<longleftrightarrow> sound e (sys_io s)"
  by (simp add: sound_def accounted_def add_breath_def Let_def io_ok_def held_def links_held_def pool_ok_def)

lemma breathe_keeps:
  assumes "breathe os (e, s) = Inr (e', s')" and "reads_fit os" and "sound e (sys_io s)"
  shows "sound e' (sys_io s') \<and> same_network e e'"
proof -
  let ?s = "snd (instant_now s)\<lparr>MONOTONIC_NOW := Some (fst (instant_now s))\<rparr>"
  obtain e1 s1 s2 where r: "foldR (callback (app_pull os)) (inhale e) (e, ?s) = Inr (e1, s1)"
    "foldR (callback (app_push os)) (exhale e1) (e1, s1) = Inr (e', s2)" "s' = add_breath s2"
    using assms(1) by (auto simp: breathe_def Let_def case_prod_unfold bindR_eq_Inr)
  have "sound e (sys_io ?s)" using assms(3) by (simp add: instant_now_def)
  from pullc.callbacks_keep [OF r(1) assms(2) this] pushc.callbacks_keep [OF r(2) assms(2)] add_breath_keeps
    same_network_trans
  show ?thesis unfolding r(3) by blast
qed


section \<open>Reachable states\<close>

text \<open>
  \<open>outside\<close> is everything that does not touch links and packets: frames that arrive, the clock, other
  programs, and the predicate \<^verbatim>\<open>done\<close>. The order in which hash maps are iterated may differ from one
  configuration to the next.
\<close>

inductive reachable :: "'n os \<Rightarrow> engine \<times> 'n sys \<Rightarrow> bool" for os where
  start: "io_ok (sys_io s) 0 \<Longrightarrow> reachable os (initial_engine, s)"
| configured: "reachable os (e, s) \<Longrightarrow> config_ok c \<Longrightarrow> can_start os c \<Longrightarrow> hash_order ho \<Longrightarrow>
    configure os ho c (e, s) = Inr st \<Longrightarrow> reachable os st"
| breathed: "reachable os (e, s) \<Longrightarrow> breathe os (e, s) = Inr st \<Longrightarrow> reachable os st"
| paced: "reachable os (e, s) \<Longrightarrow> pace_breathing s = (s', pause) \<Longrightarrow> reachable os (e, s')"
| outside: "reachable os (e, s) \<Longrightarrow> sys_io s' = sys_io s \<Longrightarrow> reachable os (e, s')"

inductive_cases reachable_cases: "reachable os st"

lemma pace_breathing_io: "pace_breathing s = (s', pause) \<Longrightarrow> sys_io s' = sys_io s"
  by (auto simp: pace_breathing_def Let_def split: if_splits)

lemma configure_sound:
  assumes "sound e (sys_io s)" and "config_ok c" and "can_start os c" and "hash_order ho"
    and "configure os ho c (e, s) = Inr (e', s')"
  shows "sound e' (sys_io s')"
proof -
  have ok: "engine_ok e" "accounted e (sys_io s)" using assms(1) by (simp_all add: sound_def)
  from configure_ok [OF ok assms(2-4)] assms(5) have c: "engine_ok e'" "accounted e' (sys_io s')" "wired e' (cfg_links c)"
    "fst ` set (link_table e') = set (cfg_links c)" "compute_breathe_order ho e' = Inr e'"
    by auto
  have t: "links_connect e'" "distinct (map fst (app_table e'))" using c(1) by (simp_all add: engine_ok_def tables_ok_def)
  have "wired e' (map fst (link_table e'))" using c(3,4) by (simp add: wired_def)
  with c compute_breathe_order_ok [OF t(1) assms(4) t(2)] show ?thesis
    by (auto simp: sound_def dest: downstream_pushes)
qed

lemma reachable_sound:
  assumes "reachable os st" and "reads_fit os"
  shows "sound (fst st) (sys_io (snd st))"
  using assms(1)
proof (induction rule: reachable.induct)
  case (start s)
  then show ?case
    by (simp add: sound_def wired_def engine_ok_def tables_ok_def ports_sound_def links_connect_def initial_engine_def accounted_def
        held_def links_held_def apps_held_def apps_view_def)
next
  case (configured e s c ho st)
  then show ?case using configure_sound [of e s c os ho] by (cases st) simp
next
  case (breathed e s st)
  then show ?case using breathe_keeps [of os e s, OF _ assms(2)] by (cases st) simp
qed (simp_all add: pace_breathing_io)

text \<open>\<^verbatim>\<open>main\<close> takes reachable states to reachable states.\<close>

lemma breathe_until_reachable:
  assumes "breathe_until os stop d (e, s) = Inr (e', s')" and "reachable os (e, s)"
    and "\<forall>f s. stop = Some f \<longrightarrow> sys_io (snd (f s)) = sys_io s"
  shows "reachable os (e', s')"
proof -
  obtain stop1 s1 where st: "sys_io s1 = sys_io s" "\<forall>f s. stop1 = Some f \<longrightarrow> sys_io (snd (f s)) = sys_io s" and
    r: "(let check = (\<lambda>s. case stop1 of None \<Rightarrow> (True, s) | Some f \<Rightarrow> let (b, s) = f s in (\<not> b, s)) in
     bindR (breathe os (e, s1)) (\<lambda>(e, s).
     let (go, s) = check s in
     bindR (loopR fst (\<lambda>(_, e, s).
              let (s, _) = pace_breathing s in
              bindR (breathe os (e, s)) (\<lambda>(e, s).
              let (go, s) = check s in Inr (go, e, s))) (go, e, s)) (\<lambda>(_, e, s).
     Inr (e, s)))) = Inr (e', s')"
  proof (cases d)
    case None
    with assms(1,3) that [of s stop] show ?thesis by (auto simp: breathe_until_def)
  next
    case (Some t)
    obtain dl s1 where s1: "timeout t s = (dl, s1)" by (cases "timeout t s")
    have "stop = None" using assms(1) Some by (cases stop) (simp_all add: breathe_until_def)
    moreover have "sys_io s1 = sys_io s" using s1 now_split by (auto simp: timeout_def Let_def split: prod.splits)
    moreover have "sys_io (snd (timeout_done dl s)) = sys_io s" for s :: "'a sys"
      using now_split by (auto simp: timeout_done_def Let_def split: prod.splits)
    ultimately show ?thesis using that [of s1 "Some (timeout_done dl)"] assms(1) Some s1
      by (auto simp: breathe_until_def Let_def)
  qed
  define check where "check = (\<lambda>s. case stop1 of None \<Rightarrow> (True, s) | Some f \<Rightarrow> let (b, s) = f s in (\<not> b, s))"
  have check: "sys_io s' = sys_io s" if "check s = (go, s')" for s go s'
  proof (cases stop1)
    case (Some f)
    then show ?thesis using that st(2) [rule_format, of f s] by (simp add: check_def Let_def case_prod_unfold)
  qed (use that in \<open>simp add: check_def\<close>)
  let ?body = "\<lambda>(_, e, s). let (s, _) = pace_breathing s in
     bindR (breathe os (e, s)) (\<lambda>(e, s). let (go, s) = check s in Inr (go, e, s))"
  let ?I = "\<lambda>(go, st). reachable os st"
  have start: "reachable os (e, s1)" by (rule reachable.outside [OF assms(2) st(1)])
  obtain e2 s2 where b: "breathe os (e, s1) = Inr (e2, s2)" using r by (auto simp: bindR_eq_Inr)
  obtain go s3 where c: "check s2 = (go, s3)" by (cases "check s2")
  obtain go4 where l: "loopR fst ?body (go, e2, s3) = Inr (go4, e', s')"
    using r b c unfolding check_def [symmetric] Let_def [of check] by (auto simp: bindR_eq_Inr)
  have "?I (go4, e', s') \<and> \<not> fst (go4, e', s')"
  proof (rule loopR_inv [OF l])
    show "?I (go, e2, s3)"
      using reachable.outside [OF reachable.breathed [OF start b] check [OF c]] by simp
    fix x y assume x: "?I x" "?body x = Inr y"
    obtain b e s where xt: "x = (b, e, s)" by (cases x)
    obtain s1 pause where p: "pace_breathing s = (s1, pause)" by (cases "pace_breathing s")
    obtain e2 s2 where b: "breathe os (e, s1) = Inr (e2, s2)" using x(2) by (auto simp: xt p bindR_eq_Inr)
    obtain go s3 where c: "check s2 = (go, s3)" by (cases "check s2")
    have y: "y = (go, e2, s3)" using x(2) by (simp add: xt p b c)
    have "reachable os (e, s1)" using reachable.paced [OF _ p] x(1) by (simp add: xt)
    from reachable.outside [OF reachable.breathed [OF this b] check [OF c]] show "?I y" by (simp add: y)
  qed
  then show ?thesis by simp
qed


lemma report_load_io: "report_load l s = (line, l', s') \<Longrightarrow> sys_io s' = sys_io s"
  using now_keeps by (auto simp: report_load_def Let_def case_prod_unfold split: option.splits)

lemma reports_io: "reports opts e (l, s) = Inr (out, l', s') \<Longrightarrow> sys_io s' = sys_io s"
  by (cases "report_load l s") (auto simp: reports_def bindR_eq_Inr report_load_io split: if_splits)

lemma engine_main_reachable:
  assumes "engine_main os (Some opts) (l, e, s) = Inr (out, l', e', s')" and "reachable os (e, s)"
    and "\<forall>f s. opt_done opts = Some f \<longrightarrow> sys_io (snd (f s)) = sys_io s"
  shows "reachable os (e', s')"
proof -
  obtain e1 s1 l1 s2 where r: "breathe_until os (opt_done opts) (opt_duration opts) (e, s) = Inr (e', s1)"
    "reports opts e' (l, s1) = Inr (out, l', s2)" "s' = s2\<lparr>MONOTONIC_NOW := None\<rparr>"
    using assms(1) by (auto simp: engine_main_def bindR_eq_Inr)
  have "reachable os (e', s1)" by (rule breathe_until_reachable [OF r(1) assms(2,3)])
  then show ?thesis by (rule reachable.outside) (simp add: r(3) reports_io [OF r(2)])
qed

section \<open>What holds in every state of the engine\<close>

text \<open>
  C1. Whatever configurations are applied and however the network breathes in between, and whatever arrives from outside:
  both ends of every link of the table refer to that link and no port refers to any other, every app is an instance of its
  configuration, the breathe order names each callback at most once and only apps of the table that have it, and no packet is
  ever lost or in two places: the packets in use are exactly those on the links of the table and in the delay
  queues, all others are on the freelist, and there are never more than 511,000.
\<close>

theorem reachable_accounted:
  assumes "reachable os (e, s)" and "reads_fit os"
  shows "engine_ok e \<and> wired e (map fst (link_table e)) \<and>
    (\<forall>(n, a) \<in> set (app_table e). app_matches (as_conf a) (as_app a)) \<and>
    distinct (inhale e) \<and> (\<forall>n \<in> set (inhale e). pulls_app e n) \<and>
    distinct (exhale e) \<and> (\<forall>n \<in> set (exhale e). pushes_app e n) \<and>
    (\<forall>h. link_ok (io_links (sys_io s) h)) \<and>
    held e (sys_io s) + length (FL (io_world (sys_io s))) = PACKETS_ALLOCATED (io_world (sys_io s)) \<and>
    PACKETS_ALLOCATED (io_world (sys_io s)) \<le> 511000"
proof -
  have s: "sound e (sys_io s)" using reachable_sound [OF assms] by simp
  then have "pool_ok (io_world (sys_io s)) (held e (sys_io s))" by (simp add: sound_def accounted_def io_ok_def)
  then have "held e (sys_io s) + length (FL (io_world (sys_io s))) = PACKETS_ALLOCATED (io_world (sys_io s))"
    and "PACKETS_ALLOCATED (io_world (sys_io s)) \<le> 511000"
    using pool_ok_n_le [of "io_world (sys_io s)\<lparr>FL := []\<rparr>" "PACKETS_ALLOCATED (io_world (sys_io s))"]
    by (auto simp: pool_ok_def pool_max_def)
  with s show ?thesis by (auto simp: sound_def accounted_def io_ok_def apps_view_def)
qed

theorem reachable_accounted_witness:
  "\<exists>e s. configure demo_os (\<lambda>_ xs. xs) (demo_config 60) (initial_engine, demo_sys) = Inr (e, s) \<and>
    wired e (map fst (link_table e)) \<and> held e (sys_io s) + length (FL (io_world (sys_io s))) = PACKETS_ALLOCATED (io_world (sys_io s))"
proof -
  obtain e s where c: "configure demo_os (\<lambda>_ xs. xs) (demo_config 60) (initial_engine, demo_sys) = Inr (e, s)"
    using configure_ok [OF demo_start(1,2) demo_start(3,4) [of 60] demo_start(5)] by blast
  have "reachable demo_os (initial_engine, demo_sys)"
    by (rule reachable.start) (simp add: io_ok_def demo_sys_def new_link_ok initial_pool_ok)
  from reachable.configured [OF this demo_start(3,4) [of 60] demo_start(5) c]
  show ?thesis using reachable_accounted [OF _ demo_reads_fit] c by blast
qed

end
