(* ===== verification/Segmentation.thy ===== *)
theory Segmentation
  imports Offload
begin

text \<open>
  What the segmentation of \<^verbatim>\<open>rush/src/offload.rs\<close> (\<^verbatim>\<open>forward_tcp_segments\<close>, the app \<^verbatim>\<open>TSD\<close>) does: the frames
  that its loop sends, the headers they carry, and that the app \<^verbatim>\<open>Checksum\<close> completes them. A packet
  that is sent is compared by its bytes on the wire, \<open>frame\<close>, because the memory beyond its length
  holds what an earlier use of the packet left there.
\<close>

section \<open>The loop\<close>

declare length_contents [simp del] take_append [simp del]

definition hdr_data :: "u8 list \<Rightarrow> ipv4 \<Rightarrow> tcp \<Rightarrow> u8 list" where
  "hdr_data D ip tcp = put_tcp (put_ip D ip) tcp"

lemma hdr_data_simps:
  assumes "length D = PAYLOAD_SIZE"
  shows "length (hdr_data D ip tcp) = PAYLOAD_SIZE"
    "ip_of (hdr_data D ip tcp) = ip" "tcp_of (hdr_data D ip tcp) = tcp"
    "eth_of (hdr_data D ip tcp) = eth_of D"
    "put_ip (hdr_data D ip tcp) ip' = hdr_data D ip' tcp"
    "put_tcp (hdr_data D ip tcp) tcp' = hdr_data D ip tcp'"
    "54 \<le> i \<Longrightarrow> drop i (hdr_data D ip tcp) = drop i D"
    "hdr_data D (ip_of D) (tcp_of D) = D"
proof -
  have r: "ethernet_size + ipv4_size \<le> length D" "proto_ofs + tcp_size \<le> length D"
    using assms by (simp_all add: PAYLOAD_SIZE_def header_sizes)
  have l: "length (put_ip D ip) = length D" using r(1) by (simp add: iph.length_put)
  show "length (hdr_data D ip tcp) = PAYLOAD_SIZE"
    using r(2) assms by (simp add: hdr_data_def tcph.length_put l)
  show "tcp_of (hdr_data D ip tcp) = tcp"
    using r(2) by (simp add: hdr_data_def tcph.get_put l)
  show "ip_of (hdr_data D ip tcp) = ip"
    using r by (simp add: hdr_data_def header_ref_put_before l proto_ofs_def iph.get_put)
  show "eth_of (hdr_data D ip tcp) = eth_of D"
    using r by (simp add: hdr_data_def header_ref_put_before l proto_ofs_def)
  show "put_tcp (hdr_data D ip tcp) tcp' = hdr_data D ip tcp'"
    using r(2) by (simp add: hdr_data_def tcph.put_put l)
  show "put_ip (hdr_data D ip tcp) ip' = hdr_data D ip' tcp"
    using assms by (simp add: hdr_data_def header_put_def PAYLOAD_SIZE_def header_sizes take_append ipv4_size_def)
  have o: "54 = proto_ofs + tcp_size" "proto_ofs + tcp_size \<le> i \<Longrightarrow> ethernet_size + ipv4_size \<le> i"
    by (simp_all add: header_sizes)
  show "54 \<le> i \<Longrightarrow> drop i (hdr_data D ip tcp) = drop i D"
    using r unfolding o(1) by (simp add: hdr_data_def tcph.drop_put_after iph.drop_put_after l o(2))
  have "tcp_of D = tcp_of (put_ip D (ip_of D))" using r(1) by (simp add: iph.put_get)
  then show "hdr_data D (ip_of D) (tcp_of D) = D"
    using r by (simp add: hdr_data_def iph.put_get tcph.put_get)
qed

text \<open>The headers of a segment that carries \<open>slen\<close> bytes of payload, \<open>q\<close> bytes into it.\<close>

definition seg_ip :: "nat \<Rightarrow> nat \<Rightarrow> ipv4 \<Rightarrow> ipv4" where
  "seg_ip po slen ip =
     (let ip = set_total_length (of_nat (po + slen) - of_nat ethernet_size) ip
      in ip_set_checksum (htons (rfc1071 (ipv4_bytes (ip_set_checksum 0 ip)) 0)) ip)"

definition seg_tcp :: "nat \<Rightarrow> nat \<Rightarrow> ipv4 \<Rightarrow> tcp \<Rightarrow> tcp" where
  "seg_tcp po slen ip tcp =
     tcp_set_checksum (htons (NOT (rfc1071 (pseudo_header ip PROTOCOL_TCP
       (of_nat (po + slen) - of_nat proto_ofs)) 0))) tcp"

lemma segment_step_eq:
  fixes out :: link and mss :: u16
  assumes D: "length D = PAYLOAD_SIZE" "p_data p = hdr_data D ip tcp"
    and po: "54 \<le> po" "po \<le> data_ofs" "data_ofs + data_length \<le> 65535"
    and pool: "pool_ok w n" "n < pool_max"
  defines "slen \<equiv> min (unat mss) data_length"
  defines "tcp' \<equiv> seg_tcp po slen ip tcp"
  shows "\<exists>s w1. packet_ok s \<and> pool_ok w1 (Suc n) \<and>
    frame s = take po (hdr_data D (seg_ip po slen ip) tcp') @ take slen (drop data_ofs D) \<and>
    segment_step mss po (p, out, w, data_ofs, data_length) =
      bindR (transmit out s w1) (\<lambda>(out, w).
        Inr (p\<lparr>p_data := hdr_data D (seg_ip po slen ip) (set_seq (seq tcp' + of_nat slen) tcp')\<rparr>,
          out, w, data_ofs + slen, data_length - slen))"
proof -
  obtain s0 w1 where s0: "allocate w = Inr (s0, w1)" "packet_ok s0" "pool_ok w1 (Suc n)"
    using allocate_ok [OF pool] by blast
  have slen: "slen \<le> data_length" by (simp add: slen_def)
  then have lt: "po + slen \<le> 65535" using po by linarith
  let ?H = "hdr_data D (seg_ip po slen ip) tcp'"
  have lH: "length ?H = 65535" using hdr_data_simps(1) [OF D(1)] by (simp add: PAYLOAD_SIZE_def)
  have ls: "length (p_data s0) = 65535" using s0(2) by (simp add: packet_ok_def PAYLOAD_SIZE_def)
  define sd where "sd = copy (p_data s0) (take po ?H) po"
  have lsd: "length sd = 65535" by (simp add: sd_def ls)
  have tsd: "take po sd = take po ?H"
    using lH ls lt by (simp add: sd_def take_copy)
  define s where "s = s0\<lparr>p_length := of_nat (po + slen),
    p_data := take po sd @ copy (drop po sd) (drop data_ofs ?H) slen\<rparr>"
  have dH: "drop data_ofs ?H = drop data_ofs D"
    using po by (intro hdr_data_simps(7) [OF D(1)]) simp
  have "packet_ok s"
    using lt lsd by (simp add: s_def packet_ok_def PAYLOAD_SIZE_def)
  moreover have "frame s = take po ?H @ take slen (drop data_ofs D)"
  proof -
    have "unat (of_nat (po + slen) :: u16) = po + slen"
      using lt by (intro unat_of_nat_small) simp
    moreover have "take slen (copy (drop po sd) (drop data_ofs D) slen) = take slen (drop data_ofs D)"
      using lt lsd D(1) po(3) slen by (intro take_copy) (simp_all add: PAYLOAD_SIZE_def)
    ultimately show ?thesis
      using lt lsd tsd lH by (simp add: frame_def s_def dH take_append)
  qed
  moreover have "segment_step mss po (p, out, w, data_ofs, data_length) =
      bindR (transmit out s w1) (\<lambda>(out, w).
        Inr (p\<lparr>p_data := hdr_data D (seg_ip po slen ip) (set_seq (seq tcp' + of_nat slen) tcp')\<rparr>,
          out, w, data_ofs + slen, data_length - slen))"
  proof -
    let ?ip = "set_total_length (of_nat (po + slen) - of_nat ethernet_size) ip"
    have ip: "ip_checksum_compute ?ip = Inr (seg_ip po slen ip)"
      by (simp add: ip_checksum_compute_eq seg_ip_def Let_def)
    have pc: "pseudo_checksum (seg_ip po slen ip) PROTOCOL_TCP (of_nat (po + slen) - of_nat proto_ofs) =
        Inr (rfc1071 (pseudo_header ip PROTOCOL_TCP (of_nat (po + slen) - of_nat proto_ofs)) 0)"
      by (simp add: pseudo_checksum_eq seg_ip_def Let_def)
    have c: "(PAYLOAD_SIZE < po) = False" "slice_from sd po = Inr (drop po sd)"
        "slice_from ?H data_ofs = Inr (drop data_ofs ?H)"
      using lt lH lsd po(3) by (simp_all add: slice_from_def PAYLOAD_SIZE_def)
    have t: "tcp_set_checksum (htons (NOT (rfc1071 (pseudo_header ip PROTOCOL_TCP
        (of_nat (po + slen) - of_nat proto_ofs)) 0))) tcp = tcp'"
      by (simp add: tcp'_def seg_tcp_def)
    show ?thesis
      unfolding segment_step_def Let_def slen_def [symmetric] prod.case s0(1) bindR_simps D(2)
      by (simp add: ip pc t c hdr_data_simps [OF D(1)] sd_def [symmetric] s_def
          del: of_nat_add seq_set)
  qed
  ultimately show ?thesis using s0(3) by blast
qed

text \<open>The frames that the loop sends, for a payload of \<open>n\<close> bytes at \<open>data_ofs\<close>.\<close>

function segment_frames :: "nat \<Rightarrow> u8 list \<Rightarrow> nat \<Rightarrow> nat \<Rightarrow> nat \<Rightarrow> u8 list list" where
  "segment_frames mss D po data_ofs n =
     (if n = 0 \<or> mss = 0 then []
      else
        let slen = min mss n;
            tcp = set_seq (seq (tcp_of D) + of_nat (data_ofs - po)) (tcp_of D)
        in (take po (hdr_data D (seg_ip po slen (ip_of D)) (seg_tcp po slen (ip_of D) tcp)) @
            take slen (drop data_ofs D)) #
           segment_frames mss D po (data_ofs + slen) (n - slen))"
  by pat_completeness auto
termination by (relation "measure (\<lambda>(_, _, _, _, n). n)") auto

declare segment_frames.simps [simp del]

text \<open>The header fields that the loop has changed so far.\<close>

definition loop_headers :: "u8 list \<Rightarrow> nat \<Rightarrow> nat \<Rightarrow> ipv4 \<Rightarrow> tcp \<Rightarrow> bool" where
  "loop_headers D po data_ofs ip tcp \<longleftrightarrow>
     (\<exists>l c. ip = ip_set_checksum c (set_total_length l (ip_of D))) \<and>
     (\<exists>c. tcp = set_seq (seq (tcp_of D) + of_nat (data_ofs - po)) (tcp_set_checksum c (tcp_of D)))"

lemma loop_headers_start: "loop_headers D po po (ip_of D) (tcp_of D)"
proof -
  have "ip_of D = ip_set_checksum (ip_checksum (ip_of D)) (set_total_length (total_length (ip_of D)) (ip_of D))"
    by (simp add: ip_set_checksum_def set_total_length_def total_length_def)
  moreover have "tcp_of D = set_seq (seq (tcp_of D) + of_nat (po - po))
      (tcp_set_checksum (tcp_checksum (tcp_of D)) (tcp_of D))"
    by (simp add: set_seq_def seq_def tcp_set_checksum_def)
  ultimately show ?thesis unfolding loop_headers_def by blast
qed

lemma loop_headers_segment:
  assumes "loop_headers D po data_ofs ip tcp"
  shows "seg_ip po slen ip = seg_ip po slen (ip_of D)"
    and "seg_tcp po slen ip tcp =
      seg_tcp po slen (ip_of D) (set_seq (seq (tcp_of D) + of_nat (data_ofs - po)) (tcp_of D))"
  using assms
  by (auto simp: loop_headers_def seg_ip_def seg_tcp_def Let_def)
    (simp_all add: ip_set_checksum_def set_total_length_def tcp_set_checksum_def set_seq_def)

lemma loop_headers_next:
  fixes D :: "u8 list"
  assumes "po \<le> data_ofs"
  defines "tcp \<equiv> set_seq (seq (tcp_of D) + of_nat (data_ofs - po)) (tcp_of D)"
  shows "loop_headers D po (data_ofs + slen) (seg_ip po slen (ip_of D))
    (set_seq (seq (seg_tcp po slen (ip_of D) tcp) + of_nat slen) (seg_tcp po slen (ip_of D) tcp))"
proof -
  have "data_ofs + slen - po = (data_ofs - po) + slen" using assms(1) by simp
  then have "set_seq (seq (seg_tcp po slen (ip_of D) tcp) + of_nat slen) (seg_tcp po slen (ip_of D) tcp) =
    set_seq (seq (tcp_of D) + of_nat (data_ofs + slen - po)) (tcp_set_checksum
      (tcp_checksum (seg_tcp po slen (ip_of D) tcp)) (tcp_of D))"
    by (simp add: seg_tcp_def tcp_def add.assoc) (simp add: tcp_set_checksum_def set_seq_def)
  then show ?thesis
    unfolding loop_headers_def seg_ip_def Let_def by blast
qed

lemma segment_loop_ok:
  fixes mss :: u16
  assumes "length D = PAYLOAD_SIZE" and "p_data p = hdr_data D ip tcp"
    and "loop_headers D po data_ofs ip tcp"
    and "54 \<le> po" "po \<le> data_ofs" "data_ofs + n \<le> 65535" and "0 < mss"
    and "link_ok out" and "pool_ok w m"
    and "m + (LINK_MAX_PACKETS - length (contents out)) < pool_max"
  shows "\<exists>p' out' w' m' ofs. loopR (\<lambda>(p, out, w, data_ofs, data_length). 0 < data_length) (segment_step mss po)
      (p, out, w, data_ofs, n) = Inr (p', out', w', ofs, 0) \<and>
    packet_ok p' \<and> link_ok out' \<and>
    map frame (contents out') =
      take LINK_MAX_PACKETS (map frame (contents out) @ segment_frames (unat mss) D po data_ofs n) \<and>
    pool_ok w' m' \<and> m' + length (contents out) = m + length (contents out')"
  using assms
proof (induction n arbitrary: p ip tcp data_ofs out w m rule: less_induct)
  case (less n)
  show ?case
  proof (cases "n = 0")
    case True
    have "packet_ok p" using less.prems(1,2) by (simp add: packet_ok_def hdr_data_simps)
    with True show ?thesis
      using less.prems contents_bound [OF less.prems(8)]
      by (auto simp: segment_frames.simps [of _ _ _ _ 0])
  next
    case False
    define slen where "slen = min (unat mss) n"
    have mss: "0 < unat mss" using less.prems(7) by (simp add: unat_gt_0)
    then have slen: "0 < slen" "slen \<le> n" using False by (auto simp: slen_def)
    let ?ip = "ip_of D" and ?tcp = "set_seq (seq (tcp_of D) + of_nat (data_ofs - po)) (tcp_of D)"
    let ?tcp' = "seg_tcp po slen ?ip ?tcp"
    have m: "m < pool_max" using less.prems(10) by simp
    from segment_step_eq [OF less.prems(1,2,4,5,6,9) m, of mss out, folded slen_def,
        unfolded loop_headers_segment [OF less.prems(3)]]
    obtain s w1 where s: "packet_ok s" "pool_ok w1 (Suc m)"
      "frame s = take po (hdr_data D (seg_ip po slen ?ip) ?tcp') @ take slen (drop data_ofs D)"
      "segment_step mss po (p, out, w, data_ofs, n) = bindR (transmit out s w1) (\<lambda>(out, w).
        Inr (p\<lparr>p_data := hdr_data D (seg_ip po slen ?ip) (set_seq (seq ?tcp' + of_nat slen) ?tcp')\<rparr>,
          out, w, data_ofs + slen, n - slen))"
      by blast
    from ch.send_ok [OF less.prems(8) s(1,2)] obtain out1 w2 m2 where
      t: "transmit out s w1 = Inr (out1, w2)" "link_ok out1"
         "contents out1 = take LINK_MAX_PACKETS (contents out @ [s])" "pool_ok w2 m2"
         "m2 + length (contents out) + 1 = Suc m + length (contents out1)"
      by blast
    let ?p = "p\<lparr>p_data := hdr_data D (seg_ip po slen ?ip) (set_seq (seq ?tcp' + of_nat slen) ?tcp')\<rparr>"
    have grow: "length (contents out) \<le> length (contents out1)" "length (contents out1) \<le> LINK_MAX_PACKETS"
      using contents_bound [OF less.prems(8)] by (simp_all add: t(3) take_append)
    have "m2 + (LINK_MAX_PACKETS - length (contents out1)) < pool_max"
      using less.prems(10) t(5) grow by linarith
    moreover have "data_ofs + slen + (n - slen) \<le> 65535" using less.prems(6) slen by simp
    moreover have "po \<le> data_ofs + slen" using less.prems(5) by simp
    moreover have "n - slen < n" using slen by simp
    ultimately have "\<exists>p' out' w' m' ofs. loopR (\<lambda>(p, out, w, data_ofs, data_length). 0 < data_length)
          (segment_step mss po) (?p, out1, w2, data_ofs + slen, n - slen) = Inr (p', out', w', ofs, 0) \<and>
        packet_ok p' \<and> link_ok out' \<and>
        map frame (contents out') = take LINK_MAX_PACKETS (map frame (contents out1) @
          segment_frames (unat mss) D po (data_ofs + slen) (n - slen)) \<and>
        pool_ok w' m' \<and> m' + length (contents out1) = m2 + length (contents out')"
      by (intro less.IH [OF _ less.prems(1) _ loop_headers_next [OF less.prems(5), of D slen] less.prems(4)
          _ _ less.prems(7) t(2,4)]) simp_all
    then obtain p' out' w' m' ofs where
      r: "loopR (\<lambda>(p, out, w, data_ofs, data_length). 0 < data_length) (segment_step mss po)
          (?p, out1, w2, data_ofs + slen, n - slen) = Inr (p', out', w', ofs, 0)"
        "packet_ok p'" "link_ok out'"
        "map frame (contents out') = take LINK_MAX_PACKETS (map frame (contents out1) @
          segment_frames (unat mss) D po (data_ofs + slen) (n - slen))"
        "pool_ok w' m'" "m' + length (contents out1) = m2 + length (contents out')"
      by blast
    have "map frame (contents out1) = take LINK_MAX_PACKETS (map frame (contents out) @ [frame s])"
      by (simp add: t(3) take_map [symmetric])
    then have "map frame (contents out') =
        take LINK_MAX_PACKETS (map frame (contents out) @ segment_frames (unat mss) D po data_ofs n)"
      unfolding r(4) using False mss
      by (simp add: take_take_append segment_frames.simps [of _ _ _ data_ofs n] s(3) slen_def Let_def)
    then show ?thesis
      using r t False s(4) by (intro exI [of _ p'] exI [of _ out'] exI [of _ w'] exI [of _ m'] exI [of _ ofs]) simp
  qed
qed


text \<open>What \<^verbatim>\<open>forward_tcp_segments\<close> sends for a packet.\<close>

definition tsd_payload_ofs :: "packet \<Rightarrow> nat" where
  "tsd_payload_ofs p = min (proto_ofs + tcp_hdr_size (tcp_of (p_data p))) (unat (p_length p))"

definition segmentable :: "u16 \<Rightarrow> packet \<Rightarrow> bool" where
  "segmentable mss p \<longleftrightarrow>
     plain_ipv4 p \<and> protocol_of p = PROTOCOL_TCP \<and> unat mss < unat (p_length p) - tsd_payload_ofs p"

definition tsd_frames :: "u16 \<Rightarrow> packet \<Rightarrow> u8 list list" where
  "tsd_frames mss p =
     (if segmentable mss p
      then segment_frames (unat mss) (p_data p) (tsd_payload_ofs p) (tsd_payload_ofs p)
             (unat (p_length p) - tsd_payload_ofs p)
      else [frame p])"

lemma segmentable_ofs:
  assumes "segmentable mss p"
  shows "tsd_payload_ofs p = proto_ofs + tcp_hdr_size (tcp_of (p_data p))" "54 \<le> tsd_payload_ofs p"
    "tsd_payload_ofs p < unat (p_length p)"
proof -
  show lt: "tsd_payload_ofs p < unat (p_length p)" using assms unfolding segmentable_def by linarith
  then show eq: "tsd_payload_ofs p = proto_ofs + tcp_hdr_size (tcp_of (p_data p))"
    by (simp add: tsd_payload_ofs_def min_def split: if_splits)
  show "54 \<le> tsd_payload_ofs p"
    using tcp_hdr_size_bounds(1) [of "tcp_of (p_data p)"] unfolding eq by (simp add: header_sizes)
qed

lemma forward_segmentable:
  assumes "packet_ok p" and "segmentable mss p" and "0 < mss" and "link_ok out" and "pool_ok w (Suc n)"
    and "Suc n + LINK_MAX_PACKETS < pool_max"
  shows "\<exists>out' w' n'. forward_tcp_segments out p mss w = Inr (out', w') \<and> link_ok out' \<and>
    map frame (contents out') = take LINK_MAX_PACKETS (map frame (contents out) @ tsd_frames mss p) \<and>
    pool_ok w' n' \<and> n' + length (contents out) = n + length (contents out')"
proof -
  let ?po = "tsd_payload_ofs p" and ?D = "p_data p"
  have D: "length ?D = PAYLOAD_SIZE" using assms(1) by (simp add: packet_ok_def)
  note po = segmentable_ofs [OF assms(2)]
  have "?po + (unat (p_length p) - ?po) \<le> 65535"
    using po(3) unat_u16_lt [of "p_length p"] by (simp del: unat_u16_lt)
  moreover have "Suc n + (LINK_MAX_PACKETS - length (contents out)) < pool_max" using assms(6) by simp
  ultimately obtain p' out' w' m' ofs where
    l: "loopR (\<lambda>(p, out, w, data_ofs, data_length). 0 < data_length) (segment_step mss ?po)
         (p, out, w, ?po, unat (p_length p) - ?po) = Inr (p', out', w', ofs, 0)"
      "packet_ok p'" "link_ok out'"
      "map frame (contents out') = take LINK_MAX_PACKETS (map frame (contents out) @
         segment_frames (unat mss) ?D ?po ?po (unat (p_length p) - ?po))"
      "pool_ok w' m'" "m' + length (contents out) = Suc n + length (contents out')"
    using segment_loop_ok [OF D hdr_data_simps(8) [OF D, symmetric] loop_headers_start po(2) le_refl _
        assms(3,4,5)] by blast
  have grow: "length (contents out) \<le> length (contents out')"
    using arg_cong [OF l(4), of length] contents_bound [OF assms(4)] by (simp add: take_append)
  then have m': "m' = Suc (m' - 1)" using l(6) by simp
  then have f: "free p' w' = Inr (freed p' w')" "pool_ok (freed p' w') (m' - 1)"
    using free_ok [of w' "m' - 1" p'] freed_pool_ok [OF _ l(2), of w' "m' - 1"] l(5) by simp_all
  have "forward_tcp_segments out p mss w = Inr (out', freed p' w')"
  proof -
    have "ethertype (eth_of ?D) = TYPE_IPV4" "\<not> 5 < ihl (ip_of ?D)" "protocol_of p = PROTOCOL_TCP"
        "\<not> unat (p_length p) - ?po \<le> unat mss"
      using assms(2) by (simp_all add: segmentable_def plain_ipv4_def not_less)
    then show ?thesis
      using l(1) f(1)
      by (simp add: forward_tcp_segments_def header_room [OF assms(1)] tsd_payload_ofs_def [symmetric] Let_def
          del: loopR_step)
  qed
  moreover have "m' - 1 + length (contents out) = n + length (contents out')"
    using l(6) m' by simp
  ultimately show ?thesis
    using l f(2) assms(2) by (intro exI [of _ out'] exI [of _ "freed p' w'"] exI [of _ "m' - 1"])
      (simp add: tsd_frames_def)
qed

lemma forward_whole:
  assumes "packet_ok p" and "\<not> segmentable mss p"
  shows "forward_tcp_segments out p mss w = transmit out p w"
  using assms(2)
  by (auto simp: forward_tcp_segments_def header_room [OF assms(1)] segmentable_def plain_ipv4_def not_less
      tsd_payload_ofs_def Let_def)

interpretation ts: packet_app tsd_step "\<lambda>_. True" "\<lambda>mss. 0 < mss" frame tsd_frames "\<lambda>mss _. mss" "Suc LINK_MAX_PACKETS"
proof unfold_locales
  fix out p w n and mss :: u16
  assume h: "link_ok out" "packet_ok p" "0 < mss" "pool_ok w (Suc n)"
    and r: "Suc LINK_MAX_PACKETS = 0 \<or> Suc n + Suc LINK_MAX_PACKETS \<le> pool_max"
  show "\<exists>out' w' n'. tsd_step p (out, w, mss) = Inr (out', w', mss) \<and> link_ok out' \<and>
      map frame (contents out') = take LINK_MAX_PACKETS (map frame (contents out) @ tsd_frames mss p) \<and>
      pool_ok w' n' \<and> n' + length (contents out) = n + length (contents out')"
  proof (cases "segmentable mss p")
    case True
    from forward_segmentable [OF h(2) True h(3,1,4)] r show ?thesis
      by (auto simp: tsd_step_def)
  next
    case False
    from ch.send_ok [OF h(1,2,4)] show ?thesis
      using False by (auto simp: tsd_step_def forward_whole [OF h(2) False] tsd_frames_def take_map [symmetric])
  qed
qed


text \<open>One segment: \<open>slen\<close> bytes of payload, \<open>q\<close> bytes into it.\<close>

definition seg_frame :: "u8 list \<Rightarrow> nat \<Rightarrow> nat \<Rightarrow> nat \<Rightarrow> u8 list" where
  "seg_frame D po q slen =
     take po (hdr_data D (seg_ip po slen (ip_of D))
       (seg_tcp po slen (ip_of D) (set_seq (seq (tcp_of D) + of_nat q) (tcp_of D)))) @
     take slen (drop (po + q) D)"

lemma segment_frames_unfold:
  "0 < mss \<Longrightarrow> 0 < n \<Longrightarrow> segment_frames mss D po (po + q) n =
     seg_frame D po q (min mss n) # segment_frames mss D po (po + (q + min mss n)) (n - min mss n)"
  by (subst segment_frames.simps) (simp add: seg_frame_def Let_def add.assoc)

lemma segment_frames_0: "segment_frames mss D po ofs 0 = []"
  by (subst segment_frames.simps) simp

lemma segment_frames_nth:
  assumes "0 < mss" and "k < length (segment_frames mss D po (po + q) n)"
  shows "k * mss < n \<and>
    segment_frames mss D po (po + q) n ! k = seg_frame D po (q + k * mss) (min mss (n - k * mss))"
  using assms
proof (induction k arbitrary: q n)
  case 0
  then show ?case by (cases "n = 0") (simp_all add: segment_frames_0 segment_frames_unfold)
next
  case (Suc k)
  have n: "0 < n" using Suc.prems(2) by (cases "n = 0") (simp_all add: segment_frames_0)
  note u = segment_frames_unfold [OF Suc.prems(1) n, of D po q]
  let ?s = "min mss n"
  have "k < length (segment_frames mss D po (po + (q + ?s)) (n - ?s))"
    using Suc.prems(2) by (simp add: u)
  from Suc.IH [OF Suc.prems(1) this] have ih: "k * mss < n - ?s"
    "segment_frames mss D po (po + (q + ?s)) (n - ?s) ! k =
     seg_frame D po (q + ?s + k * mss) (min mss (n - ?s - k * mss))"
    by simp_all
  then have s: "?s = mss" by (cases "mss < n") (simp_all add: min_def)
  show ?case using ih unfolding u s by (simp add: ac_simps)
qed

lemma segment_frames_payload:
  assumes "0 < mss" and "po + q + n \<le> length D" and "length D = PAYLOAD_SIZE"
  shows "concat (map (drop po) (segment_frames mss D po (po + q) n)) = take n (drop (po + q) D)"
  using assms(2)
proof (induction n arbitrary: q rule: less_induct)
  case (less n)
  show ?case
  proof (cases "n = 0")
    case False
    let ?s = "min mss n"
    have "drop po (seg_frame D po q ?s) = take ?s (drop (po + q) D)"
      using less.prems by (simp add: seg_frame_def hdr_data_simps(1) [OF assms(3)] assms(3) [symmetric])
    moreover have "take ?s (drop (po + q) D) @ take (n - ?s) (drop (po + (q + ?s)) D) = take n (drop (po + q) D)"
    proof -
      have "drop (po + (q + ?s)) D = drop ?s (drop (po + q) D)" by (simp add: ac_simps)
      then show ?thesis by (metis min.cobounded2 le_add_diff_inverse take_add)
    qed
    ultimately show ?thesis
      using False assms(1) less.IH [of "n - ?s" "q + ?s"] less.prems
      by (simp add: segment_frames_unfold)
  qed (simp add: segment_frames_0)
qed

lemma headers_within:
  "54 \<le> k \<Longrightarrow> ethernet_size \<le> k" "54 \<le> k \<Longrightarrow> ethernet_size + ipv4_size \<le> k"
  "54 \<le> k \<Longrightarrow> proto_ofs + tcp_size \<le> k"
  by (simp_all add: header_sizes)

lemma header_ref_take_append:
  "ofs + sz \<le> k \<Longrightarrow> k \<le> length m \<Longrightarrow> header_ref sz f (take k m @ xs) ofs = header_ref sz f m ofs"
  by (simp add: header_ref_def header_slice_def take_drop min_def take_append)

lemma header_ref_take: "ofs + sz \<le> k \<Longrightarrow> header_ref sz f (take k m) ofs = header_ref sz f m ofs"
  by (simp add: header_ref_def header_slice_def take_drop min_def)

lemma seg_frame_headers:
  assumes "length D = PAYLOAD_SIZE" and "54 \<le> po" and "po \<le> PAYLOAD_SIZE"
  shows "ip_of (seg_frame D po q slen) = seg_ip po slen (ip_of D)"
    and "tcp_of (seg_frame D po q slen) =
      seg_tcp po slen (ip_of D) (set_seq (seq (tcp_of D) + of_nat q) (tcp_of D))"
    and "eth_of (seg_frame D po q slen) = eth_of D"
  using assms
  by (simp_all add: seg_frame_def header_ref_take_append hdr_data_simps [OF assms(1)] headers_within)

lemma length_seg_frame:
  assumes "length D = PAYLOAD_SIZE" and "po + q + slen \<le> PAYLOAD_SIZE"
  shows "length (seg_frame D po q slen) = po + slen"
  using assms by (simp add: seg_frame_def hdr_data_simps [OF assms(1)])

lemma seg_ip_fields:
  "total_length (seg_ip po slen ip) = of_nat (po + slen) - of_nat ethernet_size"
  "ihl (seg_ip po slen ip) = ihl ip" "ip_protocol (seg_ip po slen ip) = ip_protocol ip"
  "pseudo_header (seg_ip po slen ip) = pseudo_header ip"
  "checksum_ok (seg_ip po slen ip) = Inr True"
proof -
  show "pseudo_header (seg_ip po slen ip) = pseudo_header ip"
    by (simp add: seg_ip_def Let_def)
  show "checksum_ok (seg_ip po slen ip) = Inr True"
    unfolding seg_ip_def Let_def checksum_ok_eq
    using ipc.verifies [of "set_total_length (of_nat (po + slen) - of_nat ethernet_size) ip" "[]" 0] by simp
qed (simp_all add: seg_ip_def Let_def ip_set_checksum_def set_total_length_def total_length_def ihl_def)

text \<open>A packet on the wire determines its headers.\<close>

lemma frame_headers:
  assumes "packet_ok s" and "54 \<le> unat (p_length s)"
  shows "ip_of (p_data s) = ip_of (frame s)" "tcp_of (p_data s) = tcp_of (frame s)"
    "eth_of (p_data s) = eth_of (frame s)" "length (frame s) = unat (p_length s)"
proof -
  have len: "unat (p_length s) \<le> length (p_data s)" by (rule length_le_data [OF assms(1)])
  then show "length (frame s) = unat (p_length s)" by (simp add: frame_def)
  show "ip_of (p_data s) = ip_of (frame s)" "tcp_of (p_data s) = tcp_of (frame s)"
    "eth_of (p_data s) = eth_of (frame s)"
    using assms(2) by (simp_all add: frame_def header_ref_take headers_within)
qed

lemma tsd_frames_nth:
  assumes "packet_ok p" and "segmentable mss p" and "0 < mss" and "k < length (tsd_frames mss p)"
  defines "po \<equiv> tsd_payload_ofs p"
  defines "slen \<equiv> min (unat mss) (unat (p_length p) - po - k * unat mss)"
  shows "0 < slen" "slen \<le> unat mss" "po + k * unat mss + slen \<le> unat (p_length p)"
    "tsd_frames mss p ! k = seg_frame (p_data p) po (k * unat mss) slen"
proof -
  have mss: "0 < unat mss" using assms(3) by (simp add: unat_gt_0)
  have "k < length (segment_frames (unat mss) (p_data p) po (po + 0) (unat (p_length p) - po))"
    using assms(2,4) by (simp add: tsd_frames_def po_def)
  from segment_frames_nth [OF mss this] have n: "k * unat mss < unat (p_length p) - po"
    "segment_frames (unat mss) (p_data p) po (po + 0) (unat (p_length p) - po) ! k =
     seg_frame (p_data p) po (0 + k * unat mss) slen"
    by (simp_all add: slen_def)
  show "0 < slen" using n(1) mss by (simp add: slen_def)
  show "slen \<le> unat mss" by (simp add: slen_def)
  show "po + k * unat mss + slen \<le> unat (p_length p)" using n(1) by (simp add: slen_def)
  show "tsd_frames mss p ! k = seg_frame (p_data p) po (k * unat mss) slen"
    using n(2) assms(2) by (simp add: tsd_frames_def po_def)
qed


text \<open>The checksum app completes a segment.\<close>

lemma segment_packet:
  assumes "packet_ok p" and "segmentable mss p" and "0 < mss" and "k < length (tsd_frames mss p)"
    and "packet_ok s" and "frame s = tsd_frames mss p ! k" and "54 \<le> unat (p_length s)"
  shows "plain_ipv4 s" "protocol_of s = PROTOCOL_TCP" "tcp_omitted s" "checksum_ok (ip_of (p_data s)) = Inr True"
proof -
  let ?po = "tsd_payload_ofs p" and ?D = "p_data p"
  define slen where "slen = min (unat mss) (unat (p_length p) - ?po - k * unat mss)"
  note n = tsd_frames_nth [OF assms(1-4), folded slen_def]
  have D: "length ?D = PAYLOAD_SIZE" using assms(1) by (simp add: packet_ok_def)
  note po = segmentable_ofs [OF assms(2)]
  have le: "?po \<le> PAYLOAD_SIZE" "?po + k * unat mss + slen \<le> PAYLOAD_SIZE"
    using length_le_data [OF assms(1)] po(3) n(3) D by linarith+
  note f = frame_headers [OF assms(5,7), unfolded assms(6) n(4)]
  note h = seg_frame_headers [OF D po(2) le(1)]
  have len: "unat (p_length s) = ?po + slen"
    using f(4) length_seg_frame [OF D le(2)] by simp
  then have len': "p_length s = of_nat (?po + slen)"
    by (metis of_nat_unat ucast_id)
  show pl: "plain_ipv4 s" "protocol_of s = PROTOCOL_TCP"
    using assms(2) by (simp_all add: f h plain_ipv4_def seg_ip_fields segmentable_def)
  show "checksum_ok (ip_of (p_data s)) = Inr True" by (simp add: f h seg_ip_fields)
  show "tcp_omitted s"
    unfolding tcp_omitted_def l4_pseudo_def pl(2)
    by (simp add: f(1,2) h seg_ip_fields len' seg_tcp_def)
      (simp add: tcp_set_checksum_def)
qed


lemma new_frames:
  assumes "map frame (contents out') = take LINK_MAX_PACKETS (map frame (contents out) @ fs)"
    and "link_ok out" and "s \<in> set (drop (length (contents out)) (contents out'))"
  shows "frame s \<in> set fs"
proof -
  have "map frame (drop (length (contents out)) (contents out')) =
      take (LINK_MAX_PACKETS - length (contents out)) fs"
    using contents_bound [OF assms(2)] unfolding drop_map [symmetric] assms(1)
    by (simp add: drop_take)
  then show ?thesis
    using assms(3) by (metis in_set_takeD image_eqI list.set_map)
qed

lemma tsd_frame_length:
  assumes "packet_ok p" and "segmentable mss p" and "0 < mss" and "k < length (tsd_frames mss p)"
  shows "tsd_payload_ofs p < length (tsd_frames mss p ! k)"
    "length (tsd_frames mss p ! k) \<le> tsd_payload_ofs p + unat mss"
    "length (tsd_frames mss p ! k) \<le> PAYLOAD_SIZE"
    "\<exists>slen. length (tsd_frames mss p ! k) = tsd_payload_ofs p + slen \<and>
       tsd_frames mss p ! k = seg_frame (p_data p) (tsd_payload_ofs p) (k * unat mss) slen"
proof -
  let ?po = "tsd_payload_ofs p"
  define slen where "slen = min (unat mss) (unat (p_length p) - ?po - k * unat mss)"
  note n = tsd_frames_nth [OF assms, folded slen_def]
  have D: "length (p_data p) = PAYLOAD_SIZE" using assms(1) by (simp add: packet_ok_def)
  have le: "?po + k * unat mss + slen \<le> PAYLOAD_SIZE"
    using length_le_data [OF assms(1)] n(3) D by linarith
  have "length (tsd_frames mss p ! k) = ?po + slen"
    unfolding n(4) by (rule length_seg_frame [OF D le])
  then show "?po < length (tsd_frames mss p ! k)" "length (tsd_frames mss p ! k) \<le> ?po + unat mss"
    "length (tsd_frames mss p ! k) \<le> PAYLOAD_SIZE"
    "\<exists>slen. length (tsd_frames mss p ! k) = ?po + slen \<and>
       tsd_frames mss p ! k = seg_frame (p_data p) ?po (k * unat mss) slen"
    using n le by auto
qed

lemma tsd_frame_headers:
  assumes "packet_ok p" and "segmentable mss p" and "0 < mss" and "k < length (tsd_frames mss p)"
  defines "f \<equiv> tsd_frames mss p ! k"
  shows "seq (tcp_of f) = seq (tcp_of (p_data p)) + of_nat (k * unat mss)"
    "total_length (ip_of f) = of_nat (length f - 14)" "checksum_ok (ip_of f) = Inr True"
proof -
  let ?po = "tsd_payload_ofs p"
  have D: "length (p_data p) = PAYLOAD_SIZE" using assms(1) by (simp add: packet_ok_def)
  note po = segmentable_ofs [OF assms(2)]
  have le: "?po \<le> PAYLOAD_SIZE" using length_le_data [OF assms(1)] po(3) D by linarith
  obtain slen where f: "length f = ?po + slen" "f = seg_frame (p_data p) ?po (k * unat mss) slen"
    using tsd_frame_length(4) [OF assms(1-4)] by (auto simp: f_def)
  note h = seg_frame_headers [OF D po(2) le]
  show "seq (tcp_of f) = seq (tcp_of (p_data p)) + of_nat (k * unat mss)"
    unfolding f(2) h by (simp add: seg_tcp_def)
  show "total_length (ip_of f) = of_nat (length f - 14)"
    unfolding f(2) h seg_ip_fields using po(2) f by (simp add: header_sizes of_nat_diff)
  show "checksum_ok (ip_of f) = Inr True"
    unfolding f(2) h by (rule seg_ip_fields)
qed

lemma tsd_payload:
  assumes "packet_ok p" and "segmentable mss p" and "0 < mss"
  shows "concat (map (drop (tsd_payload_ofs p)) (tsd_frames mss p)) = drop (tsd_payload_ofs p) (frame p)"
proof -
  let ?po = "tsd_payload_ofs p"
  have D: "length (p_data p) = PAYLOAD_SIZE" using assms(1) by (simp add: packet_ok_def)
  have "?po + 0 + (unat (p_length p) - ?po) \<le> length (p_data p)"
    using length_le_data [OF assms(1)] segmentable_ofs(3) [OF assms(2)] by simp
  from segment_frames_payload [OF _ this D, of "unat mss"] assms(2,3) show ?thesis
    by (simp add: tsd_frames_def frame_def unat_gt_0 drop_take)
qed

section \<open>Properties\<close>

lemma demo_segmentable: "segmentable 2 (demo_packet 60 c)" "tsd_payload_ofs (demo_packet 60 c) = 54"
proof -
  have "data_offset (tcp_of (p_data (demo_packet 60 c))) = 0"
  proof -
    have "take 20 (drop 34 (p_data (demo_packet 60 c))) = replicate 16 0 @ wr16 (htons c) @ replicate 2 0"
      by (simp add: demo_packet_def take_append)
    then show ?thesis
      by (simp add: header_ref_def header_slice_def header_sizes tcp_of_bytes_def rd16_def data_offset_def
          ntohs_def swap_bytes16_def numeral_eq_Suc)
  qed
  then show po: "tsd_payload_ofs (demo_packet 60 c) = 54"
    by (simp add: tsd_payload_ofs_def tcp_hdr_size_def header_sizes) (simp add: demo_packet_def)
  show "segmentable 2 (demo_packet 60 c)"
    using demo_packet_headers(1,2) by (simp add: segmentable_def po) (simp add: demo_packet_def)
qed

text \<open>
  C12. Segmentation: a TCP packet whose payload exceeds the maximum segment size is sent as a
  sequence of frames whose payloads, concatenated, are the payload of the packet. Each carries at least
  one and at most \<open>mss\<close> bytes of it, the sequence number of its first byte, the right IP total length
  and a valid IP header checksum. The output link takes them in order until it is full, the
  original packet returns to the freelist, and nothing panics.
\<close>

theorem tsd_segments:
  assumes "packet_ok p" and "segmentable mss p" and "0 < mss" and "link_ok out" and "pool_ok w (Suc n)"
    and "Suc n + LINK_MAX_PACKETS < pool_max"
  shows "\<exists>out' w' n' segs. forward_tcp_segments out p mss w = Inr (out', w') \<and> link_ok out' \<and>
    map frame (contents out') = take LINK_MAX_PACKETS (map frame (contents out) @ segs) \<and>
    pool_ok w' n' \<and> n' + length (contents out) = n + length (contents out') \<and>
    concat (map (drop (tsd_payload_ofs p)) segs) = drop (tsd_payload_ofs p) (frame p) \<and>
    (\<forall>k < length segs.
       tsd_payload_ofs p < length (segs ! k) \<and> length (segs ! k) \<le> tsd_payload_ofs p + unat mss \<and>
       seq (tcp_of (segs ! k)) = seq (tcp_of (p_data p)) + of_nat (k * unat mss) \<and>
       total_length (ip_of (segs ! k)) = of_nat (length (segs ! k) - 14) \<and>
       checksum_ok (ip_of (segs ! k)) = Inr True)"
proof -
  obtain out' w' n' where "forward_tcp_segments out p mss w = Inr (out', w')" "link_ok out'"
    "map frame (contents out') = take LINK_MAX_PACKETS (map frame (contents out) @ tsd_frames mss p)"
    "pool_ok w' n'" "n' + length (contents out) = n + length (contents out')"
    using forward_segmentable [OF assms] by blast
  with tsd_payload [OF assms(1-3)] tsd_frame_length [OF assms(1-3)] tsd_frame_headers [OF assms(1-3)]
  show ?thesis
    by (intro exI [of _ out'] exI [of _ w'] exI [of _ n'] exI [of _ "tsd_frames mss p"]) simp
qed

theorem tsd_segments_witness:
  "\<exists>out' w' n' segs. forward_tcp_segments new_link (demo_packet 60 0) 2 (snd (projr (allocate initial_world))) =
      Inr (out', w') \<and> link_ok out' \<and> map frame (contents out') = take LINK_MAX_PACKETS segs \<and>
    pool_ok w' n' \<and> n' = length (contents out') \<and>
    concat (map (drop 54) segs) = drop 54 (frame (demo_packet 60 0)) \<and>
    (\<forall>k < length segs. 54 < length (segs ! k) \<and> length (segs ! k) \<le> 56)"
proof -
  have "(0 :: u16) < 2" and "Suc 0 + LINK_MAX_PACKETS < pool_max"
    by (simp_all add: pool_max_def LINK_MAX_PACKETS_def LINK_RING_SIZE_def)
  from tsd_segments [OF demo_packet_ok demo_segmentable(1) this(1) new_link_ok demo_world_ok this(2), of 0]
  show ?thesis by (simp add: demo_segmentable(2)) blast
qed

text \<open>
  C13. The two offload apps together: every segment that \<^verbatim>\<open>TSD\<close> puts on its output is completed by
  \<^verbatim>\<open>Checksum\<close>: the packet it returns has a transport checksum that verifies and a valid IP header
  checksum.
\<close>

theorem segments_are_completed:
  assumes "packet_ok p" and "segmentable mss p" and "0 < mss" and "link_ok out" and "pool_ok w (Suc n)"
    and "Suc n + LINK_MAX_PACKETS < pool_max"
    and "forward_tcp_segments out p mss w = Inr (out', w')"
    and "s \<in> set (drop (length (contents out)) (contents out'))"
  shows "\<exists>s'. maybe_fill_in_checksum s = Inr s' \<and> l4_checksum_ok s' \<and>
    checksum_ok (ip_of (p_data s')) = Inr True"
proof -
  have o: "link_ok out'"
    "map frame (contents out') = take LINK_MAX_PACKETS (map frame (contents out) @ tsd_frames mss p)"
    using forward_segmentable [OF assms(1-6)] assms(7) by auto
  have s: "packet_ok s" using link_okD(5) [OF o(1)] assms(8) by (meson in_set_dropD)
  have "frame s \<in> set (tsd_frames mss p)" by (rule new_frames [OF o(2) assms(4,8)])
  then obtain k where k: "k < length (tsd_frames mss p)" "frame s = tsd_frames mss p ! k"
    by (auto simp: in_set_conv_nth)
  have len: "54 \<le> unat (p_length s)"
    using tsd_frame_length(1) [OF assms(1-3) k(1)] segmentable_ofs(2) [OF assms(2)] k(2) [symmetric]
    by (simp add: frame_def)
  note seg = segment_packet [OF assms(1-3) k(1) s k(2) len]
  have c: "l4_complete s" using seg(2) len protocols_differ by (simp add: l4_complete_def header_sizes)
  have t: "proto_ofs + tcp_size \<le> unat (p_length s)" using len by (simp add: header_sizes)
  have "filled s = tcp_filled s" using seg by (simp add: filled_def)
  then show ?thesis
    using maybe_fill_in_checksum_eq [OF s c] tcp_filled_ok [OF s t] seg(4) ip_of_put(1) [OF s]
    by (simp add: tcp_filled_def)
qed

theorem segments_are_completed_witness:
  "\<exists>out' w'. forward_tcp_segments new_link (demo_packet 60 0) 2 (snd (projr (allocate initial_world))) =
      Inr (out', w') \<and> contents out' \<noteq> [] \<and>
    list_all (\<lambda>s. \<exists>s'. maybe_fill_in_checksum s = Inr s' \<and> l4_checksum_ok s' \<and>
      checksum_ok (ip_of (p_data s')) = Inr True) (contents out')"
proof -
  let ?p = "demo_packet 60 0"
  have h: "(0 :: u16) < 2" "Suc 0 + LINK_MAX_PACKETS < pool_max" "0 < LINK_MAX_PACKETS"
    by (simp_all add: pool_max_def LINK_MAX_PACKETS_def LINK_RING_SIZE_def)
  note hyps = demo_packet_ok demo_segmentable(1) h(1) new_link_ok demo_world_ok h(2)
  obtain out' w' where o: "forward_tcp_segments new_link ?p 2 (snd (projr (allocate initial_world))) = Inr (out', w')"
    "map frame (contents out') = take LINK_MAX_PACKETS (map frame (contents new_link) @ tsd_frames 2 ?p)"
    using forward_segmentable [OF hyps] by blast
  have "length (frame ?p) = 60" by (simp add: frame_def) (simp add: demo_packet_def)
  then have "drop 54 (frame ?p) \<noteq> []" by simp
  then have "tsd_frames 2 ?p \<noteq> []"
    using tsd_payload [OF hyps(1-3), of 0] by (auto simp: demo_segmentable(2))
  then have "contents out' \<noteq> []" using o(2) h(3) by auto
  then show ?thesis
    using o(1) segments_are_completed [OF hyps o(1)] by (auto simp: list_all_iff)
qed

text \<open>
  The app \<^verbatim>\<open>TSD\<close> as a whole: \<^verbatim>\<open>push\<close> ends without a panic as long as the pool has room for the
  segments of a full output link, empties the input, and appends to the output, up to its capacity,
  the frames of every packet in order: the segments of the packets that exceed the maximum segment
  size, and all others as they are.
\<close>

theorem tsd_push_correct:
  assumes "ports_ok a i j" and "io_ok s n" and "length (contents (io_links s i)) \<le> n"
    and "0 < mss" and "n + 2 * LINK_MAX_PACKETS < pool_max"
  shows "\<exists>s' n'. tsd_push mss a s = Inr s' \<and> io_ok s' n' \<and> contents (io_links s' i) = [] \<and>
    map frame (contents (io_links s' j)) = take LINK_MAX_PACKETS
      (map frame (contents (io_links s j)) @ concat (map (tsd_frames mss) (contents (io_links s i)))) \<and>
    (\<forall>k. k \<noteq> i \<longrightarrow> k \<noteq> j \<longrightarrow> io_links s' k = io_links s k) \<and>
    n' + length (contents (io_links s i)) + length (contents (io_links s j)) =
      n + length (contents (io_links s' j))"
proof -
  have "emitted tsd_frames (\<lambda>mss _. mss) mss ps = concat (map (tsd_frames mss) ps)" for ps
    by (induction ps) simp_all
  moreover have "Suc LINK_MAX_PACKETS = 0 \<or> n + LINK_MAX_PACKETS + Suc LINK_MAX_PACKETS \<le> pool_max"
    using assms(5) by simp
  ultimately show ?thesis
    using ts.push_ok [OF assms(1,2,4) _ _ assms(3)] by (auto simp: tsd_push_def)
qed

theorem tsd_push_correct_witness:
  "\<exists>s'. tsd_push 2 demo_ports (demo_io (demo_packet 60 0)) = Inr s' \<and> contents (io_links s' 0) = [] \<and>
    map frame (contents (io_links s' 1)) = take LINK_MAX_PACKETS (tsd_frames 2 (demo_packet 60 0))"
proof -
  have "(0 :: u16) < 2" and "1 + 2 * LINK_MAX_PACKETS < pool_max"
    by (simp_all add: pool_max_def LINK_MAX_PACKETS_def LINK_RING_SIZE_def)
  with tsd_push_correct [OF demo_io_ok(1,2), of "demo_packet 60 0" 2] show ?thesis
    by (auto simp: demo_io_ok demo_packet_ok)
qed

end
