(* ===== verification/Jitter.thy ===== *)
theory Jitter
  imports Conservation
begin

text \<open>
  What \<^verbatim>\<open>JitterApp::push\<close> of \<^verbatim>\<open>rush/src/qos.rs\<close> does to the order and the time of packets, for every sequence of
  random draws. It always returns: a round takes a packet or fills the queue.
\<close>

section \<open>The amount of jitter\<close>

lemma bit_length_le: "n < 2 ^ k \<Longrightarrow> bit_length n \<le> k"
proof (induction k arbitrary: n)
  case 0
  then show ?case by (simp add: bit_length.simps)
next
  case (Suc k)
  have "n div 2 < 2 ^ k" using Suc.prems by simp
  with Suc.IH show ?case by (subst bit_length.simps) simp
qed

text \<open>Rounding up does not cross a multiple of a large enough power of two.\<close>

lemma round53_le:
  assumes "n \<le> m * 2 ^ 53" and "m < 2 ^ 53"
  shows "round53 n \<le> m * 2 ^ 53"
proof (cases "bit_length n \<le> 53")
  case True
  then show ?thesis using assms(1) by (simp add: round53_def)
next
  case False
  define s where "s = bit_length n - 53"
  have "m * 2 ^ 53 < 2 ^ 53 * (2 ^ 53 :: nat)" using assms(2) by simp
  then have "n < 2 ^ 106" using assms(1) by simp
  then have s: "1 \<le> s" "s \<le> 53" using bit_length_le [of n 106] False by (simp_all add: s_def)
  define M where "M = m * 2 ^ (53 - s)"
  have M: "m * 2 ^ 53 = M * 2 ^ s" using s(2) by (simp add: M_def mult.assoc power_add [symmetric])
  have q: "n div 2 ^ s \<le> M" using div_le_mono [OF assms(1) [unfolded M], of "2 ^ s"] by simp
  have up: "n div 2 ^ s + 1 \<le> M" if "n mod 2 ^ s \<noteq> 0"
  proof (rule ccontr)
    assume "\<not> n div 2 ^ s + 1 \<le> M"
    then have "n div 2 ^ s = M" using q by linarith
    then have "n = M * 2 ^ s + n mod 2 ^ s" using div_mult_mod_eq [of n "2 ^ s"] by simp
    then show False using assms(1) [unfolded M] that by linarith
  qed
  have half: "n mod 2 ^ s \<noteq> 0" if "\<not> n mod 2 ^ s < 2 ^ (s - 1)"
    using that by (metis zero_less_numeral zero_less_power)
  have "(if n mod 2 ^ s < 2 ^ (s - 1) \<or> (n mod 2 ^ s = 2 ^ (s - 1) \<and> even (n div 2 ^ s)) then n div 2 ^ s else n div 2 ^ s + 1) \<le> M"
    using q up half by auto
  then show ?thesis
    unfolding M using False by (simp add: round53_def Let_def s_def [symmetric])
qed

lemma jitter_amount_le:
  assumes "us < 2 ^ 53" and "d < 2 ^ 53"
  shows "jitter_amount us d \<le> us"
proof -
  have "us * d \<le> us * 2 ^ 53" using assms(2) by simp
  from round53_le [OF this assms(1)] have "round53 (us * d) div 2 ^ 53 \<le> us" by (simp add: div_le_mono less_mult_imp_div_less)
  then show ?thesis by (simp add: jitter_amount_def)
qed


section \<open>Packets taken by push\<close>

fun packets_in :: "delayed_packet list \<Rightarrow> packet list" where
  "packets_in [] = []"
| "packets_in (Delay _ # ds) = packets_in ds"
| "packets_in (Packet p # ds) = p # packets_in ds"

lemma packets_in_append [simp]: "packets_in (xs @ ys) = packets_in xs @ packets_in ys"
  by (induction xs rule: packets_in.induct) simp_all

text \<open>The packets that were passed on at once, and those that were put into the queue.\<close>

abbreviation passed :: "(packet \<times> bool) list \<Rightarrow> packet list" where
  "passed ts \<equiv> map fst (filter snd ts)"

abbreviation queued :: "(packet \<times> bool) list \<Rightarrow> packet list" where
  "queued ts \<equiv> map fst (filter (\<lambda>t. \<not> snd t) ts)"

text \<open>Entries that a push at time \<open>tm\<close> adds: the delays end within the jitter.\<close>

definition delays_within :: "nat \<Rightarrow> nat \<Rightarrow> delayed_packet list \<Rightarrow> bool" where
  "delays_within tm us ds \<longleftrightarrow> (\<forall>t. Delay t \<in> set ds \<longrightarrow> tm \<le> t \<and> t \<le> tm + us * 1000)"

definition draws_ok :: "rng \<Rightarrow> bool" where
  "draws_ok rng \<longleftrightarrow> (\<forall>i. rng i < 2 ^ 53)"

lemma draws_ok_gen: "draws_ok rng \<Longrightarrow> gen_f64 rng = (d, rng') \<Longrightarrow> d < 2 ^ 53 \<and> draws_ok rng'"
  by (auto simp: draws_ok_def gen_f64_def)

text \<open>One round, on an input that is not empty and a queue that is not full.\<close>

lemma jitter_body_ok:
  assumes "contents inp = p # ps" and "link_ok inp" and "link_ok out" and "\<not> dq_full q" and "draws_ok rng" and "us < 2 ^ 53"
    and "pool_ok w n" and "0 < n"
  shows "\<exists>inp' out' w' q' rng' ds.
    jitter_body us st re tm (inp, out, w, q, rng) = Inr (inp', out', w', q', rng') \<and> draws_ok rng' \<and>
    dq_packets q' = dq_packets q @ ds \<and> delays_within tm us ds \<and> dq_capacity q' = dq_capacity q \<and>
    (contents inp' = ps \<and> packets_in ds = [p] \<and> out' = out \<or>
     contents inp' = ps \<and> ds = [] \<and> re \<and> contents out' = take LINK_MAX_PACKETS (contents out @ [p]) \<or>
     inp' = inp \<and> packets_in ds = [] \<and> out' = out \<and> dq_full q')"
proof -
  obtain d rng1 where g: "gen_f64 rng = (d, rng1)" by fastforce
  obtain e rng2 where g2: "gen_f64 rng1 = (e, rng2)" by fastforce
  have dr: "draws_ok rng1" "e < 2 ^ 53" "draws_ok rng2"
    using draws_ok_gen [OF assms(5) g] draws_ok_gen [OF _ g2] by auto
  have in_time: "tm \<le> tm + jitter_amount us e * 1000 \<and> tm + jitter_amount us e * 1000 \<le> tm + us * 1000"
    using jitter_amount_le [OF assms(6) dr(2)] by simp
  obtain inp' where r: "receive inp = Inr (p, inp')" "link_ok inp'" "contents inp' = ps"
    using ch.recv_first [OF assms(2,1)] by blast
  have p: "packet_ok p" using link_okD(5) [OF assms(2), of p] assms(1) by simp
  show ?thesis
  proof (cases "f64_lt (draw_val d) st")
    case True
    let ?d = "Delay (tm + jitter_amount us e * 1000)"
    let ?q = "q\<lparr>dq_packets := dq_packets q @ [?d]\<rparr>"
    have "enqueue_delay (tm + jitter_amount us e * 1000) q = Inr ?q" using assms(4) by (simp add: enqueue_delay_def)
    then have body: "jitter_body us st re tm (inp, out, w, q, rng) =
        (if \<not> dq_full ?q then bindR (enqueue_packet p ?q) (\<lambda>q. Inr (inp', out, w, q, rng2)) else Inr (inp, out, w, ?q, rng2))"
      by (simp add: jitter_body_def g g2 True Let_def r(1))
    have d: "delays_within tm us [?d]" "delays_within tm us [?d, Packet p]" using in_time by (auto simp: delays_within_def)
    show ?thesis
    proof (cases "dq_full ?q")
      case True
      then show ?thesis using body dr d by (intro exI [of _ inp] exI [of _ out] exI [of _ w] exI [of _ ?q] exI [of _ rng2] exI [of _ "[?d]"]) simp
    next
      case False
      then have "enqueue_packet p ?q = Inr (?q\<lparr>dq_packets := dq_packets q @ [?d, Packet p]\<rparr>)" by (simp add: enqueue_packet_def)
      with False body dr d r(3) show ?thesis
        by (intro exI [of _ inp'] exI [of _ out] exI [of _ w] exI [of _ "?q\<lparr>dq_packets := dq_packets q @ [?d, Packet p]\<rparr>"]
            exI [of _ rng2] exI [of _ "[?d, Packet p]"]) simp
    qed
  next
    case no: False
    show ?thesis
    proof (cases re)
      case True
      obtain m where m: "n = Suc m" using assms(8) by (cases n) auto
      from ch.send_ok [OF assms(3) p assms(7) [unfolded m]] obtain out' w' where
        t: "transmit out p w = Inr (out', w')" "contents out' = take LINK_MAX_PACKETS (contents out @ [p])"
        by auto
      have "jitter_body us st re tm (inp, out, w, q, rng) = Inr (inp', out', w', q, rng1)"
        by (simp add: jitter_body_def g no True Let_def r(1) t(1))
      with dr(1) r(3) t(2) True show ?thesis
        by (intro exI [of _ inp'] exI [of _ out'] exI [of _ w'] exI [of _ q] exI [of _ rng1] exI [of _ "[]"]) (simp add: delays_within_def)
    next
      case False
      let ?q = "q\<lparr>dq_packets := dq_packets q @ [Packet p]\<rparr>"
      have "jitter_body us st re tm (inp, out, w, q, rng) = Inr (inp', out, w, ?q, rng1)"
        using assms(4) by (simp add: jitter_body_def g no False Let_def r(1) enqueue_packet_def)
      with dr(1) r(3) show ?thesis
        by (intro exI [of _ inp'] exI [of _ out] exI [of _ w] exI [of _ ?q] exI [of _ rng1] exI [of _ "[Packet p]"]) (simp add: delays_within_def)
    qed
  qed
qed


text \<open>
  The state of the loop after the packets \<open>ts\<close> were taken from the input, each either passed on or queued.
\<close>

definition jitter_inv ::
  "nat \<Rightarrow> bool \<Rightarrow> nat \<Rightarrow> nat \<Rightarrow> packet list \<Rightarrow> packet list \<Rightarrow> delay_queue \<Rightarrow> link \<times> link \<times> world \<times> delay_queue \<times> rng \<Rightarrow> bool" where
  "jitter_inv us re tm b ins outs q0 = (\<lambda>(inp, out, w, q, rng).
     link_ok inp \<and> link_ok out \<and> queue_ok (dq_capacity q0) q \<and> draws_ok rng \<and>
     pool_ok w (b + held_q q + length (contents inp) + length (contents out)) \<and>
     (\<exists>ts ds. ins = map fst ts @ contents inp \<and> (re \<or> passed ts = []) \<and>
        contents out = take LINK_MAX_PACKETS (outs @ passed ts) \<and>
        dq_packets q = dq_packets q0 @ ds \<and> packets_in ds = queued ts \<and> delays_within tm us ds))"

lemma jitter_round:
  assumes "jitter_inv us re tm b ins outs q0 (inp, out, w, q, rng)" and "\<not> empty inp" and "\<not> dq_full q" and "us < 2 ^ 53"
  shows "\<exists>inp' out' w' q' rng'. jitter_body us st re tm (inp, out, w, q, rng) = Inr (inp', out', w', q', rng') \<and>
    jitter_inv us re tm b ins outs q0 (inp', out', w', q', rng') \<and>
    (length (contents inp') < length (contents inp) \<or> inp' = inp \<and> dq_full q')"
proof -
  from assms(1) obtain ts ds where i: "link_ok inp" "link_ok out" "queue_ok (dq_capacity q0) q" "draws_ok rng"
    "pool_ok w (b + held_q q + length (contents inp) + length (contents out))"
    "ins = map fst ts @ contents inp" "re \<or> passed ts = []" "contents out = take LINK_MAX_PACKETS (outs @ passed ts)"
    "dq_packets q = dq_packets q0 @ ds" "packets_in ds = queued ts" "delays_within tm us ds"
    unfolding jitter_inv_def prod.case by blast
  obtain p ps where ps: "contents inp = p # ps" using assms(2) ch.is_empty_iff [OF i(1)] by (cases "contents inp") auto
  have "0 < b + held_q q + length (contents inp) + length (contents out)" by (simp add: ps)
  from jitter_body_ok [OF ps i(1,2) assms(3) i(4) assms(4) i(5) this, of st re tm] obtain inp' out' w' q' rng' ds' where
    r: "jitter_body us st re tm (inp, out, w, q, rng) = Inr (inp', out', w', q', rng')" "draws_ok rng'"
      "dq_packets q' = dq_packets q @ ds'" "delays_within tm us ds'"
    and or: "contents inp' = ps \<and> packets_in ds' = [p] \<and> out' = out \<or>
     contents inp' = ps \<and> ds' = [] \<and> re \<and> contents out' = take LINK_MAX_PACKETS (contents out @ [p]) \<or>
     inp' = inp \<and> packets_in ds' = [] \<and> out' = out \<and> dq_full q'"
    by blast
  note inv = jitter_body_inv [OF r(1) i(1,2,3,5)]
  have within: "delays_within tm us (ds @ ds')" using i(11) r(4) by (auto simp: delays_within_def)
  from or consider (queue) "contents inp' = ps" "packets_in ds' = [p]" "out' = out"
    | (pass) "contents inp' = ps" "ds' = []" re "contents out' = take LINK_MAX_PACKETS (contents out @ [p])"
    | (none) "inp' = inp" "packets_in ds' = []" "out' = out" "dq_full q'"
    by blast
  then have "\<exists>ts ds. ins = map fst ts @ contents inp' \<and> (re \<or> passed ts = []) \<and>
        contents out' = take LINK_MAX_PACKETS (outs @ passed ts) \<and>
        dq_packets q' = dq_packets q0 @ ds \<and> packets_in ds = queued ts \<and> delays_within tm us ds"
  proof cases
    case queue
    with i r within ps show ?thesis by (intro exI [of _ "ts @ [(p, False)]"] exI [of _ "ds @ ds'"]) simp
  next
    case pass
    with i r within ps show ?thesis
      by (intro exI [of _ "ts @ [(p, True)]"] exI [of _ "ds @ ds'"]) (simp add: take_take_append)
  next
    case none
    with i r within show ?thesis by (intro exI [of _ ts] exI [of _ "ds @ ds'"]) simp
  qed
  with inv r(2) have "jitter_inv us re tm b ins outs q0 (inp', out', w', q', rng')" by (simp add: jitter_inv_def)
  with r(1) or ps show ?thesis by auto
qed

text \<open>
  C17. \<^verbatim>\<open>JitterApp::push\<close> returns whatever the draws are, and takes packets from the input, in order, until the input is empty or the
  queue is full. Every packet taken is either passed on at once or put at the end of the queue, both in the order of arrival;
  without \<^verbatim>\<open>reorder\<close> all go through the queue, so none overtakes another. The delays put into the queue end within the
  configured jitter. Draws are multiples of \<open>2\<^sup>-\<^sup>5\<^sup>3\<close> below one.
\<close>

theorem jitter_push_orders:
  assumes "ports_ok a i j" and "\<forall>h. link_ok (io_links s h)" and "queue_ok c q" and "draws_ok rng" and "us < 2 ^ 53"
    and "pool_ok (io_world s) (b + held_q q + length (contents (io_links s i)) + length (contents (io_links s j)))"
  shows "\<exists>q' rng' s' ts ds. jitter_push us st re tm q rng a s = Inr (q', rng', s') \<and>
    contents (io_links s i) = map fst ts @ contents (io_links s' i) \<and> (contents (io_links s' i) = [] \<or> dq_full q') \<and>
    (re \<or> passed ts = []) \<and> contents (io_links s' j) = take LINK_MAX_PACKETS (contents (io_links s j) @ passed ts) \<and>
    dq_packets q' = dq_packets q @ ds \<and> packets_in ds = queued ts \<and> delays_within tm us ds"
proof -
  let ?I = "jitter_inv us re tm b (contents (io_links s i)) (contents (io_links s j)) q"
  let ?c = "\<lambda>(inp, out, w, q, rng). \<not> empty inp \<and> \<not> dq_full q"
  let ?m = "\<lambda>(inp, out, w, q, rng). 2 * length (contents inp) + (if dq_full q then 0 else 1)"
  have "\<exists>t. loopR ?c (jitter_body us st re tm) (io_links s i, io_links s j, io_world s, q, rng) = Inr t \<and> ?I t \<and> \<not> ?c t"
  proof (rule loopR_rule [where m = ?m])
    show "?I (io_links s i, io_links s j, io_world s, q, rng)"
      using assms(2-4,6) contents_bound [of "io_links s j"]
      by (simp add: jitter_inv_def queue_ok_def delays_within_def)
    fix x assume x: "?I x" "?c x"
    obtain inp out w q1 rng where xt: "x = (inp, out, w, q1, rng)" by (cases x)
    from x(2) have c: "\<not> empty inp" "\<not> dq_full q1" by (simp_all add: xt)
    from jitter_round [OF x(1) [unfolded xt] c assms(5), of st] obtain y where
      "jitter_body us st re tm x = Inr y" "?I y" "length (contents (fst y)) < length (contents inp) \<or>
        fst y = inp \<and> dq_full (fst (snd (snd (snd y))))"
      by (auto simp: xt)
    then show "\<exists>y. jitter_body us st re tm x = Inr y \<and> ?I y \<and> ?m y < ?m x"
      using c by (intro exI [of _ y]) (auto simp: xt case_prod_unfold)
  qed
  then obtain inp out w q' rng' where l: "loopR ?c (jitter_body us st re tm) (io_links s i, io_links s j, io_world s, q, rng) =
      Inr (inp, out, w, q', rng')" "?I (inp, out, w, q', rng')" "empty inp \<or> dq_full q'"
    by auto
  have ij: "i \<noteq> j" using assms(1) by (simp add: ports_ok_def)
  from l(2) obtain ts ds where "link_ok inp" "contents (io_links s i) = map fst ts @ contents inp" "re \<or> passed ts = []"
    "contents out = take LINK_MAX_PACKETS (contents (io_links s j) @ passed ts)" "dq_packets q' = dq_packets q @ ds"
    "packets_in ds = queued ts" "delays_within tm us ds"
    unfolding jitter_inv_def prod.case by blast
  moreover have "jitter_push us st re tm q rng a s =
      Inr (q', rng', s\<lparr>io_links := (io_links s)(i := inp, j := out), io_world := w\<rparr>)"
    by (simp only: jitter_push_def borrow_io_ok [OF assms(1)] bindR_simps prod.case l(1))
  moreover have "contents inp = [] \<or> dq_full q'" using l(3) ch.is_empty_iff [OF \<open>link_ok inp\<close>] by blast
  ultimately show ?thesis using ij by auto
qed


theorem jitter_push_orders_witness:
  "\<exists>q' rng' s' ts. jitter_push 5000 (Fin (1 / 2)) False 0 (dq_new 10) (\<lambda>_. 0) demo_ports (demo_io new_packet_noroot) = Inr (q', rng', s') \<and>
    (contents (io_links s' 0) = [] \<or> dq_full q') \<and> passed ts = [] \<and> packets_in (dq_packets q') = queued ts"
proof -
  have "ports_ok demo_ports 0 1" "\<forall>h. link_ok (io_links (demo_io new_packet_noroot) h)" "queue_ok 10 (dq_new 10)" "draws_ok (\<lambda>_. 0)"
    "pool_ok (io_world (demo_io new_packet_noroot)) (0 + held_q (dq_new 10) + length (contents (io_links (demo_io new_packet_noroot) 0)) +
      length (contents (io_links (demo_io new_packet_noroot) 1)))"
    using demo_io_ok by (simp_all add: io_ok_def queue_ok_def dq_new_def draws_ok_def)
  from jitter_push_orders [OF this(1-4) _ this(5), of 5000 "Fin (1 / 2)" False 0] show ?thesis
    by (auto simp: dq_new_def)
qed

end
