(* ===== verification/Callbacks_Return.thy ===== *)
theory Callbacks_Return
  imports Reachable Segmentation Jitter
begin

text \<open>
  Total correctness of the callbacks: every \<^verbatim>\<open>pull\<close> and \<^verbatim>\<open>push\<close> of every app returns, without a panic and without running forever, on
  frames that are long enough for the headers they announce, with sockets in working order, room in the delay queue and enough
  packets left in the pool, and it leaves such a state behind.

  The locale \<open>returning\<close> is that contract; it extends \<open>app_callback\<close>, the contract of what a callback that returns
  conserves.
\<close>

declare length_contents [simp del] take_append [simp del]

section \<open>Whole frames\<close>

text \<open>
  A frame is whole if it holds an Ethernet header and, as far as it announces them, an IPv4 header and a TCP or UDP header after
  it.
\<close>

definition whole_frame :: "u8 list \<Rightarrow> bool" where
  "whole_frame f \<longleftrightarrow> ethernet_size \<le> length f \<and>
     (ethertype (eth_of f) = TYPE_IPV4 \<longrightarrow> proto_ofs \<le> length f \<and>
       (ihl (ip_of f) \<le> 5 \<longrightarrow>
         (ip_protocol (ip_of f) = PROTOCOL_TCP \<longrightarrow> proto_ofs + tcp_size \<le> length f) \<and>
         (ip_protocol (ip_of f) = PROTOCOL_UDP \<longrightarrow> proto_ofs + udp_size \<le> length f)))"

definition whole :: "packet \<Rightarrow> bool" where
  "whole p \<longleftrightarrow> whole_frame (frame p)"

lemma long_frame_whole: "54 \<le> length f \<Longrightarrow> whole_frame f"
  by (simp add: whole_frame_def header_sizes)

lemma zero_frame_whole:
  assumes "14 \<le> k"
  shows "whole_frame (replicate k 0)"
proof -
  have "replicate 2 (0 :: u8) = [0, 0]" by (simp add: numeral_2_eq_2)
  then have "ethertype (eth_of (replicate k 0)) = 0"
    using assms by (simp add: header_sizes header_ref_def header_slice_def ethernet_of_bytes_def ethertype_def rd16_def ntohs_def swap_bytes16_def)
  then show ?thesis using assms by (simp add: whole_frame_def header_sizes TYPE_IPV4_def)
qed

lemma whole_iff:
  assumes "packet_ok p"
  shows "whole p \<longleftrightarrow> ethernet_size \<le> unat (p_length p) \<and>
     (ethertype (eth_of (p_data p)) = TYPE_IPV4 \<longrightarrow> proto_ofs \<le> unat (p_length p) \<and>
       (ihl (ip_of (p_data p)) \<le> 5 \<longrightarrow>
         (protocol_of p = PROTOCOL_TCP \<longrightarrow> proto_ofs + tcp_size \<le> unat (p_length p)) \<and>
         (protocol_of p = PROTOCOL_UDP \<longrightarrow> proto_ofs + udp_size \<le> unat (p_length p))))"
proof -
  have len: "length (frame p) = unat (p_length p)" using length_le_data [OF assms] by (simp add: frame_def)
  have "ethernet_size \<le> unat (p_length p) \<Longrightarrow> eth_of (frame p) = eth_of (p_data p)"
    and "proto_ofs \<le> unat (p_length p) \<Longrightarrow> ip_of (frame p) = ip_of (p_data p)"
    by (simp_all add: frame_def header_ref_take proto_ofs_def)
  then show ?thesis unfolding whole_def whole_frame_def len by auto
qed

lemma whole_l4_complete: "packet_ok p \<Longrightarrow> whole p \<Longrightarrow> l4_complete p"
  by (auto simp: whole_iff l4_complete_def plain_ipv4_def)

text \<open>The offload apps keep frames whole.\<close>

lemma filled_whole:
  assumes "packet_ok p" and "whole p"
  shows "whole (filled p)"
proof -
  have ok: "packet_ok (filled p)" by (rule filled_ok [OF assms(1) whole_l4_complete [OF assms]])
  have "p_length (filled p) = p_length p" "eth_of (p_data (filled p)) = eth_of (p_data p)" "ip_of (p_data (filled p)) = ip_of (p_data p)"
    by (simp_all add: filled_def tcp_filled_def udp_filled_def ip_of_put [OF assms(1)])
  then show ?thesis using assms(2) by (simp add: whole_iff [OF ok] whole_iff [OF assms(1)])
qed

lemma tsd_frames_whole:
  assumes "packet_ok p" and "whole p" and "0 < mss" and "f \<in> set (tsd_frames mss p)"
  shows "whole_frame f"
proof (cases "segmentable mss p")
  case True
  obtain k where k: "k < length (tsd_frames mss p)" "f = tsd_frames mss p ! k" using assms(4) by (metis in_set_conv_nth)
  have "54 \<le> length f"
    using tsd_frame_length(1) [OF assms(1) True assms(3) k(1)] segmentable_ofs(2) [OF True] by (simp add: k(2))
  then show ?thesis by (rule long_frame_whole)
next
  case False
  then show ?thesis using assms(2,4) by (simp add: tsd_frames_def whole_def)
qed

section \<open>Frame types\<close>

text \<open>
  A type for every link: a predicate that the frames on it satisfy. \<open>flows_typed\<close> is the typing rule of each app: what it takes from its inputs and
  what it makes of it has the types of its outputs.
\<close>

type_synonym frame_types = "nat \<Rightarrow> u8 list \<Rightarrow> bool"

definition typed_links :: "frame_types \<Rightarrow> io \<Rightarrow> bool" where
  "typed_links T s \<longleftrightarrow> (\<forall>h. \<forall>p \<in> set (contents (io_links s h)). T h (frame p))"

definition flows_typed :: "frame_types \<Rightarrow> conf \<Rightarrow> ports \<Rightarrow> bool" where
  "flows_typed T c a \<longleftrightarrow>
     (\<forall>j \<in> snd ` set (app_output a). \<forall>i \<in> snd ` set (app_input a).
       (case c of
          Source sz \<Rightarrow> True
        | Sink \<Rightarrow> True
        | RawSocket _ \<Rightarrow> True
        | conf.Checksum \<Rightarrow> \<forall>p. packet_ok p \<longrightarrow> T i (frame p) \<longrightarrow> whole p \<and> T j (frame (filled p))
        | TSD mss \<Rightarrow> \<forall>p. packet_ok p \<longrightarrow> T i (frame p) \<longrightarrow> list_all (T j) (tsd_frames mss p)
        | _ \<Rightarrow> \<forall>f. T i f \<longrightarrow> T j f)) \<and>
     (case c of Source sz \<Rightarrow> \<forall>j \<in> snd ` set (app_output a). T j (replicate (unat sz) 0) | _ \<Rightarrow> True)"

text \<open>The types of the ports named \<open>output\<close> and \<open>input\<close>.\<close>

definition out_type :: "frame_types \<Rightarrow> ports \<Rightarrow> u8 list \<Rightarrow> bool" where
  "out_type T a f = (case map_of (app_output a) ''output'' of Some j \<Rightarrow> T j f | None \<Rightarrow> True)"

definition in_type :: "frame_types \<Rightarrow> ports \<Rightarrow> u8 list \<Rightarrow> bool" where
  "in_type T a f = (case map_of (app_input a) ''input'' of Some i \<Rightarrow> T i f | None \<Rightarrow> False)"

section \<open>The pool\<close>

definition in_use :: "io \<Rightarrow> nat" where
  "in_use s = PACKETS_ALLOCATED (io_world s) - length (FL (io_world s))"

lemma in_use_eq: "io_ok s n \<Longrightarrow> in_use s = n"
  by (auto simp: io_ok_def pool_ok_def in_use_def)

lemma ledger_io_ok:
  assumes "ledger H b s"
  shows "io_ok s (in_use s)" "in_use s = b + (\<Sum>h \<in> H. length (contents (io_links s h)))"
proof -
  have "io_ok s (b + (\<Sum>h \<in> H. length (contents (io_links s h))))" using assms by (simp add: ledger_def io_ok_def)
  then show "io_ok s (in_use s)" "in_use s = b + (\<Sum>h \<in> H. length (contents (io_links s h)))" using in_use_eq by simp_all
qed

lemma ledger_lists:
  assumes "ledger H b s" and "finite H" and "set hs \<subseteq> H" and "distinct hs"
  shows "b + sum_list (map (\<lambda>h. length (contents (io_links s h))) hs) \<le> in_use s"
proof -
  have "sum_list (map (\<lambda>h. length (contents (io_links s h))) hs) = (\<Sum>h \<in> set hs. length (contents (io_links s h)))"
    by (rule sum_list_distinct_conv_sum_set [OF assms(4)])
  also have "\<dots> \<le> (\<Sum>h \<in> H. length (contents (io_links s h)))" by (rule sum_mono2 [OF assms(2,3)]) simp
  finally show ?thesis using ledger_io_ok(2) [OF assms(1)] by simp
qed

text \<open>What a callback does to links, packets and pool.\<close>

definition steady :: "frame_types \<Rightarrow> io \<Rightarrow> io \<Rightarrow> nat \<Rightarrow> bool" where
  "steady T s s' k \<longleftrightarrow> io_ok s' (in_use s') \<and> typed_links T s' \<and> in_use s' \<le> in_use s + k"

lemma steadyI: "io_ok s' n' \<Longrightarrow> typed_links T s' \<Longrightarrow> io_ok s n \<Longrightarrow> n' \<le> n + k \<Longrightarrow> steady T s s' k"
  using in_use_eq by (fastforce simp: steady_def)

section \<open>Apps that handle one packet at a time\<close>

context packet_app
begin

lemma emitted_all:
  assumes "\<forall>p \<in> set ps. Q p" and "\<And>qs p v. Q p \<Longrightarrow> v \<in> set (emit (foldl nxt x qs) p) \<Longrightarrow> V v"
  shows "\<forall>v \<in> set (emitted emit nxt x ps). V v"
  using assms
proof (induction ps arbitrary: x)
  case (Cons p ps)
  have "V v" if "v \<in> set (emit x p)" for v using Cons.prems(2) [of p v "[]"] Cons.prems(1) that by simp
  moreover have "\<forall>v \<in> set (emitted emit nxt (nxt x p) ps). V v"
    by (rule Cons.IH) (use Cons.prems(1) Cons.prems(2) [of _ _ "p # qs" for qs] in auto)
  ultimately show ?case by auto
qed simp

lemma emitted_length:
  "(\<And>x p. length (emit x p) \<le> 1) \<Longrightarrow> length (emitted emit nxt x ps) \<le> length ps"
proof (induction ps arbitrary: x)
  case (Cons p ps)
  then show ?case using add_mono [OF Cons.prems [of x p] Cons.IH] by simp
qed simp

text \<open>A callback on typed links; \<open>V\<close> is the type of the output, on views.\<close>

lemma push_steady:
  assumes "ports_ok a i j" and "ledger H b s" and "finite H" and "handles a \<subseteq> H" and "okx x" and "typed_links T s"
    and view: "\<And>p. V (view p) \<longleftrightarrow> T j (frame p)"
    and okp: "\<And>p. packet_ok p \<Longrightarrow> T i (frame p) \<Longrightarrow> okp p"
    and keep: "\<And>qs p v. packet_ok p \<and> T i (frame p) \<Longrightarrow> v \<in> set (emit (foldl nxt x qs) p) \<Longrightarrow> V v"
    and grow: "(\<forall>x p. length (emit x p) \<le> 1) \<or> LINK_MAX_PACKETS \<le> k"
    and pool: "extra = 0 \<or> in_use s + LINK_MAX_PACKETS + extra \<le> pool_max"
  shows "\<exists>s'. push_through step a x s = Inr (foldl nxt x (contents (io_links s i)), s') \<and> steady T s s' k"
proof -
  let ?ps = "contents (io_links s i)" and ?n = "in_use s"
  have io: "io_ok s ?n" by (rule ledger_io_ok(1) [OF assms(2)])
  have "i \<in> H" using assms(1,4) handles_lookup(1) by (auto simp: ports_ok_def)
  then have le: "length ?ps \<le> ?n" using ledger_lists [OF assms(2,3), of "[i]"] by simp
  have ps: "\<forall>p \<in> set ?ps. okp p \<and> packet_ok p \<and> T i (frame p)"
    using okp link_okD(5) [OF io_okD(1) [OF io], of _ i] assms(6) by (auto simp: typed_links_def)
  then have "\<forall>p \<in> set ?ps. okp p" by blast
  from push_ok [OF assms(1) io assms(5) this pool le] obtain s' n' where
    r: "push_through step a x s = Inr (foldl nxt x ?ps, s')" "io_ok s' n'" "contents (io_links s' i) = []"
      "map view (contents (io_links s' j)) =
        take LINK_MAX_PACKETS (map view (contents (io_links s j)) @ emitted emit nxt x ?ps)"
      "\<forall>k. k \<noteq> i \<longrightarrow> k \<noteq> j \<longrightarrow> io_links s' k = io_links s k"
      "n' + length ?ps + length (contents (io_links s j)) = ?n + length (contents (io_links s' j))"
    by blast
  have em: "\<forall>v \<in> set (emitted emit nxt x ?ps). V v"
    using emitted_all [of ?ps "\<lambda>p. packet_ok p \<and> T i (frame p)" x V] ps keep by blast
  have out: "\<forall>p \<in> set (contents (io_links s' j)). T j (frame p)"
  proof
    fix p assume "p \<in> set (contents (io_links s' j))"
    then have "view p \<in> set (map view (contents (io_links s' j)))" by simp
    then have "view p \<in> view ` set (contents (io_links s j)) \<union> set (emitted emit nxt x ?ps)"
      unfolding r(4) by (auto dest: in_set_takeD)
    then show "T j (frame p)" using em assms(6) unfolding typed_links_def by (metis Un_iff imageE view)
  qed
  have "typed_links T s'"
    unfolding typed_links_def
  proof (intro allI)
    fix h show "\<forall>p \<in> set (contents (io_links s' h)). T h (frame p)"
      using out r(3,5) assms(6) by (cases "h = i"; cases "h = j") (auto simp: typed_links_def)
  qed
  moreover have "n' \<le> ?n + k"
  proof (cases "LINK_MAX_PACKETS \<le> k")
    case True
    then show ?thesis using r(6) contents_bound [OF io_okD(1) [OF r(2)], of j] by simp
  next
    case False
    then have "length (emitted emit nxt x ?ps) \<le> length ?ps" using grow emitted_length by blast
    then have "length (contents (io_links s' j)) \<le> length (contents (io_links s j)) + length ?ps"
      using arg_cong [OF r(4), of length] by simp
    then show ?thesis using r(6) by simp
  qed
  ultimately show ?thesis using r(1) steadyI [OF r(2) _ io] by blast
qed

end

lemma typed_links_from:
  assumes "typed_links T s" and "\<And>h p. p \<in> set (contents (io_links s' h)) \<Longrightarrow>
    T h (frame p) \<or> (\<exists>q. q \<in> set (contents (io_links s h)) \<and> frame q = frame p)"
  shows "typed_links T s'"
  using assms unfolding typed_links_def by metis

lemma typed_linksD: "typed_links T s \<Longrightarrow> p \<in> set (contents (io_links s h)) \<Longrightarrow> T h (frame p)"
  by (simp add: typed_links_def)

lemma frames_from:
  assumes "map frame (contents l') = take k (map frame (contents l) @ fs)" and "p \<in> set (contents l')"
  shows "(\<exists>q \<in> set (contents l). frame q = frame p) \<or> frame p \<in> set fs"
proof -
  have "frame p \<in> set (map frame (contents l'))" using assms(2) by simp
  then have "frame p \<in> frame ` set (contents l) \<union> set fs" unfolding assms(1) by (auto dest: in_set_takeD)
  then show ?thesis by auto
qed

section \<open>Sockets\<close>

text \<open>
  The documented behaviour of a socket, in the states of the network that satisfy \<open>good\<close>: \<^verbatim>\<open>select\<close> tells whether a frame can be read or
  written; a read that it announced returns one frame, not empty, of the type \<open>R\<close>, and a write that it announced takes all of the
  frame, if that is of the type \<open>W\<close>.
\<close>

definition socket_works :: "'n os \<Rightarrow> ('n \<Rightarrow> bool) \<Rightarrow> (u8 list \<Rightarrow> bool) \<Rightarrow> (u8 list \<Rightarrow> bool) \<Rightarrow> i32 \<Rightarrow> bool" where
  "socket_works os good R W sock \<longleftrightarrow>
     (\<forall>net. good net \<longrightarrow>
       (\<exists>ready err net'. os_select_read os sock net = (ready, err, net') \<and> ready \<in> {0, 1} \<and> good net' \<and>
         (ready = 1 \<longrightarrow> (\<exists>f net''. os_read os sock PAYLOAD_SIZE net' = (int (length f), f, net'') \<and>
            0 < length f \<and> length f \<le> PAYLOAD_SIZE \<and> R f \<and> good net''))) \<and>
       (\<exists>ready err net'. os_select_write os sock net = (ready, err, net') \<and> ready \<in> {0, 1} \<and> good net' \<and>
         (ready = 1 \<longrightarrow> (\<forall>f. W f \<longrightarrow> (\<exists>net''. os_write os sock f net' = (int (length f), net'') \<and> good net'')))))"

lemma select_loop_done: "sel net = (ready, err, net') \<Longrightarrow> ready \<noteq> - 1 \<Longrightarrow> select_loop sel net = Inr (ready = 1, net')"
  by (simp add: select_loop_def)

lemma can_receive_returns:
  assumes "socket_works os good R W sock" and "good net"
  obtains b net' where "can_receive os sock net = Inr (b, net')" "good net'"
    "b \<Longrightarrow> \<exists>f net''. os_read os sock PAYLOAD_SIZE net' = (int (length f), f, net'') \<and>
            0 < length f \<and> length f \<le> PAYLOAD_SIZE \<and> R f \<and> good net''"
proof -
  from assms(1) [unfolded socket_works_def, THEN spec, THEN mp, OF assms(2), THEN conjunct1] obtain ready err net' where r: "os_select_read os sock net = (ready, err, net')" "ready \<in> {0, 1}" "good net'"
    "ready = 1 \<longrightarrow> (\<exists>f net''. os_read os sock PAYLOAD_SIZE net' = (int (length f), f, net'') \<and>
            0 < length f \<and> length f \<le> PAYLOAD_SIZE \<and> R f \<and> good net'')"
    by (elim exE conjE) (rule that)
  have "can_receive os sock net = Inr (ready = 1, net')" 
    unfolding can_receive_def using r(2) by (intro select_loop_done [of "os_select_read os sock", OF r(1)]) auto
  with that r(3,4) show thesis by blast
qed

lemma can_transmit_returns:
  assumes "socket_works os good R W sock" and "good net"
  obtains b net' where "can_transmit os sock net = Inr (b, net')" "good net'"
    "b \<Longrightarrow> \<forall>f. W f \<longrightarrow> (\<exists>net''. os_write os sock f net' = (int (length f), net'') \<and> good net'')"
proof -
  from assms(1) [unfolded socket_works_def, THEN spec, THEN mp, OF assms(2), THEN conjunct2] obtain ready err net' where r: "os_select_write os sock net = (ready, err, net')" "ready \<in> {0, 1}" "good net'"
    "ready = 1 \<longrightarrow> (\<forall>f. W f \<longrightarrow> (\<exists>net''. os_write os sock f net' = (int (length f), net'') \<and> good net''))"
    by (elim exE conjE) (rule that)
  have "can_transmit os sock net = Inr (ready = 1, net')" 
    unfolding can_transmit_def using r(2) by (intro select_loop_done [of "os_select_write os sock", OF r(1)]) auto
  with that r(3,4) show thesis by blast
qed

lemma sock_receive_returns:
  assumes "os_read os sock PAYLOAD_SIZE net = (int (length f), f, net')" and "0 < length f" "length f \<le> PAYLOAD_SIZE"
    and "pool_ok w n" and "n < pool_max"
  shows "\<exists>p w'. sock_receive os sock (w, net) = Inr (p, w', net') \<and> packet_ok p \<and> frame p = f \<and> pool_ok w' (Suc n)"
proof -
  obtain p w' where p: "allocate w = Inr (p, w')" "packet_ok p" "pool_ok w' (Suc n)"
    using allocate_ok [OF assms(4,5)] by blast
  have "unat (of_nat (length f) :: u16) = length f"
    using assms(3) by (intro unat_of_nat_small) (simp add: PAYLOAD_SIZE_def)
  then show ?thesis
    using p assms(1-3) by (simp add: sock_receive_def Let_def packet_ok_def frame_def take_append)
qed

lemma rawsocket_pull_loop_returns:
  assumes "socket_works os good R W sock" and "good net" and "link_ok out" and "pool_ok w n"
    and "n + (LINK_MAX_PACKETS - length (contents out)) < pool_max" and "\<forall>p \<in> set (contents out). R (frame p)"
  shows "\<exists>out' w' net' n'. rawsocket_pull_loop os sock k (out, w, net) = Inr (out', w', net') \<and> link_ok out' \<and> good net' \<and>
    (\<forall>p \<in> set (contents out'). R (frame p)) \<and> pool_ok w' n' \<and> n' + length (contents out) = n + length (contents out')"
  using assms(2-)
proof (induction k arbitrary: out w net n)
  case (Suc k)
  from can_receive_returns [OF assms(1) Suc.prems(1)] obtain b net1 where
    c: "can_receive os sock net = Inr (b, net1)" "good net1" "b \<Longrightarrow> \<exists>f net''. os_read os sock PAYLOAD_SIZE net1 = (int (length f), f, net'') \<and>
            0 < length f \<and> length f \<le> PAYLOAD_SIZE \<and> R f \<and> good net''"
    by blast
  show ?case
  proof (cases b)
    case True
    with c(3) obtain f net2 where
      f: "os_read os sock PAYLOAD_SIZE net1 = (int (length f), f, net2)" "0 < length f" "length f \<le> PAYLOAD_SIZE" "R f" "good net2"
      by blast
    have n: "n < pool_max" using Suc.prems(4) by simp
    from sock_receive_returns [OF f(1-3) Suc.prems(3) n] obtain p w1 where
      p: "sock_receive os sock (w, net1) = Inr (p, w1, net2)" "packet_ok p" "frame p = f" "pool_ok w1 (Suc n)"
      by blast
    from ch.send_ok [OF Suc.prems(2) p(2,4)] obtain out1 w2 n1 where
      t: "transmit out p w1 = Inr (out1, w2)" "link_ok out1"
         "contents out1 = take LINK_MAX_PACKETS (contents out @ [p])" "pool_ok w2 n1"
         "n1 + length (contents out) + 1 = Suc n + length (contents out1)"
      by blast
    have "length (contents out) \<le> length (contents out1)" "length (contents out1) \<le> LINK_MAX_PACKETS"
      using contents_bound [OF Suc.prems(2)] by (simp_all add: t(3) take_append)
    then have "n1 + (LINK_MAX_PACKETS - length (contents out1)) < pool_max" using Suc.prems(4) t(5) by linarith
    moreover have "\<forall>p \<in> set (contents out1). R (frame p)"
      using Suc.prems(5) f(4) p(3) set_take_subset [of LINK_MAX_PACKETS "contents out @ [p]"] unfolding t(3) by auto
    ultimately obtain out' w' net' n' where
      r: "rawsocket_pull_loop os sock k (out1, w2, net2) = Inr (out', w', net')" "link_ok out'" "good net'"
        "\<forall>p \<in> set (contents out'). R (frame p)" "pool_ok w' n'" "n' + length (contents out1) = n1 + length (contents out')"
      using Suc.IH [OF f(5) t(2,4)] by blast
    moreover have "rawsocket_pull_loop os sock (Suc k) (out, w, net) = Inr (out', w', net')"
      using c(1) True p(1) t(1) r(1) by simp
    moreover have "n' + length (contents out) = n + length (contents out')" using r(6) t(5) by linarith
    ultimately show ?thesis by blast
  qed (use c Suc.prems in auto)
qed auto

lemma rawsocket_push_loop_returns:
  assumes "socket_works os good R W sock" and "good net" and "link_ok inp" and "pool_ok w (n + length (contents inp))"
    and "\<forall>p \<in> set (contents inp). W (frame p)"
  shows "\<exists>inp' w' net'. rawsocket_push_loop os sock (inp, w, net) = Inr (inp', w', net') \<and> link_ok inp' \<and> good net' \<and>
    pool_ok w' (n + length (contents inp')) \<and> length (contents inp') \<le> length (contents inp) \<and> set (contents inp') \<subseteq> set (contents inp)"
  using assms(2-)
proof (induction "contents inp" arbitrary: inp w net)
  case Nil
  then have "empty inp" using ch.is_empty_iff by simp
  then show ?case using Nil by (simp add: rawsocket_push_loop_def push_ready_def)
next
  case (Cons p ps)
  obtain inp1 where i: "receive inp = Inr (p, inp1)" "link_ok inp1" "contents inp1 = ps"
    using ch.recv_first [OF Cons.prems(2) Cons.hyps(2) [symmetric]] by blast
  have ne: "\<not> empty inp" using ch.is_empty_iff [OF Cons.prems(2)] Cons.hyps(2) by auto
  have ok: "packet_ok p" using link_okD(5) [OF Cons.prems(2), of p] Cons.hyps(2) [symmetric] by simp
  have pool: "pool_ok w (Suc (n + length ps))" using Cons.prems(3) Cons.hyps(2) [symmetric] by simp
  from can_transmit_returns [OF assms(1) Cons.prems(1)] obtain b net1 where
    c: "can_transmit os sock net = Inr (b, net1)" "good net1" "b \<Longrightarrow> \<forall>f. W f \<longrightarrow> (\<exists>net''. os_write os sock f net1 = (int (length f), net'') \<and> good net'')"
    by blast
  show ?case
  proof (cases b)
    case True
    have "W (frame p)" "\<forall>p \<in> set (contents inp1). W (frame p)" using Cons.prems(4) Cons.hyps(2) [symmetric] i(3) by simp_all
    with True c(3) obtain net2 where n2: "os_write os sock (frame p) net1 = (int (length (frame p)), net2)" "good net2" by blast
    have "length (frame p) = unat (p_length p)" using length_le_data [OF ok] by (simp add: frame_def)
    then have t: "sock_transmit os sock p (w, net1) = Inr (freed p w, net2)"
      using n2(1) free_ok [OF pool, of p] by (simp add: sock_transmit_def frame_def [symmetric])
    have step: "rawsocket_push_loop os sock (inp, w, net) = rawsocket_push_loop os sock (inp1, freed p w, net2)"
      using ne i(1) t c(1) True
      by (cases "push_ready os sock inp1 net2") (auto simp: rawsocket_push_loop_def push_ready_def)
    have "pool_ok (freed p w) (n + length (contents inp1))" using freed_pool_ok [OF pool ok] i(3) by simp
    from Cons.hyps(1) [OF i(3) [symmetric] n2(2) i(2) this \<open>\<forall>p \<in> set (contents inp1). W (frame p)\<close>] show ?thesis
      unfolding step Cons.hyps(2) [symmetric] i(3) by fastforce
  next
    case False
    then have "rawsocket_push_loop os sock (inp, w, net) = Inr (inp, w, net1)"
      using ne c(1) by (simp add: rawsocket_push_loop_def push_ready_def)
    then show ?thesis using Cons.prems c(2) by auto
  qed
qed

section \<open>Delay queues\<close>

text \<open>Every delay is followed by a packet, all packets have the type \<open>V\<close> of the output, and the capacity is kept to.\<close>

definition queue_fit :: "(u8 list \<Rightarrow> bool) \<Rightarrow> delay_queue \<Rightarrow> bool" where
  "queue_fit V q \<longleftrightarrow> delays_ok (dq_packets q) \<and> (\<forall>p \<in> set (packets_in (dq_packets q)). V (frame p)) \<and>
     length (dq_packets q) \<le> dq_capacity q"

text \<open>Room for everything that one \<^verbatim>\<open>push\<close> can put into the queue: two entries for each packet of a full link.\<close>

definition queue_room :: "delay_queue \<Rightarrow> bool" where
  "queue_room q \<longleftrightarrow> length (dq_packets q) + 2 * LINK_MAX_PACKETS \<le> dq_capacity q"

lemma stamped_packets_in: "map snd (stamped t ds) = packets_in ds"
  by (induction t ds rule: stamped.induct) simp_all

lemma held_packets_in: "held_in_queue ds = length (packets_in ds)"
  by (induction ds rule: packets_in.induct) simp_all

lemma release_parts: "packets_in ds = released tm ds @ packets_in (release tm ds)" "length (release tm ds) \<le> length ds"
  by (induction ds rule: packets_in.induct) auto

lemma packets_in_packets [simp]: "packets_in (map Packet ps) = ps"
  by (induction ps) simp_all

lemma delay_pull_returns:
  assumes "map_of (app_output a) ''output'' = Some j" and "ledger H (b + held_q q) s" and "queue_fit (T j) q" and "typed_links T s"
  shows "\<exists>q' s'. delay_pull tm q a s = Inr (q', s') \<and> steady T s s' 0 \<and> queue_fit (T j) q' \<and> (queue_room q \<longrightarrow> queue_room q')"
proof -
  note io = ledger_io_ok [OF assms(2)]
  have d: "delays_ok (dq_packets q)" using assms(3) by (simp add: queue_fit_def)
  have le: "length (released tm (dq_packets q)) \<le> in_use s"
    using arg_cong [OF release_parts(1) [of "dq_packets q" tm], of length] io(2) by (simp add: held_packets_in)
  from pull_loop_ok [OF d io_okD [OF io(1)] le, of j] obtain out' w' n' where
    p: "pull_loop tm q (io_links s j) (io_world s) = Inr (q\<lparr>dq_packets := release tm (dq_packets q)\<rparr>, out', w')"
      "link_ok out'" "contents out' = take LINK_MAX_PACKETS (contents (io_links s j) @ released tm (dq_packets q))" "pool_ok w' n'"
      "n' + length (contents (io_links s j)) + length (released tm (dq_packets q)) = in_use s + length (contents out')"
    by blast
  let ?q = "q\<lparr>dq_packets := release tm (dq_packets q)\<rparr>"
  let ?s = "s\<lparr>io_links := (io_links s)(j := out'), io_world := w'\<rparr>"
  have parts: "set (packets_in (dq_packets q)) = set (released tm (dq_packets q)) \<union> set (packets_in (release tm (dq_packets q)))"
    by (subst release_parts(1) [of _ tm]) simp
  have "length (contents out') \<le> length (contents (io_links s j)) + length (released tm (dq_packets q))" by (simp add: p(3))
  then have "n' \<le> in_use s + 0" using p(5) by linarith
  moreover have "typed_links T ?s"
    using assms(3,4) parts set_take_subset [of LINK_MAX_PACKETS "contents (io_links s j) @ released tm (dq_packets q)"]
    by (auto simp: typed_links_def queue_fit_def p(3))
  moreover have "io_ok ?s n'" using io(1) p(2,4) by (simp add: io_ok_def)
  ultimately have "steady T s ?s 0" using steadyI io(1) by blast
  moreover have "queue_fit (T j) ?q" using assms(3) parts delays_ok_release [OF d] release_parts(2) [of tm "dq_packets q"] by (auto simp: queue_fit_def)
  moreover have "queue_room q \<longrightarrow> queue_room ?q" using release_parts(2) [of tm "dq_packets q"] by (auto simp: queue_room_def)
  moreover have "delay_pull tm q a s = Inr (?q, ?s)" using assms(1) p(1) by (simp add: delay_pull_def)
  ultimately show ?thesis by blast
qed

lemma latency_push_returns:
  assumes "map_of (app_input a) ''input'' = Some i" and "ledger H b s" and "queue_fit V q" and "queue_room q" and "typed_links T s"
    and "\<And>f. T i f \<Longrightarrow> V f"
  shows "\<exists>q' s'. latency_push ms tm q a s = Inr (q', s') \<and> steady T s s' 0 \<and> queue_fit V q'"
proof -
  note io = ledger_io_ok(1) [OF assms(2)]
  have "contents (io_links s i) = [] \<or> length (dq_packets q) + 2 \<le> dq_capacity q"
    using assms(4) by (simp add: queue_room_def LINK_MAX_PACKETS_def LINK_RING_SIZE_def)
  from latency_push_ok [OF assms(1) io _ this, of ms tm] assms(3) obtain k q' s' where
    r: "latency_push ms tm q a s = Inr (q', s')" "delays_ok (dq_packets q')"
      "stamped 0 (dq_packets q') = stamped 0 (dq_packets q) @ map (Pair (tm + unat ms * 1000000)) (take k (contents (io_links s i)))"
      "contents (io_links s' i) = drop k (contents (io_links s i))" "io_ok s' (in_use s)"
      "\<forall>j. j \<noteq> i \<longrightarrow> io_links s' j = io_links s j" "length (dq_packets q') \<le> dq_capacity q'"
    by (auto simp: queue_fit_def)
  have "packets_in (dq_packets q') = packets_in (dq_packets q) @ take k (contents (io_links s i))"
    using arg_cong [OF r(3), of "map snd"] by (simp add: stamped_packets_in comp_def)
  then have "queue_fit V q'"
    using r(2,7) assms(3,6) typed_linksD [OF assms(5)] set_take_subset [of k "contents (io_links s i)"] by (auto simp: queue_fit_def)
  moreover have "typed_links T s'"
  proof (rule typed_links_from [OF assms(5)])
    fix h p assume "p \<in> set (contents (io_links s' h))"
    then have "p \<in> set (contents (io_links s h))" using r(4,6) by (cases "h = i") (auto dest: in_set_dropD)
    then show "T h (frame p) \<or> (\<exists>q. q \<in> set (contents (io_links s h)) \<and> frame q = frame p)" by blast
  qed
  ultimately show ?thesis using r(1) steadyI [OF r(5) _ io] by auto
qed

text \<open>One round of \<^verbatim>\<open>JitterApp::push\<close> with room for two entries takes a packet from the input.\<close>

lemma jitter_body_takes:
  assumes "contents inp = p # ps" and "link_ok inp" and "link_ok out" and "length (dq_packets q) + 2 \<le> dq_capacity q" and "pool_ok w (Suc n)"
  shows "\<exists>inp' out' w' q' rng' ds n'. jitter_body us st re tm (inp, out, w, q, rng) = Inr (inp', out', w', q', rng') \<and>
    link_ok inp' \<and> contents inp' = ps \<and> link_ok out' \<and> set (contents out') \<subseteq> insert p (set (contents out)) \<and>
    dq_packets q' = dq_packets q @ ds \<and> dq_capacity q' = dq_capacity q \<and> length ds \<le> 2 \<and> delays_ok ds \<and> set (packets_in ds) \<subseteq> {p} \<and>
    pool_ok w' n' \<and> n' \<le> Suc n \<and> n \<le> n'"
proof -
  obtain d rng1 where g: "gen_f64 rng = (d, rng1)" by fastforce
  obtain e rng2 where g2: "gen_f64 rng1 = (e, rng2)" by fastforce
  obtain inp' where r: "receive inp = Inr (p, inp')" "link_ok inp'" "contents inp' = ps"
    using ch.recv_first [OF assms(2,1)] by blast
  have p: "packet_ok p" using link_okD(5) [OF assms(2), of p] assms(1) by simp
  have room: "\<not> dq_full q" "\<not> dq_full (q\<lparr>dq_packets := dq_packets q @ [x]\<rparr>)" for x using assms(4) by (simp_all add: dq_full_def)
  show ?thesis
  proof (cases "f64_lt (draw_val d) st")
    case True
    let ?ds = "[Delay (tm + jitter_amount us e * 1000), Packet p]"
    have "jitter_body us st re tm (inp, out, w, q, rng) = Inr (inp', out, w, q\<lparr>dq_packets := dq_packets q @ ?ds\<rparr>, rng2)"
      using room by (simp add: jitter_body_def g g2 True Let_def r(1) enqueue_delay_def enqueue_packet_def)
    then show ?thesis using r(2,3) assms(3,5) p by fastforce
  next
    case no: False
    show ?thesis
    proof (cases re)
      case True
      from ch.send_ok [OF assms(3) p assms(5)] obtain out' w' n' where
        t: "transmit out p w = Inr (out', w')" "link_ok out'" "contents out' = take LINK_MAX_PACKETS (contents out @ [p])"
          "pool_ok w' n'" "n' + length (contents out) + 1 = Suc n + length (contents out')"
        by blast
      have "jitter_body us st re tm (inp, out, w, q, rng) = Inr (inp', out', w', q, rng1)"
        by (simp add: jitter_body_def g no True Let_def r(1) t(1))
      moreover have "n' \<le> Suc n" "n \<le> n'"
        using t(5) contents_bound [OF assms(3)] by (simp_all add: t(3) take_append)
      moreover have "set (contents out') \<subseteq> insert p (set (contents out))"
        using set_take_subset [of LINK_MAX_PACKETS "contents out @ [p]"] by (auto simp: t(3))
      moreover have "dq_packets q = dq_packets q @ []" "delays_ok []" "set (packets_in []) \<subseteq> {p}" "length ([] :: delayed_packet list) \<le> 2" by simp_all
      ultimately show ?thesis using r(2,3) t(2,4) by blast
    next
      case False
      have "jitter_body us st re tm (inp, out, w, q, rng) = Inr (inp', out, w, q\<lparr>dq_packets := dq_packets q @ [Packet p]\<rparr>, rng1)"
        using room by (simp add: jitter_body_def g no False Let_def r(1) enqueue_packet_def)
      then show ?thesis using r(2,3) assms(3,5) p by fastforce
    qed
  qed
qed

lemma queue_fit_append:
  "queue_fit V q \<Longrightarrow> delays_ok ds \<Longrightarrow> \<forall>p \<in> set (packets_in ds). V (frame p) \<Longrightarrow> dq_packets q' = dq_packets q @ ds \<Longrightarrow>
   length (dq_packets q') \<le> dq_capacity q' \<Longrightarrow> queue_fit V q'"
  by (auto simp: queue_fit_def delays_ok_append)

lemma jitter_push_returns:
  assumes "ports_ok a i j" and "ledger H b s" and "finite H" and "handles a \<subseteq> H" and "queue_fit (T j) q" and "queue_room q"
    and "typed_links T s" and "\<And>f. T i f \<Longrightarrow> T j f"
  shows "\<exists>q' rng' s'. jitter_push us st re tm q rng a s = Inr (q', rng', s') \<and> steady T s s' 0 \<and> queue_fit (T j) q'"
proof -
  note io = ledger_io_ok(1) [OF assms(2)]
  let ?c = "\<lambda>(inp, out, w, q, rng). \<not> empty inp \<and> \<not> dq_full q"
  let ?I = "\<lambda>(inp, out, w, q, rng :: rng). link_ok inp \<and> link_ok out \<and> (\<forall>p \<in> set (contents inp). T i (frame p)) \<and> (\<forall>p \<in> set (contents out). T j (frame p)) \<and>
    queue_fit (T j) q \<and> length (dq_packets q) + 2 * length (contents inp) \<le> dq_capacity q \<and>
    (\<exists>n. pool_ok w n \<and> n \<le> in_use s \<and> length (contents inp) \<le> n)"
  have ij: "i \<noteq> j" "i \<in> H" using assms(1,4) handles_lookup(1) by (auto simp: ports_ok_def)
  have "\<exists>t. loopR ?c (jitter_body us st re tm) (io_links s i, io_links s j, io_world s, q, rng) = Inr t \<and> ?I t \<and> \<not> ?c t"
  proof (rule loopR_rule [where m = "\<lambda>(inp, out, w, q, rng :: rng). length (contents inp)"])
    have "length (contents (io_links s i)) \<le> in_use s" using ledger_lists [OF assms(2,3), of "[i]"] ij by simp
    moreover have "length (contents (io_links s i)) \<le> LINK_MAX_PACKETS" using contents_bound [OF io_okD(1) [OF io]] .
    ultimately show "?I (io_links s i, io_links s j, io_world s, q, rng)"
      using io assms(5-7) by (auto simp: io_ok_def typed_links_def queue_room_def)
  next
    fix x assume x: "?I x" "?c x"
    obtain inp out w q1 rng where xt: "x = (inp, out, w, q1, rng)" by (cases x)
    from x(1) obtain n where I: "link_ok inp" "link_ok out" "\<forall>p \<in> set (contents inp). T i (frame p)" "queue_fit (T j) q1"
      "length (dq_packets q1) + 2 * length (contents inp) \<le> dq_capacity q1" "pool_ok w n" "n \<le> in_use s" "length (contents inp) \<le> n"
      "\<forall>p \<in> set (contents out). T j (frame p)"
      by (auto simp: xt)
    obtain p ps where ps: "contents inp = p # ps" using x(2) ch.is_empty_iff [OF I(1)] by (cases "contents inp") (auto simp: xt)
    obtain m where m: "n = Suc m" using I(8) ps by (cases n) auto
    have room: "length (dq_packets q1) + 2 \<le> dq_capacity q1" using I(5) ps by simp
    from jitter_body_takes [OF ps I(1,2) room I(6) [unfolded m], of us st re tm rng] obtain inp' out' w' q' rng' ds n' where
      r: "jitter_body us st re tm (inp, out, w, q1, rng) = Inr (inp', out', w', q', rng')" "link_ok inp'" "contents inp' = ps" "link_ok out'"
        "set (contents out') \<subseteq> insert p (set (contents out))" "dq_packets q' = dq_packets q1 @ ds" "dq_capacity q' = dq_capacity q1"
        "length ds \<le> 2" "delays_ok ds" "set (packets_in ds) \<subseteq> {p}" "pool_ok w' n'" "n' \<le> Suc m" "m \<le> n'"
      by blast
    have w: "\<forall>p \<in> set (contents inp'). T i (frame p)" "\<forall>p \<in> set (contents out'). T j (frame p)" "T j (frame p)"
      using I(3,9) r(3,5) ps assms(8) by auto
    have "length (dq_packets q') \<le> dq_capacity q'" using room r(6-8) by simp
    then have "queue_fit (T j) q'" using queue_fit_append [OF I(4) r(9) _ r(6)] r(10) w(3) by auto
    moreover have "length (dq_packets q') + 2 * length (contents inp') \<le> dq_capacity q'" using I(5) r(3,6-8) ps by simp
    moreover have "n' \<le> in_use s" "length (contents inp') \<le> n'" using I(7,8) r(3,12,13) m ps by auto
    ultimately have "?I (inp', out', w', q', rng')" using w(1,2) r(2,4,11) by auto
    then show "\<exists>y. jitter_body us st re tm x = Inr y \<and> ?I y \<and>
        (case y of (inp, out, w, q, rng) \<Rightarrow> length (contents inp)) < (case x of (inp, out, w, q, rng) \<Rightarrow> length (contents inp))"
      using r(1,3) ps by (intro exI [of _ "(inp', out', w', q', rng')"]) (simp add: xt)
  qed
  then obtain inp out w q' rng' n where l: "loopR ?c (jitter_body us st re tm) (io_links s i, io_links s j, io_world s, q, rng) =
      Inr (inp, out, w, q', rng')" "link_ok inp" "link_ok out" "(\<forall>p \<in> set (contents inp). T i (frame p)) \<and> (\<forall>p \<in> set (contents out). T j (frame p))"
      "queue_fit (T j) q'"
      "pool_ok w n" "n \<le> in_use s"
    by auto
  let ?s = "s\<lparr>io_links := (io_links s)(i := inp, j := out), io_world := w\<rparr>"
  have "jitter_push us st re tm q rng a s = Inr (q', rng', ?s)"
    by (simp only: jitter_push_def borrow_io_ok [OF assms(1)] bindR_simps prod.case l(1))
  moreover have "io_ok ?s n" using io l(2,3,6) by (simp add: io_ok_def)
  moreover have "typed_links T ?s" using assms(7) l(4) by (auto simp: typed_links_def)
  ultimately show ?thesis using l(5,7) steadyI [OF _ _ io] by (metis add_0_right)
qed

section \<open>Apps with any number of ports\<close>

lemma source_pull_returns:
  assumes "distinct (map snd (app_output a))" and "ledger H b s" and "typed_links T s" and "\<forall>j \<in> set (map snd (app_output a)). T j (replicate (unat sz) 0)"
    and "in_use s + length (app_output a) * LINK_MAX_PACKETS < pool_max"
  shows "\<exists>s'. source_pull sz a s = Inr s' \<and> steady T s s' (length (app_output a) * LINK_MAX_PACKETS)"
proof -
  let ?js = "map snd (app_output a)"
  note io = ledger_io_ok(1) [OF assms(2)]
  have room: "room s ?js \<le> length (app_output a) * LINK_MAX_PACKETS" using room_le [of s ?js] by simp
  from source_outputs_ok [OF assms(1) io, of PULL_NPACKETS sz] assms(5) room obtain s' n' where
    r: "foldR (\<lambda>j s. bindR (source_fill PULL_NPACKETS sz (io_links s j, io_world s)) (\<lambda>(out, w).
      Inr (s\<lparr>io_links := (io_links s)(j := out), io_world := w\<rparr>))) ?js s = Inr s'" "io_ok s' n'" "n' \<le> in_use s + room s ?js"
      "\<forall>j \<in> set ?js. map frame (contents (io_links s' j)) =
        take LINK_MAX_PACKETS (map frame (contents (io_links s j)) @ replicate PULL_NPACKETS (replicate (unat sz) 0))"
      "\<forall>h. h \<notin> set ?js \<longrightarrow> io_links s' h = io_links s h"
    by force
  have "typed_links T s'"
  proof (rule typed_links_from [OF assms(3)])
    fix h p assume p: "p \<in> set (contents (io_links s' h))"
    show "T h (frame p) \<or> (\<exists>q. q \<in> set (contents (io_links s h)) \<and> frame q = frame p)"
    proof (cases "h \<in> set ?js")
      case True
      from frames_from [OF r(4) [rule_format, OF True] p] assms(4) True show ?thesis by auto
    qed (use p r(5) in auto)
  qed
  then show ?thesis using r(1,2,3) room steadyI [OF r(2) _ io] by (auto simp: source_pull_def foldR_snd)
qed

lemma sink_push_returns:
  assumes "distinct (map snd (app_input a))" and "ledger H b s" and "finite H" and "handles a \<subseteq> H" and "typed_links T s"
  shows "\<exists>s'. sink_push a s = Inr s' \<and> steady T s s' 0"
proof -
  note io = ledger_io_ok(1) [OF assms(2)]
  have "set (map snd (app_input a)) \<subseteq> H" using assms(4) by (auto simp: handles_def)
  from sink_inputs_ok [OF assms(1) io] ledger_lists [OF assms(2,3) this assms(1)] obtain s' n' where
    r: "foldR (\<lambda>i s. bindR (drain free (io_links s i) (io_world s)) (\<lambda>(inp, w).
      Inr (s\<lparr>io_links := (io_links s)(i := inp), io_world := w\<rparr>))) (map snd (app_input a)) s = Inr s'" "io_ok s' n'" "n' \<le> in_use s"
      "\<forall>i \<in> set (map snd (app_input a)). contents (io_links s' i) = []"
      "\<forall>h. h \<notin> set (map snd (app_input a)) \<longrightarrow> io_links s' h = io_links s h"
    by force
  have "typed_links T s'"
  proof (rule typed_links_from [OF assms(5)])
    fix h p assume "p \<in> set (contents (io_links s' h))"
    then show "T h (frame p) \<or> (\<exists>q. q \<in> set (contents (io_links s h)) \<and> frame q = frame p)"
      using r(4,5) by (cases "h \<in> set (map snd (app_input a))") auto
  qed
  then show ?thesis using r(1,3) steadyI [OF r(2) _ io] by (auto simp: sink_push_def foldR_snd)
qed

lemma join_push_returns:
  assumes "map_of (app_output a) ''output'' = Some j" and "j \<notin> set (map snd (app_input a))" and "distinct (map snd (app_input a))"
    and "ledger H b s" and "finite H" and "handles a \<subseteq> H" and "typed_links T s" and "\<And>i f. i \<in> set (map snd (app_input a)) \<Longrightarrow> T i f \<Longrightarrow> T j f"
  shows "\<exists>s'. join_push a s = Inr s' \<and> steady T s s' 0"
proof -
  let ?is = "map snd (app_input a)"
  note io = ledger_io_ok(1) [OF assms(4)]
  have "set ?is \<subseteq> H" using assms(6) by (auto simp: handles_def)
  from join_inputs_ok [OF assms(2,3) io] ledger_lists [OF assms(4,5) this assms(3)] obtain s' n' where
    r: "foldR (join_input j) ?is s = Inr s'" "io_ok s' n'" "n' \<le> in_use s" "\<forall>i \<in> set ?is. contents (io_links s' i) = []"
      "contents (io_links s' j) = take LINK_MAX_PACKETS (contents (io_links s j) @ concat (map (\<lambda>i. contents (io_links s i)) ?is))"
      "\<forall>k. k \<notin> set ?is \<longrightarrow> k \<noteq> j \<longrightarrow> io_links s' k = io_links s k"
    by force
  have "typed_links T s'"
  proof (rule typed_links_from [OF assms(7)])
    fix h p assume p: "p \<in> set (contents (io_links s' h))"
    then have "p \<in> set (contents (io_links s h)) \<or> h = j \<and> (\<exists>i \<in> set ?is. p \<in> set (contents (io_links s i)))"
      using r(4,6) set_take_subset [of LINK_MAX_PACKETS "contents (io_links s j) @ concat (map (\<lambda>i. contents (io_links s i)) ?is)"]
      by (cases "h \<in> set ?is"; cases "h = j") (auto simp: r(5))
    then show "T h (frame p) \<or> (\<exists>q. q \<in> set (contents (io_links s h)) \<and> frame q = frame p)"
      using assms(8) typed_linksD [OF assms(7)] by blast
  qed
  then show ?thesis using r(1,3) steadyI [OF r(2) _ io] assms(1) by (auto simp: join_push_def foldR_snd)
qed

lemma tee_push_returns:
  assumes "set (map snd (app_input a)) \<inter> set (map snd (app_output a)) = {}"
    and "distinct (map snd (app_output a))" and "distinct (map snd (app_input a))"
    and "ledger H b s" and "finite H" and "handles a \<subseteq> H" and "typed_links T s"
    and "\<And>i j f. i \<in> set (map snd (app_input a)) \<Longrightarrow> j \<in> set (map snd (app_output a)) \<Longrightarrow> T i f \<Longrightarrow> T j f"
    and "in_use s + length (app_output a) * LINK_MAX_PACKETS < pool_max"
  shows "\<exists>s'. tee_push a s = Inr s' \<and> steady T s s' (length (app_output a) * LINK_MAX_PACKETS)"
proof -
  let ?is = "map snd (app_input a)" and ?js = "map snd (app_output a)"
  note io = ledger_io_ok(1) [OF assms(4)]
  have "set ?is \<subseteq> H" using assms(6) by (auto simp: handles_def)
  note sum = ledger_lists [OF assms(4,5) this assms(3)]
  have room: "room s ?js \<le> length (app_output a) * LINK_MAX_PACKETS" using room_le [of s ?js] by simp
  from tee_inputs_ok [OF assms(1-3) io] sum room assms(9) obtain s' n' where
    r: "foldR (tee_input a) ?is s = Inr s'" "io_ok s' n'" "n' \<le> in_use s + room s ?js" "\<forall>i \<in> set ?is. contents (io_links s' i) = []"
      "teed s ?js (concat (map (\<lambda>i. contents (io_links s i)) ?is)) s'"
      "\<forall>k. k \<notin> set ?is \<longrightarrow> k \<notin> set ?js \<longrightarrow> io_links s' k = io_links s k"
    by force
  have "typed_links T s'"
  proof (rule typed_links_from [OF assms(7)])
    fix h p assume p: "p \<in> set (contents (io_links s' h))"
    show "T h (frame p) \<or> (\<exists>q. q \<in> set (contents (io_links s h)) \<and> frame q = frame p)"
    proof (cases "h \<in> set ?js")
      case True
      from r(5) True have "map frame (contents (io_links s' h)) = take LINK_MAX_PACKETS
          (map frame (contents (io_links s h)) @ map frame (concat (map (\<lambda>i. contents (io_links s i)) ?is)))"
        unfolding teed_def by blast
      from frames_from [OF this p] consider q where "q \<in> set (contents (io_links s h))" "frame q = frame p"
        | i q where "i \<in> set ?is" "q \<in> set (contents (io_links s i))" "frame q = frame p"
        by force
      then show ?thesis using assms(8) [OF _ True] typed_linksD [OF assms(7)] by cases metis+
    next
      case False
      then show ?thesis using p r(4,6) by (cases "h \<in> set ?is") auto
    qed
  qed
  then show ?thesis using r(1,3) room steadyI [OF r(2) _ io] by (auto simp: tee_push_def foldR_snd)
qed

lemma split_route_output:
  assumes "split_ok flows a i d"
  shows "split_route flows a d p \<in> set (map snd (app_output a))"
proof (cases "find (\<lambda>f. flow_matches f p) flows")
  case None
  then show ?thesis using assms by (force simp: split_route_def split_ok_def dest: map_of_SomeD)
next
  case (Some f)
  then obtain j where "map_of (app_output a) (flow_label f) = Some j" using assms find_in_set [OF Some] by (auto simp: split_ok_def)
  then show ?thesis using Some by (force simp: split_route_def dest: map_of_SomeD)
qed

lemma split_push_returns:
  assumes "split_ok flows a i d" and "ledger H b s" and "finite H" and "handles a \<subseteq> H" and "typed_links T s"
    and "\<And>j f. j \<in> set (map snd (app_output a)) \<Longrightarrow> T i f \<Longrightarrow> T j f"
  shows "\<exists>s'. split_push flows a s = Inr s' \<and> steady T s s' 0"
proof -
  note io = ledger_io_ok(1) [OF assms(2)]
  have "i \<in> H" using assms(1,4) handles_lookup(1) by (auto simp: split_ok_def)
  then have "length (contents (io_links s i)) \<le> in_use s" using ledger_lists [OF assms(2,3), of "[i]"] by simp
  from split_push_ok [OF assms(1) io this] obtain s' n' where
    r: "split_push flows a s = Inr s'" "io_ok s' n'" "n' \<le> in_use s" "contents (io_links s' i) = []"
      "\<forall>j. j \<noteq> i \<longrightarrow> contents (io_links s' j) = take LINK_MAX_PACKETS (contents (io_links s j) @
        filter (\<lambda>p. split_route flows a d p = j) (contents (io_links s i)))"
    by blast
  have "typed_links T s'"
  proof (rule typed_links_from [OF assms(5)])
    fix h p assume p: "p \<in> set (contents (io_links s' h))"
    then have "h \<noteq> i" using r(4) by auto
    then have "p \<in> set (contents (io_links s h)) \<or> p \<in> set (contents (io_links s i)) \<and> split_route flows a d p = h"
      using p r(5) by (auto dest: in_set_takeD)
    then show "T h (frame p) \<or> (\<exists>q. q \<in> set (contents (io_links s h)) \<and> frame q = frame p)"
      using assms(6) typed_linksD [OF assms(5)] split_route_output [OF assms(1)] by blast
  qed
  then show ?thesis using r(1,3) steadyI [OF r(2) _ io] by auto
qed

lemma rawsocket_pull_returns:
  assumes "socket_works os good (out_type T a) W sock" and "good net" and "ledger H b s" and "typed_links T s"
    and "in_use s + LINK_MAX_PACKETS < pool_max"
  shows "\<exists>s' net'. rawsocket_pull os sock a (s, net) = Inr (s', net') \<and> good net' \<and> steady T s s' LINK_MAX_PACKETS"
proof (cases "map_of (app_output a) ''output''")
  case None
  then show ?thesis using assms(2,4) ledger_io_ok(1) [OF assms(3)] by (simp add: rawsocket_pull_def steady_def)
next
  case (Some j)
  note io = ledger_io_ok(1) [OF assms(3)]
  have "\<forall>p \<in> set (contents (io_links s j)). out_type T a (frame p)" using assms(4) by (simp add: typed_links_def out_type_def Some)
  moreover have "in_use s + (LINK_MAX_PACKETS - length (contents (io_links s j))) < pool_max" using assms(5) by linarith
  ultimately obtain out w net' n' where
    r: "rawsocket_pull_loop os sock PULL_NPACKETS (io_links s j, io_world s, net) = Inr (out, w, net')" "link_ok out" "good net'"
      "\<forall>p \<in> set (contents out). out_type T a (frame p)" "pool_ok w n'" "n' + length (contents (io_links s j)) = in_use s + length (contents out)"
    using rawsocket_pull_loop_returns [OF assms(1,2) io_okD [OF io], of j PULL_NPACKETS] by blast
  let ?s = "s\<lparr>io_links := (io_links s)(j := out), io_world := w\<rparr>"
  have "io_ok ?s n'" "typed_links T ?s" using io r(2,4,5) assms(4) by (auto simp: io_ok_def typed_links_def out_type_def Some)
  moreover have "n' \<le> in_use s + LINK_MAX_PACKETS" using r(6) contents_bound [OF r(2)] by linarith
  ultimately have "steady T s ?s LINK_MAX_PACKETS" using steadyI io by blast
  then show ?thesis using r(1,3) by (simp add: rawsocket_pull_def Some)
qed

lemma rawsocket_push_returns:
  assumes "socket_works os good R (in_type T a) sock" and "good net" and "ledger H b s" and "finite H" and "handles a \<subseteq> H" and "typed_links T s"
  shows "\<exists>s' net'. rawsocket_push os sock a (s, net) = Inr (s', net') \<and> good net' \<and> steady T s s' 0"
proof (cases "map_of (app_input a) ''input''")
  case None
  then show ?thesis using assms(2,6) ledger_io_ok(1) [OF assms(3)] by (simp add: rawsocket_push_def steady_def)
next
  case (Some i)
  note io = ledger_io_ok(1) [OF assms(3)]
  have "i \<in> H" using assms(5) handles_lookup(1) [OF Some] by blast
  then have le: "length (contents (io_links s i)) \<le> in_use s" using ledger_lists [OF assms(3,4), of "[i]"] by simp
  then have "pool_ok (io_world s) (in_use s - length (contents (io_links s i)) + length (contents (io_links s i)))"
    using io_okD(2) [OF io] by simp
  moreover have "\<forall>p \<in> set (contents (io_links s i)). in_type T a (frame p)" using typed_linksD [OF assms(6)] by (simp add: in_type_def Some)
  ultimately obtain inp w net' where
    r: "rawsocket_push_loop os sock (io_links s i, io_world s, net) = Inr (inp, w, net')" "link_ok inp" "good net'"
      "pool_ok w (in_use s - length (contents (io_links s i)) + length (contents inp))"
      "length (contents inp) \<le> length (contents (io_links s i))" "set (contents inp) \<subseteq> set (contents (io_links s i))"
    using rawsocket_push_loop_returns [OF assms(1,2) io_okD(1) [OF io]] by blast
  let ?s = "s\<lparr>io_links := (io_links s)(i := inp), io_world := w\<rparr>"
  have "io_ok ?s (in_use s - length (contents (io_links s i)) + length (contents inp))" "typed_links T ?s"
    using io r(2,4,6) assms(6) by (auto simp: io_ok_def typed_links_def)
  then have "steady T s ?s 0" using steadyI [OF _ _ io] r(5) le by (metis add_0_right add_le_cancel_left le_add_diff_inverse2)
  then show ?thesis using r(1,3) by (simp add: rawsocket_push_def Some)
qed

section \<open>Every callback of every app\<close>

text \<open>
  What an app must have: a socket in working order, which delivers frames of the type of the output and accepts frames of the type of the
  input, a well-formed queue, a mapped table.
\<close>

definition app_fit :: "'n os \<Rightarrow> ('n \<Rightarrow> bool) \<Rightarrow> frame_types \<Rightarrow> 'n sys \<Rightarrow> ports \<Rightarrow> app \<Rightarrow> bool" where
  "app_fit os good T s a x =
     (case x of
        RawSocketApp sock \<Rightarrow> socket_works os good (out_type T a) (in_type T a) sock
      | LatencyApp _ q \<Rightarrow> queue_fit (out_type T a) q
      | JitterApp _ _ _ q \<Rightarrow> queue_fit (out_type T a) q
      | TopApp path _ \<Rightarrow> length (sys_files s path) = FLOWTOP_NSLOTS
      | _ \<Rightarrow> True)"

definition app_room :: "app \<Rightarrow> bool" where
  "app_room x = (case x of LatencyApp _ q \<Rightarrow> queue_room q | JitterApp _ _ _ q \<Rightarrow> queue_room q | _ \<Rightarrow> True)"

text \<open>The ports that an app needs, on different links.\<close>

definition ports_fit :: "conf \<Rightarrow> ports \<Rightarrow> bool" where
  "ports_fit c a =
     (let ins = map snd (app_input a); outs = map snd (app_output a) in
      case c of
        Source _ \<Rightarrow> distinct outs
      | Sink \<Rightarrow> distinct ins
      | Join \<Rightarrow> (\<exists>j. map_of (app_output a) ''output'' = Some j \<and> j \<notin> set ins) \<and> distinct ins
      | Tee \<Rightarrow> set ins \<inter> set outs = {} \<and> distinct outs \<and> distinct ins
      | RawSocket _ \<Rightarrow> True
      | Split flows \<Rightarrow> \<exists>i d. split_ok flows a i d
      | _ \<Rightarrow> \<exists>i j. ports_ok a i j)"

text \<open>The packets that a callback may take from the pool.\<close>

definition pull_cost :: "conf \<Rightarrow> ports \<Rightarrow> nat" where
  "pull_cost c a =
     (case c of
        Source _ \<Rightarrow> length (app_output a) * LINK_MAX_PACKETS + 1
      | RawSocket _ \<Rightarrow> LINK_MAX_PACKETS + 1
      | _ \<Rightarrow> 0)"

definition push_cost :: "conf \<Rightarrow> ports \<Rightarrow> nat" where
  "push_cost c a =
     (case c of
        Tee \<Rightarrow> length (app_output a) * LINK_MAX_PACKETS + 1
      | TSD _ \<Rightarrow> 2 * LINK_MAX_PACKETS + 1
      | _ \<Rightarrow> 0)"

definition files_kept :: "'n sys \<Rightarrow> 'n sys \<Rightarrow> bool" where
  "files_kept s s' \<longleftrightarrow> (\<forall>path. length (sys_files s path) = FLOWTOP_NSLOTS \<longrightarrow> length (sys_files s' path) = FLOWTOP_NSLOTS)"

text \<open>A state in which a callback of an app can run, and what it leaves.\<close>

definition ready :: "'n os \<Rightarrow> ('n \<Rightarrow> bool) \<Rightarrow> frame_types \<Rightarrow> 'n sys \<Rightarrow> conf \<Rightarrow> ports \<Rightarrow> app \<Rightarrow> bool" where
  "ready os good T s c a x \<longleftrightarrow> good (sys_net s) \<and> typed_links T (sys_io s) \<and> flows_typed T c a \<and> app_matches c x \<and> ports_fit c a \<and>
     app_fit os good T s a x \<and> app_room x"

definition left_fit :: "'n os \<Rightarrow> ('n \<Rightarrow> bool) \<Rightarrow> frame_types \<Rightarrow> 'n sys \<Rightarrow> nat \<Rightarrow> ports \<Rightarrow> app \<Rightarrow> 'n sys \<Rightarrow> bool" where
  "left_fit os good T s k a x' s' \<longleftrightarrow> good (sys_net s') \<and> steady T (sys_io s) (sys_io s') k \<and> files_kept s s' \<and> app_fit os good T s' a x'"

lemma out_typeD: "map_of (app_output a) ''output'' = Some j \<Longrightarrow> out_type T a = T j"
  by (simp add: out_type_def fun_eq_iff)

definition forwards :: "conf \<Rightarrow> bool" where
  "forwards c = (case c of Source _ \<Rightarrow> False | Sink \<Rightarrow> False | RawSocket _ \<Rightarrow> False | conf.Checksum \<Rightarrow> False | TSD _ \<Rightarrow> False | _ \<Rightarrow> True)"

lemma flows_typed_ports:
  assumes "flows_typed T c a" and "i \<in> set (map snd (app_input a))" and "j \<in> set (map snd (app_output a))"
  shows "c = conf.Checksum \<Longrightarrow> packet_ok r \<Longrightarrow> T i (frame r) \<Longrightarrow> whole r \<and> T j (frame (filled r))"
    and "c = TSD mss \<Longrightarrow> packet_ok r \<Longrightarrow> T i (frame r) \<Longrightarrow> g \<in> set (tsd_frames mss r) \<Longrightarrow> T j g"
    and "forwards c \<Longrightarrow> T i f \<Longrightarrow> T j f"
  using assms by (auto simp: flows_typed_def forwards_def list_all_iff split: conf.splits)

lemma flows_typed_io:
  assumes "flows_typed T c a" and "ports_ok a i j"
  shows "c = conf.Checksum \<Longrightarrow> packet_ok r \<Longrightarrow> T i (frame r) \<Longrightarrow> whole r \<and> T j (frame (filled r))"
    and "c = TSD mss \<Longrightarrow> packet_ok r \<Longrightarrow> T i (frame r) \<Longrightarrow> g \<in> set (tsd_frames mss r) \<Longrightarrow> T j g"
    and "forwards c \<Longrightarrow> T i f \<Longrightarrow> T j f"
proof -
  have "i \<in> set (map snd (app_input a))" "j \<in> set (map snd (app_output a))" using assms(2) by (force simp: ports_ok_def dest: map_of_SomeD)+
  note f = flows_typed_ports [OF assms(1) this]
  show "c = conf.Checksum \<Longrightarrow> packet_ok r \<Longrightarrow> T i (frame r) \<Longrightarrow> whole r \<and> T j (frame (filled r))"
    and "c = TSD mss \<Longrightarrow> packet_ok r \<Longrightarrow> T i (frame r) \<Longrightarrow> g \<in> set (tsd_frames mss r) \<Longrightarrow> T j g"
    and "forwards c \<Longrightarrow> T i f \<Longrightarrow> T j f"
    by (fact f)+
qed

locale returning = app_callback cb
  for cb :: "'n os \<Rightarrow> app \<Rightarrow> ports \<Rightarrow> 'n sys \<Rightarrow> (app \<times> 'n sys) res" +
  fixes has :: "app \<Rightarrow> bool" and cost :: "conf \<Rightarrow> ports \<Rightarrow> nat" and post :: "app \<Rightarrow> bool"
  assumes cb_returns: "has x \<Longrightarrow> ready os good T s c a x \<Longrightarrow> ledger H (b + app_held x) (sys_io s) \<Longrightarrow> finite H \<Longrightarrow> handles a \<subseteq> H \<Longrightarrow>
    in_use (sys_io s) + cost c a \<le> pool_max \<Longrightarrow>
    \<exists>x' s'. cb os x a s = Inr (x', s') \<and> left_fit os good T s (cost c a) a x' s' \<and> post x'"

lemma steady_mono: "steady T s s' k \<Longrightarrow> k \<le> k' \<Longrightarrow> steady T s s' k'"
  by (simp add: steady_def)

lemma now_keeps_rest:
  "now s = (t, s') \<Longrightarrow> sys_io s' = sys_io s \<and> sys_net s' = sys_net s \<and> sys_files s' = sys_files s \<and> sys_rng s' = sys_rng s"
  by (auto simp: now_def instant_now_def split: option.splits)

lemma files_kept_same: "sys_files s' = sys_files s \<Longrightarrow> files_kept s s'"
  by (simp add: files_kept_def)

interpretation pullr: returning app_pull has_pull pull_cost app_room
proof unfold_locales
  fix x and os :: "'n os" and good T s c a H b
  assume h: "has_pull x" "ready os good T s c a x" "ledger H (b + app_held x) (sys_io s)" "finite H" "handles a \<subseteq> H"
    "in_use (sys_io s) + pull_cost c a \<le> pool_max"
  have r: "good (sys_net s)" "typed_links T (sys_io s)" "app_matches c x" "ports_fit c a" "app_fit os good T s a x" "app_room x" "flows_typed T c a"
    using h(2) by (simp_all add: ready_def)
  have delay: "\<exists>q' s'. delay_pull t q a (sys_io s) = Inr (q', s') \<and> steady T (sys_io s) s' 0 \<and> queue_fit (out_type T a) q' \<and>
      (queue_room q \<longrightarrow> queue_room q')"
    if "ports_ok a i j" "app_held x = held_q q" "queue_fit (out_type T a) q" for t q i j
    using delay_pull_returns [of a j H b q "sys_io s" T t] that h(3) r(2) by (simp add: ports_ok_def out_typeD)
  show "\<exists>x' s'. app_pull os x a s = Inr (x', s') \<and> left_fit os good T s (pull_cost c a) a x' s' \<and> app_room x'"
  proof (cases x)
    case (SourceApp sz)
    have c: "c = Source sz" using r(3) by (cases c) (auto simp: SourceApp app_matches_def split: app.splits)
    with source_pull_returns [OF _ h(3) r(2), of a sz] r(4,7) h(6) SourceApp obtain s' where
      "source_pull sz a (sys_io s) = Inr s'" "steady T (sys_io s) s' (length (app_output a) * LINK_MAX_PACKETS)"
      by (auto simp: ports_fit_def flows_typed_def pull_cost_def)
    then show ?thesis using r(1,5) steady_mono
      by (auto simp: app_pull_def SourceApp left_fit_def c pull_cost_def app_fit_def app_room_def files_kept_def intro: steady_mono)
  next
    case (RawSocketApp sock)
    have c: "pull_cost c a = LINK_MAX_PACKETS + 1" using r(3) by (cases c) (auto simp: RawSocketApp app_matches_def pull_cost_def)
    with rawsocket_pull_returns [of os good T a "in_type T a" sock "sys_net s", OF _ r(1) h(3) r(2)] r(5) h(6) obtain s' net' where
      "rawsocket_pull os sock a (sys_io s, sys_net s) = Inr (s', net')" "good net'" "steady T (sys_io s) s' LINK_MAX_PACKETS"
      by (auto simp: RawSocketApp app_fit_def)
    then show ?thesis using r(5)
      by (auto simp: app_pull_def RawSocketApp left_fit_def c app_fit_def app_room_def files_kept_def intro: steady_mono)
  next
    case (LatencyApp ms q)
    obtain t s1 where t: "now s = (t, s1)" by (cases "now s")
    obtain h j where p: "ports_ok a h j" using r(3,4) by (cases c) (auto simp: LatencyApp app_matches_def ports_fit_def)
    from delay [OF p, of q t] r(5) obtain q' i where
      "delay_pull t q a (sys_io s) = Inr (q', i)" "steady T (sys_io s) i 0" "queue_fit (out_type T a) q'" "queue_room q \<longrightarrow> queue_room q'"
      by (auto simp: LatencyApp app_fit_def)
    then show ?thesis using r(1,6) now_keeps_rest [OF t]
      by (auto simp: app_pull_def LatencyApp t left_fit_def app_fit_def app_room_def files_kept_def intro: steady_mono)
  next
    case (JitterApp us st re q)
    obtain t s1 where t: "now s = (t, s1)" by (cases "now s")
    obtain h j where p: "ports_ok a h j" using r(3,4) by (cases c) (auto simp: JitterApp app_matches_def ports_fit_def)
    from delay [OF p, of q t] r(5) obtain q' i where
      "delay_pull t q a (sys_io s) = Inr (q', i)" "steady T (sys_io s) i 0" "queue_fit (out_type T a) q'" "queue_room q \<longrightarrow> queue_room q'"
      by (auto simp: JitterApp app_fit_def)
    then show ?thesis using r(1,6) now_keeps_rest [OF t]
      by (auto simp: app_pull_def JitterApp t left_fit_def app_fit_def app_room_def files_kept_def intro: steady_mono)
  qed (use h(1) in \<open>simp_all add: has_pull_def\<close>)
qed

lemma ports_fit_two:
  "ports_fit c a \<Longrightarrow> app_matches c x \<Longrightarrow>
   (case x of ChecksumApp \<Rightarrow> True | TSDApp _ \<Rightarrow> True | LossApp _ \<Rightarrow> True | LatencyApp _ _ \<Rightarrow> True | JitterApp _ _ _ _ \<Rightarrow> True
    | RateLimiterApp _ \<Rightarrow> True | TopApp _ _ \<Rightarrow> True | _ \<Rightarrow> False) \<Longrightarrow> \<exists>i j. ports_ok a i j"
  by (cases c) (auto simp: app_matches_def ports_fit_def split: app.splits)

interpretation pushr: returning app_push has_push push_cost "\<lambda>_. True"
proof unfold_locales
  fix x and os :: "'n os" and good T s c a H b
  assume h: "has_push x" "ready os good T s c a x" "ledger H (b + app_held x) (sys_io s)" "finite H" "handles a \<subseteq> H"
    "in_use (sys_io s) + push_cost c a \<le> pool_max"
  have r: "good (sys_net s)" "typed_links T (sys_io s)" "app_matches c x" "ports_fit c a" "app_fit os good T s a x" "app_room x" "flows_typed T c a"
    using h(2) by (simp_all add: ready_def)
  obtain t s1 where t: "now s = (t, s1)" by (cases "now s")
  note fits = left_fit_def app_fit_def files_kept_def app_push_def
  have "\<exists>x' s'. app_push os x a s = Inr (x', s') \<and> left_fit os good T s (push_cost c a) a x' s'"
  proof (cases x)
    case SinkApp
    have c: "c = Sink" using r(3) by (cases c) (auto simp: SinkApp app_matches_def split: app.splits)
    from sink_push_returns [OF _ h(3-5) r(2)] r(4) obtain s' where "sink_push a (sys_io s) = Inr s'" "steady T (sys_io s) s' 0"
      by (auto simp: c ports_fit_def)
    then show ?thesis using r(1) by (auto simp: fits SinkApp c push_cost_def)
  next
    case JoinApp
    have c: "c = Join" using r(3) by (cases c) (auto simp: JoinApp app_matches_def split: app.splits)
    obtain j where j: "map_of (app_output a) ''output'' = Some j" "j \<notin> set (map snd (app_input a))" "distinct (map snd (app_input a))"
      using r(4) by (auto simp: c ports_fit_def)
    have "j \<in> set (map snd (app_output a))" using j(1) by (force dest: map_of_SomeD)
    then have fw: "\<And>i f. i \<in> set (map snd (app_input a)) \<Longrightarrow> T i f \<Longrightarrow> T j f"
      using flows_typed_ports(3) [OF r(7)] by (auto simp: c forwards_def)
    have "\<exists>s'. join_push a (sys_io s) = Inr s' \<and> steady T (sys_io s) s' 0" by (rule join_push_returns [OF j h(3-5) r(2)]) (rule fw)
    then obtain s' where "join_push a (sys_io s) = Inr s'" "steady T (sys_io s) s' 0" by blast
    then show ?thesis using r(1) by (auto simp: fits JoinApp c push_cost_def)
  next
    case TeeApp
    have c: "c = Tee" using r(3) by (cases c) (auto simp: TeeApp app_matches_def split: app.splits)
    have fw: "\<And>i j f. i \<in> set (map snd (app_input a)) \<Longrightarrow> j \<in> set (map snd (app_output a)) \<Longrightarrow> T i f \<Longrightarrow> T j f"
      using flows_typed_ports(3) [OF r(7)] by (auto simp: c forwards_def)
    have "\<exists>s'. tee_push a (sys_io s) = Inr s' \<and> steady T (sys_io s) s' (length (app_output a) * LINK_MAX_PACKETS)"
      by (rule tee_push_returns [OF _ _ _ h(3-5) r(2)]) (use r(4) h(6) fw in \<open>auto simp: c ports_fit_def push_cost_def Let_def\<close>)
    then obtain s' where
      "tee_push a (sys_io s) = Inr s'" "steady T (sys_io s) s' (length (app_output a) * LINK_MAX_PACKETS)" by blast
    then show ?thesis using r(1) by (auto simp: fits TeeApp c push_cost_def intro: steady_mono)
  next
    case (RawSocketApp sock)
    from rawsocket_push_returns [of os good "out_type T a" T a sock "sys_net s", OF _ r(1) h(3-5) r(2)] r(5) obtain s' net' where
      "rawsocket_push os sock a (sys_io s, sys_net s) = Inr (s', net')" "good net'" "steady T (sys_io s) s' 0"
      by (auto simp: RawSocketApp app_fit_def)
    then show ?thesis using r(5) by (auto simp: fits RawSocketApp intro: steady_mono)
  next
    case ChecksumApp
    obtain i j where p: "ports_ok a i j" using ports_fit_two [OF r(4,3)] by (auto simp: ChecksumApp)
    have c: "c = conf.Checksum" using r(3) by (cases c) (auto simp: ChecksumApp app_matches_def split: app.splits)
    have "\<exists>s'. push_through checksum_step a () (sys_io s) = Inr (foldl (\<lambda>_ _. ()) () (contents (io_links (sys_io s) i)), s') \<and>
        steady T (sys_io s) s' 0"
      by (rule ca.push_steady [OF p h(3-5) TrueI r(2) refl]) (use flows_typed_io(1) [OF r(7) p c] whole_l4_complete in auto)
    then obtain s' where "push_through checksum_step a () (sys_io s) = Inr ((), s')" "steady T (sys_io s) s' 0" by auto
    then show ?thesis using r(1) by (auto simp: fits ChecksumApp checksum_push_def intro: steady_mono)
  next
    case (TSDApp mss)
    obtain i j where p: "ports_ok a i j" using ports_fit_two [OF r(4,3)] by (auto simp: TSDApp)
    have c: "push_cost c a = 2 * LINK_MAX_PACKETS + 1" "0 < mss" "c = TSD mss"
      using r(3) by (cases c; auto simp: TSDApp app_matches_def push_cost_def split: app.splits)+
    have mss: "foldl (\<lambda>mss _. mss) mss qs = mss" for qs :: "packet list" by (induction qs) simp_all
    have "\<exists>s'. push_through tsd_step a mss (sys_io s) = Inr (foldl (\<lambda>mss _. mss) mss (contents (io_links (sys_io s) i)), s') \<and>
        steady T (sys_io s) s' LINK_MAX_PACKETS"
      by (rule ts.push_steady [OF p h(3-5) c(2) r(2), of "T j"]) (use flows_typed_io(2) [OF r(7) p c(3)] h(6) c(1) in \<open>auto simp: mss\<close>)
    then obtain m s' where "push_through tsd_step a mss (sys_io s) = Inr (m, s')" "steady T (sys_io s) s' LINK_MAX_PACKETS" by auto
    then show ?thesis using r(1) by (auto simp: fits TSDApp tsd_push_def c(1) intro: steady_mono)
  next
    case (LossApp ratio)
    obtain i j where p: "ports_ok a i j" using ports_fit_two [OF r(4,3)] by (auto simp: LossApp)
    have fw: "T i f \<Longrightarrow> T j f" for f
      using flows_typed_io(3) [OF r(7) p] r(3) by (cases c) (auto simp: LossApp app_matches_def forwards_def split: app.splits)
    have "\<exists>s'. push_through (loss_step ratio) a (sys_rng s) (sys_io s) =
        Inr (foldl rng_next (sys_rng s) (contents (io_links (sys_io s) i)), s') \<and> steady T (sys_io s) s' 0"
      by (rule lo.push_steady [OF p h(3-5) TrueI r(2) refl]) (auto simp: loss_emit_def fw split: if_splits)
    then obtain rng s' where
      "push_through (loss_step ratio) a (sys_rng s) (sys_io s) = Inr (rng, s')" "steady T (sys_io s) s' 0" by blast
    then show ?thesis using r(1) by (auto simp: fits LossApp loss_push_def intro: steady_mono)
  next
    case (LatencyApp ms q)
    obtain i j where p: "ports_ok a i j" using ports_fit_two [OF r(4,3)] by (auto simp: LatencyApp)
    have fw: "T i f \<Longrightarrow> T j f" for f
      using flows_typed_io(3) [OF r(7) p] r(3) by (cases c) (auto simp: LatencyApp app_matches_def forwards_def split: app.splits)
    have io: "map_of (app_input a) ''input'' = Some i" "out_type T a = T j" using p by (simp_all add: ports_ok_def out_typeD)
    have "\<exists>q' s'. latency_push ms t q a (sys_io s) = Inr (q', s') \<and> steady T (sys_io s) s' 0 \<and> queue_fit (T j) q'"
      by (rule latency_push_returns [OF io(1) h(3) _ _ r(2)]) (use r(5,6) fw in \<open>simp_all add: LatencyApp app_fit_def app_room_def io(2)\<close>)
    then obtain q' s' where
      "latency_push ms t q a (sys_io s) = Inr (q', s')" "steady T (sys_io s) s' 0" "queue_fit (out_type T a) q'" unfolding io(2) by blast
    then show ?thesis using r(1) now_keeps_rest [OF t] by (auto simp: fits LatencyApp t intro: steady_mono)
  next
    case (JitterApp us st re q)
    obtain i j where p: "ports_ok a i j" using ports_fit_two [OF r(4,3)] by (auto simp: JitterApp)
    have fw: "T i f \<Longrightarrow> T j f" for f
      using flows_typed_io(3) [OF r(7) p] r(3) by (cases c) (auto simp: JitterApp app_matches_def forwards_def split: app.splits)
    have io: "out_type T a = T j" using p by (simp add: ports_ok_def out_typeD)
    have "\<exists>q' rng s'. jitter_push us st re t q (sys_rng s) a (sys_io s) = Inr (q', rng, s') \<and> steady T (sys_io s) s' 0 \<and> queue_fit (T j) q'"
      by (rule jitter_push_returns [OF p h(3-5) _ _ r(2)]) (use r(5,6) fw in \<open>simp_all add: JitterApp app_fit_def app_room_def io\<close>)
    then obtain q' rng s' where
      "jitter_push us st re t q (sys_rng s) a (sys_io s) = Inr (q', rng, s')" "steady T (sys_io s) s' 0" "queue_fit (out_type T a) q'"
      unfolding io by blast
    then show ?thesis using r(1) now_keeps_rest [OF t] by (auto simp: fits JitterApp t intro: steady_mono)
  next
    case (RateLimiterApp rl)
    obtain i j where p: "ports_ok a i j" using ports_fit_two [OF r(4,3)] by (auto simp: RateLimiterApp)
    have fw: "T i f \<Longrightarrow> T j f" for f
      using flows_typed_io(3) [OF r(7) p] r(3) by (cases c) (auto simp: RateLimiterApp app_matches_def forwards_def split: app.splits)
    let ?b = "replenish rl t (rl_bucket rl)"
    have "\<exists>s'. push_through (rate_step (rl_scale rl)) a ?b (sys_io s) =
        Inr (foldl (rate_next (rl_scale rl)) ?b (contents (io_links (sys_io s) i)), s') \<and> steady T (sys_io s) s' 0"
      by (rule ra.push_steady [OF p h(3-5) TrueI r(2) refl]) (auto simp: rate_emit_def fw split: if_splits)
    then obtain bk s' where
      "push_through (rate_step (rl_scale rl)) a ?b (sys_io s) = Inr (bk, s')" "steady T (sys_io s) s' 0" by blast
    then show ?thesis using r(1) now_keeps_rest [OF t] by (auto simp: fits RateLimiterApp rate_limiter_push_def t intro: steady_mono)
  next
    case (SplitApp flows)
    have c: "c = conf.Split flows" using r(3) by (cases c) (auto simp: SplitApp app_matches_def split: app.splits)
    obtain i d where i: "split_ok flows a i d" using r(4) by (auto simp: c ports_fit_def)
    have "i \<in> set (map snd (app_input a))" using i by (force simp: split_ok_def dest: map_of_SomeD)
    then have fw: "\<And>j f. j \<in> set (map snd (app_output a)) \<Longrightarrow> T i f \<Longrightarrow> T j f"
      using flows_typed_ports(3) [OF r(7)] by (auto simp: c forwards_def)
    have "\<exists>s'. split_push flows a (sys_io s) = Inr s' \<and> steady T (sys_io s) s' 0" by (rule split_push_returns [OF i h(3-5) r(2)]) (rule fw)
    then obtain s' where "split_push flows a (sys_io s) = Inr s'" "steady T (sys_io s) s' 0" by blast
    then show ?thesis using r(1) by (auto simp: fits SplitApp c push_cost_def)
  next
    case (TopApp path d)
    obtain i j where p: "ports_ok a i j" using ports_fit_two [OF r(4,3)] by (auto simp: TopApp)
    have fw: "T i f \<Longrightarrow> T j f" for f
      using flows_typed_io(3) [OF r(7) p] r(3) by (cases c) (auto simp: TopApp app_matches_def forwards_def split: app.splits)
    have m: "length (sys_files s path) = FLOWTOP_NSLOTS" using r(5) by (simp add: TopApp app_fit_def)
    have counted: "length (foldl (counted d) m ps) = FLOWTOP_NSLOTS" if "length m = FLOWTOP_NSLOTS" for m ps
      using that by (induction ps arbitrary: m) (simp_all add: counted_totals)
    have "\<exists>s'. push_through (top_step d) a (sys_files s path) (sys_io s) =
        Inr (foldl (counted d) (sys_files s path) (contents (io_links (sys_io s) i)), s') \<and> steady T (sys_io s) s' 0"
      by (rule tp.push_steady [OF p h(3-5) m r(2) refl]) (auto simp: fw)
    with counted [OF m] obtain m' s' where
      "push_through (top_step d) a (sys_files s path) (sys_io s) = Inr (m', s')" "steady T (sys_io s) s' 0" "length m' = FLOWTOP_NSLOTS" by blast
    then show ?thesis using r(1) by (auto simp: fits TopApp top_push_def intro: steady_mono)
  qed (use h(1) in \<open>simp add: has_push_def\<close>)
  then show "\<exists>x' s'. app_push os x a s = Inr (x', s') \<and> left_fit os good T s (push_cost c a) a x' s' \<and> True" by simp
qed

section \<open>Properties\<close>

text \<open>
  C21. Total correctness of the callbacks: \<^verbatim>\<open>pull\<close> and \<^verbatim>\<open>push\<close> of every app return, whatever the packets, the clock and the random draws, when
  the ports that the app needs are linked to different links, the frames on every link have the type of the link, what the app does with
  a frame of the type of an input has the types of the outputs, its socket behaves as documented, its delay queue is well formed
  and has room, and the pool has the packets that the callback may take. They leave frames of these types on the links, a well-formed queue and a working socket, and take no
  more packets than that.
\<close>

theorem every_callback_returns:
  assumes "ready os good T s c a x" and "ledger H (b + app_held x) (sys_io s)" and "finite H" and "handles a \<subseteq> H"
    and "in_use (sys_io s) + pull_cost c a \<le> pool_max" and "in_use (sys_io s) + push_cost c a \<le> pool_max"
  shows "(has_pull x \<longrightarrow> (\<exists>x' s'. app_pull os x a s = Inr (x', s') \<and> left_fit os good T s (pull_cost c a) a x' s' \<and> app_room x')) \<and>
    (has_push x \<longrightarrow> (\<exists>x' s'. app_push os x a s = Inr (x', s') \<and> left_fit os good T s (push_cost c a) a x' s'))"
  using pullr.cb_returns [OF _ assms(1-5)] pushr.cb_returns [OF _ assms(1-4,6)] by blast

text \<open>A TSD app with a packet of two octets of payload more than its segment size; all frames are long enough for their headers.\<close>

theorem every_callback_returns_witness:
  "\<exists>s'. app_push demo_os (TSDApp 4) demo_ports (demo_sys\<lparr>sys_io := demo_io (demo_packet 60 0)\<rparr>) = Inr (TSDApp 4, s') \<and>
    typed_links (\<lambda>_. whole_frame) (sys_io s')"
proof -
  let ?s = "demo_sys\<lparr>sys_io := demo_io (demo_packet 60 0)\<rparr>" and ?T = "\<lambda>_. whole_frame"
  note io = demo_io_ok(2) [OF demo_packet_ok, of 60 0]
  have use: "in_use (sys_io ?s) = 1" using in_use_eq [OF io] by simp
  have "whole (demo_packet 60 0)" by (simp add: whole_def long_frame_whole frame_def demo_packet_def)
  moreover have "set (contents (io_links (demo_io (demo_packet 60 0)) h)) \<subseteq> {demo_packet 60 0}" for h
    by (cases "h = 0") (simp_all add: demo_io_ok(3,4) demo_packet_ok)
  ultimately have "typed_links ?T (sys_io ?s)" by (auto simp: typed_links_def whole_def)
  moreover have "flows_typed ?T (TSD 4) demo_ports"
    using tsd_frames_whole [of _ 4] by (auto simp: flows_typed_def list_all_iff whole_def)
  ultimately have r: "ready demo_os (\<lambda>_. True) ?T ?s (TSD 4) demo_ports (TSDApp 4)"
    using demo_io_ok(1) by (auto simp: ready_def app_matches_def ports_fit_def app_fit_def app_room_def)
  have l: "ledger {0, 1} (0 + app_held (TSDApp 4)) (sys_io ?s)" "handles demo_ports \<subseteq> {0, 1}"
    using io by (simp_all add: ledger_def io_ok_def queue_of_def demo_io_ok(3,4) demo_packet_ok handles_def demo_ports_def)
  have "\<exists>x' s'. app_push demo_os (TSDApp 4) demo_ports ?s = Inr (x', s') \<and>
      left_fit demo_os (\<lambda>_. True) ?T ?s (push_cost (TSD 4) demo_ports) demo_ports x' s'"
    using every_callback_returns [OF r l(1) _ l(2)] use
    by (simp add: has_push_def pull_cost_def push_cost_def pool_max_def LINK_MAX_PACKETS_def LINK_RING_SIZE_def)
  then show ?thesis by (auto simp: left_fit_def steady_def app_push_def bindR_eq_Inr)
qed

end
