(* ===== verification/Synthetic_Network.thy ===== *)
theory Synthetic_Network
  imports Configure
begin

text \<open>
  \<^verbatim>\<open>rush/src/synthetic_network.rs\<close>: the program itself. A specification of link qualities, read from a JSON file, becomes a
  configuration of the engine: from either network interface to the other a path of apps, with one branch
  for each flow. Reading and parsing the file is a parameter.
\<close>

section \<open>Specifications\<close>

record QoS =
  qos_rate :: u64
  qos_loss :: f64
  qos_latency :: u64
  qos_jitter :: u64
  qos_jitter_strength :: f64
  qos_reorder_packets :: bool

record synthetic_link =
  sl_ingress :: QoS
  sl_egress :: QoS

record flow_tuple_spec =
  ft_ip :: u32
  ft_protocol :: u8
  ft_port_min :: u16
  ft_port_max :: u16

record synthetic_flow =
  sf_label :: string
  sf_flow :: flow_tuple_spec
  sf_link :: synthetic_link

record synthetic_network =
  sn_default_link :: synthetic_link
  sn_flows :: "synthetic_flow list"

text \<open>The example that \<^verbatim>\<open>print_usage\<close> prints.\<close>

definition usage_qos :: "u64 \<Rightarrow> QoS" where
  "usage_qos rate = \<lparr>qos_rate = rate, qos_loss = Fin 0, qos_latency = 0, qos_jitter = 0, qos_jitter_strength = Fin 0,
     qos_reorder_packets = False\<rparr>"

definition usage_spec :: synthetic_network where
  "usage_spec = \<lparr>
     sn_default_link = \<lparr>sl_ingress = usage_qos 10000000, sl_egress = usage_qos 1000000\<rparr>,
     sn_flows = [\<lparr>sf_label = ''http'', sf_flow = \<lparr>ft_ip = 0, ft_protocol = 6, ft_port_min = 80, ft_port_max = 80\<rparr>,
       sf_link = \<lparr>sl_ingress = usage_qos 100000000, sl_egress = usage_qos 100000000\<rparr>\<rparr>]\<rparr>"

text \<open>\<^verbatim>\<open>LABEL_SYNTAX\<close> is \<^verbatim>\<open>^[\w_]+$\<close>.\<close>

definition LABEL_SYNTAX :: "string \<Rightarrow> bool" where
  "LABEL_SYNTAX s \<longleftrightarrow> s \<noteq> [] \<and> (\<forall>c \<in> set s. word_char c)"

fun check_labels :: "synthetic_flow list \<Rightarrow> string list \<Rightarrow> string + unit" where
  "check_labels [] labels = Inr ()"
| "check_labels (f # fs) labels =
     (if sf_label f = ''default'' then Inl ''Flow label 'default' is reserved.''
      else if \<not> LABEL_SYNTAX (sf_label f) then Inl ''Invalid characters in flow label.''
      else if sf_label f \<in> set labels then Inl ''Duplicate flow labels.''
      else check_labels fs (sf_label f # labels))"

definition sanitize_labels :: "synthetic_network \<Rightarrow> string + unit" where
  "sanitize_labels spec = check_labels (sn_flows spec) []"

text \<open>
  \<open>load\<close> stands for opening the file and parsing it as JSON, with the message of the error if that
  fails.
\<close>

definition read_qos_spec :: "(string \<Rightarrow> string + synthetic_network) \<Rightarrow> string \<Rightarrow> string + synthetic_network" where
  "read_qos_spec load path =
     (case load path of
        Inl err \<Rightarrow> Inl err
      | Inr spec \<Rightarrow> (case sanitize_labels spec of Inl err \<Rightarrow> Inl err | Inr _ \<Rightarrow> Inr spec))"

definition try_read_qos_spec :: "(string \<Rightarrow> string + synthetic_network) \<Rightarrow> string \<Rightarrow> synthetic_network option" where
  "try_read_qos_spec load path = (case read_qos_spec load path of Inr spec \<Rightarrow> Some spec | Inl _ \<Rightarrow> None)"

section \<open>From specifications to configurations\<close>

text \<open>\<^verbatim>\<open>f64::clamp\<close>, which leaves a value that is not a number alone.\<close>

definition clamp :: "f64 \<Rightarrow> f64 \<Rightarrow> f64 \<Rightarrow> f64" where
  "clamp x lo hi = (if f64_lt x lo then lo else if f64_lt hi x then hi else x)"

definition configure_interface :: "string \<Rightarrow> conf config \<Rightarrow> conf config" where
  "configure_interface ifname c = add_app ifname (RawSocket ifname) c"

definition configure_tsd :: "string \<Rightarrow> string \<Rightarrow> u16 \<Rightarrow> conf config \<Rightarrow> conf config res" where
  "configure_tsd name ifname mss c =
     (let output_to_tsd = ifname @ ''.output -> '' @ name @ ''.input'' in
      add_link output_to_tsd (add_app name (TSD mss) c))"

definition configure_top :: "string \<Rightarrow> string \<Rightarrow> string \<Rightarrow> dir \<Rightarrow> conf config \<Rightarrow> conf config res" where
  "configure_top name output path d c =
     (let top_to_input = name @ ''.output -> '' @ output in
      add_link top_to_input (add_app name (Top path d) c))"

definition configure_offload :: "string \<Rightarrow> string \<Rightarrow> conf config \<Rightarrow> conf config res" where
  "configure_offload name ifname c =
     (let output_to_offload = ifname @ ''.output -> '' @ name @ ''.input'' in
      add_link output_to_offload (add_app name conf.Checksum c))"

definition split_flows :: "synthetic_flow list \<Rightarrow> dir \<Rightarrow> flow list" where
  "split_flows fs d = map (\<lambda>f.
     \<lparr>flow_label = sf_label f, flow_dir = d, flow_ip = ft_ip (sf_flow f), flow_protocol = ft_protocol (sf_flow f),
      flow_port_min = ft_port_min (sf_flow f), flow_port_max = ft_port_max (sf_flow f)\<rparr>) fs"

definition configure_split ::
  "string \<Rightarrow> string \<Rightarrow> synthetic_flow list \<Rightarrow> dir \<Rightarrow> conf config \<Rightarrow> conf config res" where
  "configure_split name input fs d c =
     (let input_to_split = input @ '' -> '' @ name @ ''.input'' in
      add_link input_to_split (add_app name (conf.Split (split_flows fs d)) c))"

definition configure_join :: "string \<Rightarrow> string \<Rightarrow> conf config \<Rightarrow> conf config res" where
  "configure_join name output c =
     (let join_to_output = name @ ''.output -> '' @ output @ ''.input'' in
      add_link join_to_output (add_app name Join c))"

definition delay_queue_capacity :: nat where "delay_queue_capacity = 100000"

definition configure_qos :: "string \<Rightarrow> string \<Rightarrow> string \<Rightarrow> QoS \<Rightarrow> conf config \<Rightarrow> conf config res" where
  "configure_qos label input output q c =
     (let rate = ''rate_'' @ label;
          input_to_rate = input @ '' -> '' @ rate @ ''.input'';
          loss = ''loss_'' @ label;
          rate_to_loss = rate @ ''.output -> '' @ loss @ ''.input'';
          latency = ''latency_'' @ label;
          loss_to_latency = loss @ ''.output -> '' @ latency @ ''.input'';
          jitter = ''jitter_'' @ label;
          latency_to_jitter = latency @ ''.output -> '' @ jitter @ ''.input'';
          jitter_to_output = jitter @ ''.output -> '' @ output
      in bindR (add_link input_to_rate c) (\<lambda>c.
         bindR (add_link rate_to_loss (add_app rate (RateLimiter (qos_rate q)) c)) (\<lambda>c.
         bindR (add_link loss_to_latency (add_app loss (Loss (clamp (qos_loss q) (Fin 0) (Fin 1))) c)) (\<lambda>c.
         bindR (add_link latency_to_jitter (add_app latency (Latency (qos_latency q) delay_queue_capacity) c)) (\<lambda>c.
         add_link jitter_to_output
           (add_app jitter (Jitter (qos_jitter q) (clamp (qos_jitter_strength q) (Fin 0) (Fin 1))
              (qos_reorder_packets q) delay_queue_capacity) c))))))"

definition configure_flow :: "string \<Rightarrow> string \<Rightarrow> dir \<Rightarrow> synthetic_flow \<Rightarrow> conf config \<Rightarrow> conf config res" where
  "configure_flow split join d f =
     (let prefix = (case d of Src \<Rightarrow> ''ingress'' | Dst \<Rightarrow> ''egress'');
          input = split @ ''.'' @ sf_label f;
          output = join @ ''.'' @ sf_label f;
          app_label = prefix @ ''_'' @ sf_label f;
          q = (case d of Src \<Rightarrow> sl_ingress (sf_link f) | Dst \<Rightarrow> sl_egress (sf_link f))
      in configure_qos app_label input output q)"

definition configure_flows ::
  "string \<Rightarrow> string \<Rightarrow> synthetic_flow list \<Rightarrow> dir \<Rightarrow> conf config \<Rightarrow> conf config res" where
  "configure_flows split join fs d c = foldR (configure_flow split join d) fs c"

text \<open>One of the two paths, from the interface \<open>a\<close> to the interface \<open>b\<close>; the function configures both.\<close>

definition configure_path ::
  "string \<Rightarrow> string \<Rightarrow> string \<Rightarrow> dir \<Rightarrow> string \<Rightarrow> QoS \<Rightarrow> synthetic_flow list \<Rightarrow> conf config \<Rightarrow> conf config res" where
  "configure_path a b profile d label q fs c =
     (let a_tsd = a @ ''_tsd'';
          a_offload = a @ ''_offload'';
          a_rx = a_offload @ ''.output'';
          b_tx = b @ ''.input'';
          a_top = a @ ''_top'';
          a_split = a @ ''_split'';
          a_split_default = a_split @ ''.default'';
          b_join = b @ ''_join'';
          b_join_default = b_join @ ''.default''
      in bindR (configure_tsd a_tsd a 1400 c) (\<lambda>c.
         bindR (configure_offload a_offload a_tsd c) (\<lambda>c.
         bindR (configure_top a_top b_tx profile d c) (\<lambda>c.
         bindR (configure_split a_split a_rx fs d c) (\<lambda>c.
         bindR (configure_join b_join a_top c) (\<lambda>c.
         bindR (configure_qos label a_split_default b_join_default q c) (\<lambda>c.
         configure_flows a_split b_join fs d c)))))))"

definition configure_synthetic_network ::
  "string \<Rightarrow> string \<Rightarrow> string \<Rightarrow> string \<Rightarrow> synthetic_network \<Rightarrow> conf config \<Rightarrow> conf config res" where
  "configure_synthetic_network outer_ifname inner_ifname ingress_profile egress_profile spec c =
     (let c = configure_interface outer_ifname c;
          c = configure_interface inner_ifname c
      in bindR (configure_path outer_ifname inner_ifname ingress_profile Src ''ingress''
                  (sl_ingress (sn_default_link spec)) (sn_flows spec) c) (\<lambda>c.
         configure_path inner_ifname outer_ifname egress_profile Dst ''egress''
                  (sl_egress (sn_default_link spec)) (sn_flows spec) c))"

section \<open>The program\<close>

text \<open>
  \<^verbatim>\<open>main\<close>: the arguments, and one turn of its endless loop, which applies the specification if it can be read
  and then runs the engine until the signal arrives (\<open>stop\<close>).
\<close>

definition parse_args :: "string list \<Rightarrow> (string \<times> string \<times> string \<times> string \<times> string) option" where
  "parse_args args = (case args of [_, outer, inner, specpath, ingress, egress] \<Rightarrow> Some (outer, inner, specpath, ingress, egress) | _ \<Rightarrow> None)"

definition main_turn ::
  "'n os \<Rightarrow> (string \<Rightarrow> string list \<Rightarrow> string list) \<Rightarrow> (string \<Rightarrow> string + synthetic_network) \<Rightarrow> ('n sys \<Rightarrow> bool \<times> 'n sys) \<Rightarrow>
   string \<times> string \<times> string \<times> string \<times> string \<Rightarrow> load_state \<times> engine \<times> 'n sys \<Rightarrow>
   (printed list \<times> load_state \<times> engine \<times> 'n sys) res" where
  "main_turn os ho load stop = (\<lambda>(outer, inner, specpath, ingress, egress) (l, e, s).
     bindR (case try_read_qos_spec load specpath of
        None \<Rightarrow> Inr (e, s)
      | Some spec \<Rightarrow>
          bindR (configure_synthetic_network outer inner ingress egress spec new_config) (\<lambda>c.
          configure os ho c (e, s))) (\<lambda>(e, s).
     bindR (engine_main os (Some (default_options\<lparr>opt_done := Some stop\<rparr>)) (l, e, s)) (\<lambda>(out, l, e, s).
     let (line, l, s) = report_load l s in
     Inr (out @ (case line of None \<Rightarrow> [] | Some x \<Rightarrow> [Load x]), l, e, s))))"

end
