(* ===== verification/Network_Wiring.thy ===== *)
theory Network_Wiring
  imports Synthetic_Network
begin

text \<open>
  The network that \<^verbatim>\<open>configure_synthetic_network\<close> of \<^verbatim>\<open>rush/src/synthetic_network.rs\<close> describes, as an abstract graph of
  nodes and wires, and the proof that the configuration with its composed names implements it.
\<close>

section \<open>The network\<close>

datatype side = Outer | Inner

text \<open>A branch of a path: the default branch, or that of a flow.\<close>

datatype branch = Branch dir "string option"

datatype node =
    Interface side
  | Tsd_node side
  | Offload_node side
  | Split_node side
  | Join_node side
  | Top_node side
  | Rate_node branch
  | Loss_node branch
  | Latency_node branch
  | Jitter_node branch

fun source_side :: "dir \<Rightarrow> side" where
  "source_side Src = Outer"
| "source_side Dst = Inner"

fun target_side :: "dir \<Rightarrow> side" where
  "target_side Src = Inner"
| "target_side Dst = Outer"

text \<open>The four apps of a branch, and the wires from the split through them to the join.\<close>

definition branch_nodes :: "branch \<Rightarrow> node list" where
  "branch_nodes b = [Jitter_node b, Latency_node b, Loss_node b, Rate_node b]"

definition branch_port :: "string option \<Rightarrow> string" where
  "branch_port lo = (case lo of None \<Rightarrow> ''default'' | Some l \<Rightarrow> l)"

definition branch_wires :: "dir \<Rightarrow> string option \<Rightarrow> (node \<times> string \<times> node \<times> string) list" where
  "branch_wires d lo =
     (let b = Branch d lo in
      [(Jitter_node b, ''output'', Join_node (target_side d), branch_port lo),
       (Latency_node b, ''output'', Jitter_node b, ''input''),
       (Loss_node b, ''output'', Latency_node b, ''input''),
       (Rate_node b, ''output'', Loss_node b, ''input''),
       (Split_node (source_side d), branch_port lo, Rate_node b, ''input'')])"

definition path_nodes :: "dir \<Rightarrow> string list \<Rightarrow> node list" where
  "path_nodes d labels =
     concat (map (\<lambda>l. branch_nodes (Branch d (Some l))) (rev labels)) @ branch_nodes (Branch d None) @
     (let a = source_side d; b = target_side d in
      [Join_node b, Split_node a, Top_node a, Offload_node a, Tsd_node a])"

definition path_wires :: "dir \<Rightarrow> string list \<Rightarrow> (node \<times> string \<times> node \<times> string) list" where
  "path_wires d labels =
     concat (map (\<lambda>l. branch_wires d (Some l)) (rev labels)) @ branch_wires d None @
     (let a = source_side d; b = target_side d in
      [(Join_node b, ''output'', Top_node a, ''input''),
       (Offload_node a, ''output'', Split_node a, ''input''),
       (Top_node a, ''output'', Interface b, ''input''),
       (Tsd_node a, ''output'', Offload_node a, ''input''),
       (Interface a, ''output'', Tsd_node a, ''input'')])"

definition network_nodes :: "string list \<Rightarrow> node list" where
  "network_nodes labels = path_nodes Dst labels @ path_nodes Src labels @ [Interface Inner, Interface Outer]"

definition network_wires :: "string list \<Rightarrow> (node \<times> string \<times> node \<times> string) list" where
  "network_wires labels = path_wires Dst labels @ path_wires Src labels"

section \<open>Names and configurations of the nodes\<close>

fun dir_name :: "dir \<Rightarrow> string" where
  "dir_name Src = ''ingress''"
| "dir_name Dst = ''egress''"

fun branch_name :: "branch \<Rightarrow> string" where
  "branch_name (Branch d None) = dir_name d"
| "branch_name (Branch d (Some l)) = dir_name d @ ''_'' @ l"

fun side_name :: "string \<Rightarrow> string \<Rightarrow> side \<Rightarrow> string" where
  "side_name outer inner Outer = outer"
| "side_name outer inner Inner = inner"

fun node_name :: "string \<Rightarrow> string \<Rightarrow> node \<Rightarrow> string" where
  "node_name oi ii (Interface s) = side_name oi ii s"
| "node_name oi ii (Tsd_node s) = side_name oi ii s @ ''_tsd''"
| "node_name oi ii (Offload_node s) = side_name oi ii s @ ''_offload''"
| "node_name oi ii (Split_node s) = side_name oi ii s @ ''_split''"
| "node_name oi ii (Join_node s) = side_name oi ii s @ ''_join''"
| "node_name oi ii (Top_node s) = side_name oi ii s @ ''_top''"
| "node_name oi ii (Rate_node b) = ''rate_'' @ branch_name b"
| "node_name oi ii (Loss_node b) = ''loss_'' @ branch_name b"
| "node_name oi ii (Latency_node b) = ''latency_'' @ branch_name b"
| "node_name oi ii (Jitter_node b) = ''jitter_'' @ branch_name b"

text \<open>The direction of the path that an app of one side is on.\<close>

fun side_dir :: "side \<Rightarrow> dir" where
  "side_dir Outer = Src"
| "side_dir Inner = Dst"

definition dir_qos :: "dir \<Rightarrow> synthetic_link \<Rightarrow> QoS" where
  "dir_qos d l = (case d of Src \<Rightarrow> sl_ingress l | Dst \<Rightarrow> sl_egress l)"

fun branch_qos :: "synthetic_network \<Rightarrow> branch \<Rightarrow> QoS" where
  "branch_qos spec (Branch d None) = dir_qos d (sn_default_link spec)"
| "branch_qos spec (Branch d (Some l)) =
     (case find (\<lambda>f. sf_label f = l) (sn_flows spec) of
        Some f \<Rightarrow> dir_qos d (sf_link f)
      | None \<Rightarrow> dir_qos d (sn_default_link spec))"

fun node_conf :: "string \<Rightarrow> string \<Rightarrow> (dir \<Rightarrow> string) \<Rightarrow> synthetic_network \<Rightarrow> node \<Rightarrow> conf" where
  "node_conf oi ii profile spec (Interface s) = RawSocket (side_name oi ii s)"
| "node_conf oi ii profile spec (Tsd_node s) = TSD 1400"
| "node_conf oi ii profile spec (Offload_node s) = conf.Checksum"
| "node_conf oi ii profile spec (Split_node s) = conf.Split (split_flows (sn_flows spec) (side_dir s))"
| "node_conf oi ii profile spec (Join_node s) = Join"
| "node_conf oi ii profile spec (Top_node s) = Top (profile (side_dir s)) (side_dir s)"
| "node_conf oi ii profile spec (Rate_node b) = RateLimiter (qos_rate (branch_qos spec b))"
| "node_conf oi ii profile spec (Loss_node b) = Loss (clamp (qos_loss (branch_qos spec b)) (Fin 0) (Fin 1))"
| "node_conf oi ii profile spec (Latency_node b) = Latency (qos_latency (branch_qos spec b)) 100000"
| "node_conf oi ii profile spec (Jitter_node b) =
     Jitter (qos_jitter (branch_qos spec b)) (clamp (qos_jitter_strength (branch_qos spec b)) (Fin 0) (Fin 1))
       (qos_reorder_packets (branch_qos spec b)) 100000"

definition wire_spec :: "string \<Rightarrow> string \<Rightarrow> node \<times> string \<times> node \<times> string \<Rightarrow> link_spec" where
  "wire_spec oi ii = (\<lambda>(n, p, m, q).
     \<lparr>spec_from = node_name oi ii n, spec_output = p, spec_to = node_name oi ii m, spec_input = q\<rparr>)"

definition wire_text :: "string \<Rightarrow> string \<Rightarrow> node \<times> string \<times> node \<times> string \<Rightarrow> string" where
  "wire_text oi ii w = format_link (wire_spec oi ii w)"

lemma wire_text_eq:
  "wire_text oi ii (n, p, m, q) = node_name oi ii n @ ''.'' @ p @ '' -> '' @ node_name oi ii m @ ''.'' @ q"
  by (simp add: wire_text_def wire_spec_def format_link_def)

text \<open>Interface names: different, not empty, word characters, and no underscore, which separates the parts of composed names.\<close>

definition ifname_ok :: "string \<Rightarrow> bool" where
  "ifname_ok s \<longleftrightarrow> s \<noteq> [] \<and> (\<forall>c \<in> set s. word_char c \<and> c \<noteq> CHR ''_'')"

definition labels_ok :: "string list \<Rightarrow> bool" where
  "labels_ok ls \<longleftrightarrow> distinct ls \<and> ''default'' \<notin> set ls \<and> (\<forall>l \<in> set ls. LABEL_SYNTAX l)"

lemma check_labels_iff:
  "check_labels fs ls = Inr () \<longleftrightarrow> labels_ok (map sf_label fs) \<and> set ls \<inter> sf_label ` set fs = {}"
  by (induction fs arbitrary: ls) (auto simp: labels_ok_def)

lemma sanitize_labels_iff: "sanitize_labels spec = Inr () \<longleftrightarrow> labels_ok (map sf_label (sn_flows spec))"
  by (simp add: sanitize_labels_def check_labels_iff)

section \<open>Names are unique\<close>

lemma underscore_split:
  "CHR ''_'' \<notin> set x \<Longrightarrow> CHR ''_'' \<notin> set x' \<Longrightarrow> x @ CHR ''_'' # y = x' @ CHR ''_'' # y' \<longleftrightarrow> x = x' \<and> y = y'"
proof (induction x arbitrary: x')
  case Nil
  then show ?case by (cases x') auto
next
  case (Cons c x)
  then show ?case by (cases x') auto
qed

lemma no_underscore_neq: "CHR ''_'' \<notin> set z \<Longrightarrow> x @ CHR ''_'' # y \<noteq> z" "CHR ''_'' \<notin> set z \<Longrightarrow> z \<noteq> x @ CHR ''_'' # y"
  by auto

lemma branch_name_inj: "branch_name b = branch_name b' \<longleftrightarrow> b = b'"
proof -
  obtain d lo d' lo' where b: "b = Branch d lo" "b' = Branch d' lo'" by (metis branch.exhaust)
  show ?thesis
    unfolding b by (cases d; cases lo; cases d'; cases lo') auto
qed

lemma branch_name_neq:
  "branch_name b \<noteq> ''tsd''" "branch_name b \<noteq> ''offload''" "branch_name b \<noteq> ''split''" "branch_name b \<noteq> ''join''"
  "branch_name b \<noteq> ''top''"
proof -
  obtain d lo where b: "b = Branch d lo" by (metis branch.exhaust)
  show "branch_name b \<noteq> ''tsd''" "branch_name b \<noteq> ''offload''" "branch_name b \<noteq> ''split''" "branch_name b \<noteq> ''join''"
    "branch_name b \<noteq> ''top''"
    unfolding b by (cases d; cases lo; simp)+
qed

text \<open>The part of a name before its first underscore, and the part after it.\<close>

fun name_parts :: "string \<Rightarrow> string \<Rightarrow> node \<Rightarrow> string \<times> string option" where
  "name_parts oi ii (Interface s) = (side_name oi ii s, None)"
| "name_parts oi ii (Tsd_node s) = (side_name oi ii s, Some ''tsd'')"
| "name_parts oi ii (Offload_node s) = (side_name oi ii s, Some ''offload'')"
| "name_parts oi ii (Split_node s) = (side_name oi ii s, Some ''split'')"
| "name_parts oi ii (Join_node s) = (side_name oi ii s, Some ''join'')"
| "name_parts oi ii (Top_node s) = (side_name oi ii s, Some ''top'')"
| "name_parts oi ii (Rate_node b) = (''rate'', Some (branch_name b))"
| "name_parts oi ii (Loss_node b) = (''loss'', Some (branch_name b))"
| "name_parts oi ii (Latency_node b) = (''latency'', Some (branch_name b))"
| "name_parts oi ii (Jitter_node b) = (''jitter'', Some (branch_name b))"

definition join_parts :: "string \<times> string option \<Rightarrow> string" where
  "join_parts = (\<lambda>(x, y). case y of None \<Rightarrow> x | Some y \<Rightarrow> x @ CHR ''_'' # y)"

lemma node_name_parts: "node_name oi ii n = join_parts (name_parts oi ii n)"
  by (cases n) (simp_all add: join_parts_def)

lemma join_parts_inj:
  "CHR ''_'' \<notin> set (fst p) \<Longrightarrow> CHR ''_'' \<notin> set (fst q) \<Longrightarrow> join_parts p = join_parts q \<longleftrightarrow> p = q"
  by (cases p; cases q) (auto simp: join_parts_def underscore_split no_underscore_neq split: option.splits)

lemma side_name_ok:
  "ifname_ok oi \<Longrightarrow> ifname_ok ii \<Longrightarrow> ifname_ok (side_name oi ii s)"
  by (cases s) simp_all

lemma side_name_inj: "oi \<noteq> ii \<Longrightarrow> side_name oi ii s = side_name oi ii t \<longleftrightarrow> s = t"
  by (cases s; cases t) auto

lemma name_parts_fst:
  assumes "ifname_ok oi" and "ifname_ok ii"
  shows "CHR ''_'' \<notin> set (fst (name_parts oi ii n))"
proof -
  have "CHR ''_'' \<notin> set (side_name oi ii s)" for s
    using side_name_ok [OF assms, of s] by (auto simp: ifname_ok_def)
  then show ?thesis by (cases n) simp_all
qed

lemma name_parts_inj: "oi \<noteq> ii \<Longrightarrow> name_parts oi ii n = name_parts oi ii m \<longleftrightarrow> n = m"
  by (cases n; cases m) (auto simp: side_name_inj branch_name_inj branch_name_neq branch_name_neq [symmetric])

lemma node_name_inj:
  assumes "ifname_ok oi" and "ifname_ok ii" and "oi \<noteq> ii"
  shows "node_name oi ii n = node_name oi ii m \<longleftrightarrow> n = m"
  unfolding node_name_parts using assms by (simp add: join_parts_inj name_parts_fst name_parts_inj)

section \<open>Names are words\<close>

fun node_labels :: "node \<Rightarrow> string set" where
  "node_labels (Rate_node (Branch d (Some l))) = {l}"
| "node_labels (Loss_node (Branch d (Some l))) = {l}"
| "node_labels (Latency_node (Branch d (Some l))) = {l}"
| "node_labels (Jitter_node (Branch d (Some l))) = {l}"
| "node_labels _ = {}"

lemma word_literal:
  "list_all word_char ''_tsd''" "list_all word_char ''_offload''" "list_all word_char ''_split''"
  "list_all word_char ''_join''" "list_all word_char ''_top''" "list_all word_char ''rate_''" "list_all word_char ''loss_''"
  "list_all word_char ''latency_''" "list_all word_char ''jitter_''" "list_all word_char ''ingress''"
  "list_all word_char ''egress''" "list_all word_char ''_''" "list_all word_char ''output''" "list_all word_char ''input''"
  "list_all word_char ''default''"
  by (simp_all add: word_char_def)

lemma branch_name_word:
  assumes "\<forall>l. lo = Some l \<longrightarrow> LABEL_SYNTAX l"
  shows "list_all word_char (branch_name (Branch d lo))"
  using assms word_literal(10-12) by (cases d; cases lo) (auto simp: LABEL_SYNTAX_def list_all_iff)

lemma node_name_word:
  assumes "ifname_ok oi" and "ifname_ok ii" and "\<forall>l \<in> node_labels n. LABEL_SYNTAX l"
  shows "node_name oi ii n \<noteq> [] \<and> list_all word_char (node_name oi ii n)"
proof -
  have side: "side_name oi ii s \<noteq> []" "list_all word_char (side_name oi ii s)" for s
    using side_name_ok [OF assms(1,2), of s] by (auto simp: ifname_ok_def list_all_iff)
  have br: "list_all word_char (branch_name b)"
    if "n \<in> {Rate_node b, Loss_node b, Latency_node b, Jitter_node b}" for b
  proof -
    obtain d lo where "b = Branch d lo" by (metis branch.exhaust)
    then show ?thesis using that assms(3) branch_name_word [of lo d] by auto
  qed
  show ?thesis
    using side br word_literal by (cases n) (simp_all add: list_all_append)
qed

section \<open>Building the configuration\<close>

text \<open>A configuration that has the apps of a list of nodes and the links of a list of wires.\<close>

definition represents ::
  "(node \<Rightarrow> string) \<Rightarrow> (node \<Rightarrow> conf) \<Rightarrow> (node \<times> string \<times> node \<times> string \<Rightarrow> string) \<Rightarrow>
   node list \<times> (node \<times> string \<times> node \<times> string) list \<Rightarrow> conf config \<Rightarrow> bool" where
  "represents nm cf tx = (\<lambda>(ns, ws) c.
     map_of (cfg_apps c) = map_of (map (\<lambda>n. (nm n, cf n)) ns) \<and> distinct (map fst (cfg_apps c)) \<and>
     set (cfg_links c) = tx ` set ws \<and> distinct (cfg_links c))"

lemma represents_app:
  "represents nm cf tx (ns, ws) c \<Longrightarrow> x = nm n \<Longrightarrow> a = cf n \<Longrightarrow> represents nm cf tx (n # ns, ws) (add_app x a c)"
  by (auto simp: represents_def add_app_def update_conv' AList.distinct_update)

lemma represents_link:
  assumes "represents nm cf tx (ns, ws) c" and "t = tx w" and "tx w = format_link l" and "spec_ok l"
  shows "\<exists>c'. add_link t c = Inr c' \<and> represents nm cf tx (ns, w # ws) c'"
  using assms captures_format [OF assms(4)]
  by (auto simp: represents_def add_link_def canonical_link_def parse_link_def distinct_insert)


abbreviation net_rep ::
  "string \<Rightarrow> string \<Rightarrow> (dir \<Rightarrow> string) \<Rightarrow> synthetic_network \<Rightarrow> node list \<times> (node \<times> string \<times> node \<times> string) list \<Rightarrow>
   conf config \<Rightarrow> bool" where
  "net_rep oi ii profile spec \<equiv> represents (node_name oi ii) (node_conf oi ii profile spec) (wire_text oi ii)"

text \<open>The names of a wire are words: those of its nodes, if the labels in them are, and those of its ports.\<close>

definition wire_ok :: "node \<times> string \<times> node \<times> string \<Rightarrow> bool" where
  "wire_ok = (\<lambda>(n, p, m, q). (\<forall>l \<in> node_labels n \<union> node_labels m. LABEL_SYNTAX l) \<and> LABEL_SYNTAX p \<and> LABEL_SYNTAX q)"

lemma label_literals: "LABEL_SYNTAX ''output''" "LABEL_SYNTAX ''input''" "LABEL_SYNTAX ''default''"
  using word_literal(13-15) by (simp_all add: LABEL_SYNTAX_def)

lemma wire_spec_ok:
  assumes "ifname_ok oi" and "ifname_ok ii" and "wire_ok w"
  shows "spec_ok (wire_spec oi ii w)"
proof -
  obtain n p m q where w: "w = (n, p, m, q)" by (metis prod_cases4)
  have "\<forall>l \<in> node_labels n. LABEL_SYNTAX l" "\<forall>l \<in> node_labels m. LABEL_SYNTAX l" "LABEL_SYNTAX p" "LABEL_SYNTAX q"
    using assms(3) by (auto simp: wire_ok_def w)
  then show ?thesis
    using node_name_word [OF assms(1,2), of n] node_name_word [OF assms(1,2), of m]
    by (simp add: spec_ok_def wire_spec_def w LABEL_SYNTAX_def list_all_iff)
qed

lemma net_link:
  assumes "ifname_ok oi" and "ifname_ok ii" and "net_rep oi ii profile spec (ns, ws) c" and "wire_ok w" and "t = wire_text oi ii w"
  shows "\<exists>c'. add_link t c = Inr c' \<and> net_rep oi ii profile spec (ns, w # ws) c'"
  by (rule represents_link [OF assms(3,5) wire_text_def wire_spec_ok [OF assms(1,2,4)]])

lemma net_app_link:
  assumes "ifname_ok oi" and "ifname_ok ii" and "net_rep oi ii profile spec (ns, ws) c" and "wire_ok w" and "t = wire_text oi ii w"
    and "x = node_name oi ii n" and "a = node_conf oi ii profile spec n"
  shows "\<exists>c'. add_link t (add_app x a c) = Inr c' \<and> net_rep oi ii profile spec (n # ns, w # ws) c'"
  by (rule net_link [OF assms(1,2) represents_app [OF assms(3,6,7)] assms(4,5)])

lemma configure_qos_ok:
  assumes ok: "ifname_ok oi" "ifname_ok ii" and rep: "net_rep oi ii profile spec (ns, ws) c"
    and lo: "\<forall>l. lo = Some l \<longrightarrow> LABEL_SYNTAX l"
  shows "\<exists>c'. configure_qos (branch_name (Branch d lo)) (node_name oi ii (Split_node (source_side d)) @ ''.'' @ branch_port lo)
      (node_name oi ii (Join_node (target_side d)) @ ''.'' @ branch_port lo) (branch_qos spec (Branch d lo)) c = Inr c' \<and>
    net_rep oi ii profile spec (branch_nodes (Branch d lo) @ ns, branch_wires d lo @ ws) c'"
proof -
  let ?b = "Branch d lo" and ?n = "\<lambda>n. node_name oi ii n" and ?q = "branch_qos spec (Branch d lo)"
  have lab: "\<forall>l \<in> node_labels n. LABEL_SYNTAX l" if "n \<in> {Rate_node ?b, Loss_node ?b, Latency_node ?b, Jitter_node ?b}" for n
    using that lo by (cases lo) auto
  have port: "LABEL_SYNTAX (branch_port lo)" using lo label_literals by (cases lo) (simp_all add: branch_port_def)
  have w: "wire_ok (Split_node (source_side d), branch_port lo, Rate_node ?b, ''input'')"
    "wire_ok (Rate_node ?b, ''output'', Loss_node ?b, ''input'')" "wire_ok (Loss_node ?b, ''output'', Latency_node ?b, ''input'')"
    "wire_ok (Latency_node ?b, ''output'', Jitter_node ?b, ''input'')"
    "wire_ok (Jitter_node ?b, ''output'', Join_node (target_side d), branch_port lo)"
    using lab [of "Rate_node ?b"] lab [of "Loss_node ?b"] lab [of "Latency_node ?b"] lab [of "Jitter_node ?b"] port
    by (simp_all add: wire_ok_def label_literals ball_Un)
  obtain c1 where 1: "add_link (?n (Split_node (source_side d)) @ ''.'' @ branch_port lo @ '' -> '' @ ''rate_'' @ branch_name ?b @ ''.input'') c = Inr c1"
    "net_rep oi ii profile spec (ns, (Split_node (source_side d), branch_port lo, Rate_node ?b, ''input'') # ws) c1"
    using net_link [OF ok rep w(1) refl] by (auto simp: wire_text_eq)
  obtain c2 where 2: "add_link (''rate_'' @ branch_name ?b @ ''.output -> '' @ ''loss_'' @ branch_name ?b @ ''.input'')
      (add_app (''rate_'' @ branch_name ?b) (RateLimiter (qos_rate ?q)) c1) = Inr c2"
    "net_rep oi ii profile spec ([Rate_node ?b] @ ns, (Rate_node ?b, ''output'', Loss_node ?b, ''input'') #
      (Split_node (source_side d), branch_port lo, Rate_node ?b, ''input'') # ws) c2"
    using net_app_link [OF ok 1(2) w(2) refl refl refl, of "Rate_node ?b"]
    by (auto simp: wire_text_eq )
  obtain c3 where 3: "add_link (''loss_'' @ branch_name ?b @ ''.output -> '' @ ''latency_'' @ branch_name ?b @ ''.input'')
      (add_app (''loss_'' @ branch_name ?b) (Loss (clamp (qos_loss ?q) (Fin 0) (Fin 1))) c2) = Inr c3"
    "net_rep oi ii profile spec ([Loss_node ?b, Rate_node ?b] @ ns, [(Loss_node ?b, ''output'', Latency_node ?b, ''input''),
      (Rate_node ?b, ''output'', Loss_node ?b, ''input''),
      (Split_node (source_side d), branch_port lo, Rate_node ?b, ''input'')] @ ws) c3"
    using net_app_link [OF ok 2(2) w(3) refl refl refl, of "Loss_node ?b"]
    by (auto simp: wire_text_eq )
  obtain c4 where 4: "add_link (''latency_'' @ branch_name ?b @ ''.output -> '' @ ''jitter_'' @ branch_name ?b @ ''.input'')
      (add_app (''latency_'' @ branch_name ?b) (Latency (qos_latency ?q) delay_queue_capacity) c3) = Inr c4"
    "net_rep oi ii profile spec ([Latency_node ?b, Loss_node ?b, Rate_node ?b] @ ns,
      [(Latency_node ?b, ''output'', Jitter_node ?b, ''input''), (Loss_node ?b, ''output'', Latency_node ?b, ''input''),
      (Rate_node ?b, ''output'', Loss_node ?b, ''input''),
      (Split_node (source_side d), branch_port lo, Rate_node ?b, ''input'')] @ ws) c4"
    using net_app_link [OF ok 3(2) w(4) refl refl refl, of "Latency_node ?b"]
    by (auto simp: wire_text_eq delay_queue_capacity_def)
  obtain c5 where 5: "add_link (''jitter_'' @ branch_name ?b @ ''.output -> '' @ ?n (Join_node (target_side d)) @ ''.'' @ branch_port lo)
      (add_app (''jitter_'' @ branch_name ?b) (Jitter (qos_jitter ?q) (clamp (qos_jitter_strength ?q) (Fin 0) (Fin 1))
         (qos_reorder_packets ?q) delay_queue_capacity) c4) = Inr c5"
    "net_rep oi ii profile spec (branch_nodes ?b @ ns, branch_wires d lo @ ws) c5"
    using net_app_link [OF ok 4(2) w(5) refl refl refl, of "Jitter_node ?b"]
    by (auto simp: wire_text_eq delay_queue_capacity_def branch_nodes_def branch_wires_def Let_def)
  show ?thesis
    using 1(1) 2(1) 3(1) 4(1) 5 by (simp add: configure_qos_def Let_def)
qed


lemma branch_qos_flow:
  assumes "labels_ok (map sf_label (sn_flows spec))" and "f \<in> set (sn_flows spec)"
  shows "branch_qos spec (Branch d (Some (sf_label f))) = dir_qos d (sf_link f)"
proof -
  have inj: "inj_on sf_label (set (sn_flows spec))" using assms(1) by (simp add: labels_ok_def distinct_map)
  obtain g where g: "find (\<lambda>g. sf_label g = sf_label f) (sn_flows spec) = Some g"
    using assms(2) by (metis (mono_tags, lifting) find_None_iff not_None_eq)
  then have "g \<in> set (sn_flows spec)" "sf_label g = sf_label f" by (auto simp: find_Some_iff)
  then have "g = f" using inj assms(2) by (auto dest: inj_onD)
  with g show ?thesis by simp
qed

lemma configure_flows_ok:
  assumes ok: "ifname_ok oi" "ifname_ok ii" and labels: "labels_ok (map sf_label (sn_flows spec))"
    and "set fs \<subseteq> set (sn_flows spec)" and "net_rep oi ii profile spec (ns, ws) c"
  shows "\<exists>c'. configure_flows (node_name oi ii (Split_node (source_side d))) (node_name oi ii (Join_node (target_side d))) fs d c = Inr c' \<and>
    net_rep oi ii profile spec (concat (map (\<lambda>l. branch_nodes (Branch d (Some l))) (rev (map sf_label fs))) @ ns,
      concat (map (\<lambda>l. branch_wires d (Some l)) (rev (map sf_label fs))) @ ws) c'"
  using assms(4,5)
proof (induction fs arbitrary: c ns ws)
  case Nil
  then show ?case by (simp add: configure_flows_def)
next
  case (Cons f fs)
  have f: "f \<in> set (sn_flows spec)" using Cons.prems(1) by simp
  have "\<forall>l. Some (sf_label f) = Some l \<longrightarrow> LABEL_SYNTAX l" using labels f by (auto simp: labels_ok_def)
  from configure_qos_ok [OF ok Cons.prems(2) this, of d] obtain c1 where
    1: "configure_qos (branch_name (Branch d (Some (sf_label f)))) (node_name oi ii (Split_node (source_side d)) @ ''.'' @ sf_label f)
        (node_name oi ii (Join_node (target_side d)) @ ''.'' @ sf_label f) (dir_qos d (sf_link f)) c = Inr c1"
      "net_rep oi ii profile spec (branch_nodes (Branch d (Some (sf_label f))) @ ns, branch_wires d (Some (sf_label f)) @ ws) c1"
    unfolding branch_port_def option.case branch_qos_flow [OF labels f] by blast
  have "configure_flow (node_name oi ii (Split_node (source_side d))) (node_name oi ii (Join_node (target_side d))) d f c = Inr c1"
    using 1(1) by (cases d) (simp_all add: configure_flow_def dir_qos_def Let_def)
  then show ?case
    using Cons.IH [OF _ 1(2)] Cons.prems(1) by (simp add: configure_flows_def)
qed

lemma configure_path_ok:
  assumes ok: "ifname_ok oi" "ifname_ok ii" and labels: "labels_ok (map sf_label (sn_flows spec))"
    and rep: "net_rep oi ii profile spec (ns, ws) c"
  shows "\<exists>c'. configure_path (side_name oi ii (source_side d)) (side_name oi ii (target_side d)) (profile d) d (dir_name d)
      (dir_qos d (sn_default_link spec)) (sn_flows spec) c = Inr c' \<and>
    net_rep oi ii profile spec (path_nodes d (map sf_label (sn_flows spec)) @ ns, path_wires d (map sf_label (sn_flows spec)) @ ws) c'"
proof -
  let ?a = "source_side d" and ?b = "target_side d"
  have dirs: "side_dir ?a = d" by (cases d) simp_all
  have w: "wire_ok (Interface ?a, ''output'', Tsd_node ?a, ''input'')" "wire_ok (Tsd_node ?a, ''output'', Offload_node ?a, ''input'')"
    "wire_ok (Top_node ?a, ''output'', Interface ?b, ''input'')" "wire_ok (Offload_node ?a, ''output'', Split_node ?a, ''input'')"
    "wire_ok (Join_node ?b, ''output'', Top_node ?a, ''input'')"
    by (simp_all add: wire_ok_def label_literals)
  obtain c1 where 1: "configure_tsd (side_name oi ii ?a @ ''_tsd'') (side_name oi ii ?a) 1400 c = Inr c1"
    "net_rep oi ii profile spec (Tsd_node ?a # ns, (Interface ?a, ''output'', Tsd_node ?a, ''input'') # ws) c1"
    using net_app_link [OF ok rep w(1) refl refl refl, of "Tsd_node ?a"] by (auto simp: wire_text_eq configure_tsd_def Let_def)
  obtain c2 where 2: "configure_offload (side_name oi ii ?a @ ''_offload'') (side_name oi ii ?a @ ''_tsd'') c1 = Inr c2"
    "net_rep oi ii profile spec ([Offload_node ?a, Tsd_node ?a] @ ns,
      [(Tsd_node ?a, ''output'', Offload_node ?a, ''input''), (Interface ?a, ''output'', Tsd_node ?a, ''input'')] @ ws) c2"
    using net_app_link [OF ok 1(2) w(2) refl refl refl, of "Offload_node ?a"] by (auto simp: wire_text_eq configure_offload_def Let_def)
  obtain c3 where 3: "configure_top (side_name oi ii ?a @ ''_top'') (side_name oi ii ?b @ ''.input'') (profile d) d c2 = Inr c3"
    "net_rep oi ii profile spec ([Top_node ?a, Offload_node ?a, Tsd_node ?a] @ ns,
      [(Top_node ?a, ''output'', Interface ?b, ''input''), (Tsd_node ?a, ''output'', Offload_node ?a, ''input''),
       (Interface ?a, ''output'', Tsd_node ?a, ''input'')] @ ws) c3"
    using net_app_link [OF ok 2(2) w(3) refl refl refl, of "Top_node ?a"] by (auto simp: wire_text_eq configure_top_def Let_def dirs)
  obtain c4 where 4: "configure_split (side_name oi ii ?a @ ''_split'') (side_name oi ii ?a @ ''_offload'' @ ''.output'') (sn_flows spec) d c3 = Inr c4"
    "net_rep oi ii profile spec ([Split_node ?a, Top_node ?a, Offload_node ?a, Tsd_node ?a] @ ns,
      [(Offload_node ?a, ''output'', Split_node ?a, ''input''), (Top_node ?a, ''output'', Interface ?b, ''input''),
       (Tsd_node ?a, ''output'', Offload_node ?a, ''input''), (Interface ?a, ''output'', Tsd_node ?a, ''input'')] @ ws) c4"
    using net_app_link [OF ok 3(2) w(4) refl refl refl, of "Split_node ?a"] by (auto simp: wire_text_eq configure_split_def Let_def dirs)
  obtain c5 where 5: "configure_join (side_name oi ii ?b @ ''_join'') (side_name oi ii ?a @ ''_top'') c4 = Inr c5"
    "net_rep oi ii profile spec ([Join_node ?b, Split_node ?a, Top_node ?a, Offload_node ?a, Tsd_node ?a] @ ns,
      [(Join_node ?b, ''output'', Top_node ?a, ''input''), (Offload_node ?a, ''output'', Split_node ?a, ''input''),
       (Top_node ?a, ''output'', Interface ?b, ''input''), (Tsd_node ?a, ''output'', Offload_node ?a, ''input''),
       (Interface ?a, ''output'', Tsd_node ?a, ''input'')] @ ws) c5"
    using net_app_link [OF ok 4(2) w(5) refl refl refl, of "Join_node ?b"] by (auto simp: wire_text_eq configure_join_def Let_def)
  obtain c6 where 6: "configure_qos (dir_name d) (side_name oi ii ?a @ ''_split'' @ ''.default'') (side_name oi ii ?b @ ''_join'' @ ''.default'')
      (dir_qos d (sn_default_link spec)) c5 = Inr c6"
    "net_rep oi ii profile spec (branch_nodes (Branch d None) @ [Join_node ?b, Split_node ?a, Top_node ?a, Offload_node ?a, Tsd_node ?a] @ ns,
      branch_wires d None @
      [(Join_node ?b, ''output'', Top_node ?a, ''input''), (Offload_node ?a, ''output'', Split_node ?a, ''input''),
       (Top_node ?a, ''output'', Interface ?b, ''input''), (Tsd_node ?a, ''output'', Offload_node ?a, ''input''),
       (Interface ?a, ''output'', Tsd_node ?a, ''input'')] @ ws) c6"
    using configure_qos_ok [OF ok 5(2), of None d] by (auto simp: branch_port_def)
  from configure_flows_ok [OF ok labels subset_refl 6(2), of d] 1(1) 2(1) 3(1) 4(1) 5(1) 6(1) show ?thesis
    by (auto simp: configure_path_def path_nodes_def path_wires_def Let_def)
qed

lemma configure_synthetic_network_ok:
  assumes ok: "ifname_ok oi" "ifname_ok ii" and labels: "labels_ok (map sf_label (sn_flows spec))"
  shows "\<exists>c. configure_synthetic_network oi ii (profile Src) (profile Dst) spec new_config = Inr c \<and>
    net_rep oi ii profile spec (network_nodes (map sf_label (sn_flows spec)), network_wires (map sf_label (sn_flows spec))) c"
proof -
  have "net_rep oi ii profile spec ([], []) new_config" by (simp add: represents_def new_config_def)
  then have "net_rep oi ii profile spec ([Interface Outer], []) (configure_interface oi new_config)"
    unfolding configure_interface_def by (rule represents_app) simp_all
  then have "net_rep oi ii profile spec ([Interface Inner, Interface Outer], [])
      (configure_interface ii (configure_interface oi new_config))"
    unfolding configure_interface_def [of ii] by (rule represents_app) simp_all
  from configure_path_ok [OF ok labels this, of Src] obtain c1 where
    1: "configure_path oi ii (profile Src) Src ''ingress'' (sl_ingress (sn_default_link spec)) (sn_flows spec)
        (configure_interface ii (configure_interface oi new_config)) = Inr c1"
      "net_rep oi ii profile spec (path_nodes Src (map sf_label (sn_flows spec)) @ [Interface Inner, Interface Outer],
        path_wires Src (map sf_label (sn_flows spec)) @ []) c1"
    by (auto simp: dir_qos_def)
  from configure_path_ok [OF ok labels 1(2), of Dst] 1(1) show ?thesis
    by (auto simp: dir_qos_def configure_synthetic_network_def network_nodes_def network_wires_def)
qed


section \<open>The wiring is well formed\<close>

definition branches :: "string list \<Rightarrow> string option set" where
  "branches labels = insert None (Some ` set labels)"

definition trunk :: "dir \<Rightarrow> (node \<times> string \<times> node \<times> string) set" where
  "trunk d =
     {(Join_node (target_side d), ''output'', Top_node (source_side d), ''input''),
      (Offload_node (source_side d), ''output'', Split_node (source_side d), ''input''),
      (Top_node (source_side d), ''output'', Interface (target_side d), ''input''),
      (Tsd_node (source_side d), ''output'', Offload_node (source_side d), ''input''),
      (Interface (source_side d), ''output'', Tsd_node (source_side d), ''input'')}"

lemma network_wires_iff:
  "w \<in> set (network_wires labels) \<longleftrightarrow> (\<exists>d. w \<in> trunk d \<or> (\<exists>lo \<in> branches labels. w \<in> set (branch_wires d lo)))"
proof -
  have "set (path_wires d labels) = trunk d \<union> (\<Union>lo \<in> branches labels. set (branch_wires d lo))" for d
    by (auto simp: path_wires_def trunk_def branches_def Let_def)
  moreover have "(\<exists>d. P d) \<longleftrightarrow> P Src \<or> P Dst" for P by (metis dir.exhaust)
  ultimately show ?thesis by (auto simp: network_wires_def)
qed

lemma side_inj: "source_side d = source_side d' \<longleftrightarrow> d = d'" "target_side d = target_side d' \<longleftrightarrow> d = d'"
  by (cases d; cases d'; simp)+

lemma branch_port_inj:
  "labels_ok labels \<Longrightarrow> lo \<in> branches labels \<Longrightarrow> lo' \<in> branches labels \<Longrightarrow> branch_port lo = branch_port lo' \<longleftrightarrow> lo = lo'"
  by (auto simp: branches_def branch_port_def labels_ok_def)

lemma wires_by_ports:
  assumes "labels_ok labels" and "(n, p, m, q) \<in> set (network_wires labels)" and "(n', p', m', q') \<in> set (network_wires labels)"
  shows "n = n' \<Longrightarrow> p = p' \<Longrightarrow> m = m' \<and> q = q'" "m = m' \<Longrightarrow> q = q' \<Longrightarrow> n = n' \<and> p = p'"
  using assms(2,3) unfolding network_wires_iff trunk_def branch_wires_def Let_def
  by (auto simp: side_inj branch_port_inj [OF assms(1)])

lemma wires_words:
  assumes "labels_ok labels" and "w \<in> set (network_wires labels)"
  shows "wire_ok w"
proof -
  have "LABEL_SYNTAX l" if "lo \<in> branches labels" "lo = Some l" for lo l
    using assms(1) that by (auto simp: branches_def labels_ok_def)
  moreover have "LABEL_SYNTAX (branch_port lo)" if "lo \<in> branches labels" for lo
    using assms(1) that label_literals(3) by (auto simp: branches_def labels_ok_def branch_port_def)
  ultimately have "\<forall>lo \<in> branches labels. LABEL_SYNTAX (branch_port lo) \<and> (\<forall>n \<in> set (branch_nodes (Branch d lo)). \<forall>l \<in> node_labels n. LABEL_SYNTAX l)" for d
    unfolding branch_nodes_def branches_def by auto
  then show ?thesis
    using assms(2) unfolding network_wires_iff trunk_def branch_wires_def branch_nodes_def Let_def
    by (fastforce simp: wire_ok_def label_literals)
qed

lemma wires_ends:
  assumes "(n, p, m, q) \<in> set (network_wires labels)"
  shows "n \<in> set (network_nodes labels)" "m \<in> set (network_nodes labels)"
proof -
  have nodes: "set (path_nodes d labels) \<subseteq> set (network_nodes labels)" "Interface s \<in> set (network_nodes labels)" for d s
    by (cases d; auto simp: network_nodes_def) (cases s; auto simp: network_nodes_def)
  have br: "set (branch_nodes (Branch d lo)) \<subseteq> set (path_nodes d labels)" if "lo \<in> branches labels" for d lo
    using that by (auto simp: path_nodes_def branches_def)
  have fixed: "{Join_node (target_side d), Split_node (source_side d), Top_node (source_side d), Offload_node (source_side d),
      Tsd_node (source_side d)} \<subseteq> set (network_nodes labels)" for d
    using nodes(1) [of d] by (auto simp: path_nodes_def Let_def)
  have br': "{Rate_node (Branch d lo), Loss_node (Branch d lo), Latency_node (Branch d lo), Jitter_node (Branch d lo)} \<subseteq>
      set (network_nodes labels)" if "lo \<in> branches labels" for d lo
    using br [OF that, of d] nodes(1) [of d] by (auto simp: branch_nodes_def)
  have "n \<in> set (network_nodes labels) \<and> m \<in> set (network_nodes labels)"
    using assms nodes(2) fixed br' unfolding network_wires_iff trunk_def branch_wires_def Let_def by fastforce
  then show "n \<in> set (network_nodes labels)" "m \<in> set (network_nodes labels)" by auto
qed


lemma rep_keys: "net_rep oi ii profile spec (ns, ws) c \<Longrightarrow> fst ` set (cfg_apps c) = node_name oi ii ` set ns"
  using dom_map_of_conv_image_fst [of "cfg_apps c"] dom_map_of_conv_image_fst [of "map (\<lambda>n. (node_name oi ii n, node_conf oi ii profile spec n)) ns"]
  by (auto simp: represents_def image_image)

lemma rep_conf:
  assumes "ifname_ok oi" "ifname_ok ii" "oi \<noteq> ii" and "net_rep oi ii profile spec (ns, ws) c" and "n \<in> set ns"
  shows "map_of (cfg_apps c) (node_name oi ii n) = Some (node_conf oi ii profile spec n)"
proof -
  have "map_of (map (\<lambda>n. (node_name oi ii n, f n)) ns) (node_name oi ii n) = Some (f n)" for f :: "node \<Rightarrow> conf"
    using assms(5) by (induction ns) (auto simp: node_name_inj [OF assms(1-3)])
  then show ?thesis using assms(4) by (simp add: represents_def)
qed

lemma parse_wire: "ifname_ok oi \<Longrightarrow> ifname_ok ii \<Longrightarrow> wire_ok w \<Longrightarrow> parse_link (wire_text oi ii w) = Inr (wire_spec oi ii w)"
  using captures_format [OF wire_spec_ok] by (simp add: parse_link_def wire_text_def)

lemma network_config_ok:
  assumes ok: "ifname_ok oi" "ifname_ok ii" "oi \<noteq> ii" and labels: "labels_ok labels"
    and rep: "net_rep oi ii profile spec (network_nodes labels, network_wires labels) c"
  shows "config_ok c"
  unfolding config_ok_def
proof (intro conjI ballI allI impI)
  note parse = parse_wire [OF ok(1,2) wires_words [OF labels]]
  have links: "set (cfg_links c) = wire_text oi ii ` set (network_wires labels)" using rep by (simp add: represents_def)
  show "distinct (map fst (cfg_apps c))" "distinct (cfg_links c)" using rep by (simp_all add: represents_def)
  show "\<exists>l. parse_link t = Inr l \<and> spec_from l \<in> fst ` set (cfg_apps c) \<and> spec_to l \<in> fst ` set (cfg_apps c)"
    if "t \<in> set (cfg_links c)" for t
  proof -
    from that obtain n p m q where w: "t = wire_text oi ii (n, p, m, q)" "(n, p, m, q) \<in> set (network_wires labels)"
      by (auto simp: links)
    then show ?thesis
      using wires_ends [OF w(2)] parse [OF w(2)] by (auto simp: rep_keys [OF rep] wire_spec_def)
  qed
  show "(spec_from l, spec_output l) \<noteq> (spec_from l', spec_output l')" "(spec_to l, spec_input l) \<noteq> (spec_to l', spec_input l')"
    if "t \<in> set (cfg_links c)" "t' \<in> set (cfg_links c)" "parse_link t = Inr l" "parse_link t' = Inr l'" "t \<noteq> t'" for t t' l l'
  proof -
    from that(1) obtain n p m q where w: "t = wire_text oi ii (n, p, m, q)" "(n, p, m, q) \<in> set (network_wires labels)"
      by (auto simp: links)
    from that(2) obtain n' p' m' q' where
      w': "t' = wire_text oi ii (n', p', m', q')" "(n', p', m', q') \<in> set (network_wires labels)"
      by (auto simp: links)
    have "l = wire_spec oi ii (n, p, m, q)" "l' = wire_spec oi ii (n', p', m', q')"
      using that(3,4) parse [OF w(2)] parse [OF w'(2)] by (simp_all add: w w')
    then show "(spec_from l, spec_output l) \<noteq> (spec_from l', spec_output l')" "(spec_to l, spec_input l) \<noteq> (spec_to l', spec_input l')"
      using wires_by_ports [OF labels w(2) w'(2)] that(5) by (auto simp: wire_spec_def node_name_inj [OF ok] w w')
  qed
qed

section \<open>Running the network\<close>

text \<open>The sockets of the two interfaces and the files of the two profiles can be opened.\<close>

definition opens :: "'n os \<Rightarrow> string \<Rightarrow> string \<Rightarrow> string \<Rightarrow> string \<Rightarrow> bool" where
  "opens os oi ii ingress egress \<longleftrightarrow>
     (\<forall>f \<in> {oi, ii}. \<forall>net. \<exists>r. open_raw_socket os f net = Inr r) \<and>
     (\<forall>f \<in> {ingress, egress}. \<forall>s. \<exists>s'. open_flowtop_map os f s = Inr s')"

text \<open>The loss ratios of the specification are numbers.\<close>

definition losses_are_numbers :: "synthetic_network \<Rightarrow> bool" where
  "losses_are_numbers spec \<longleftrightarrow>
     (\<forall>l \<in> insert (sn_default_link spec) (sf_link ` set (sn_flows spec)). qos_loss (sl_ingress l) \<noteq> NaN \<and> qos_loss (sl_egress l) \<noteq> NaN)"

lemma loss_new_clamp: "x \<noteq> NaN \<Longrightarrow> loss_new (clamp x (Fin 0) (Fin 1)) = Inr (clamp x (Fin 0) (Fin 1))"
  by (cases x) (auto simp: loss_new_def clamp_def)

lemma branch_loss_number:
  assumes "losses_are_numbers spec"
  shows "qos_loss (branch_qos spec b) \<noteq> NaN"
proof -
  obtain d lo where b: "b = Branch d lo" by (metis branch.exhaust)
  have "qos_loss (dir_qos d l) \<noteq> NaN" if "l \<in> insert (sn_default_link spec) (sf_link ` set (sn_flows spec))" for l
    using assms that by (cases d) (auto simp: losses_are_numbers_def dir_qos_def)
  then show ?thesis
    by (cases lo) (auto simp: b find_Some_iff split: option.splits)
qed

lemma node_starts:
  assumes "opens os oi ii (profile Src) (profile Dst)" and "losses_are_numbers spec"
  shows "\<exists>r. app_new os (node_conf oi ii profile spec n) s = Inr r"
proof -
  have sock: "\<exists>r. open_raw_socket os (side_name oi ii t) net = Inr r" for t net
    using assms(1) by (cases t) (auto simp: opens_def)
  have map: "\<exists>s'. open_flowtop_map os (profile d) s = Inr s'" for d
    using assms(1) by (cases d) (auto simp: opens_def)
  show ?thesis
  proof (cases n)
    case (Interface t)
    then show ?thesis using sock [of t "sys_net s"] by (auto simp: app_new_def)
  next
    case (Top_node t)
    then show ?thesis using map [of "side_dir t"] by (auto simp: app_new_def)
  qed (simp_all add: app_new_def tsd_new_def loss_new_clamp branch_loss_number [OF assms(2)])
qed


lemma network_nodes_iff:
  "n \<in> set (network_nodes labels) \<longleftrightarrow>
   (\<exists>t. n \<in> {Interface t, Tsd_node t, Offload_node t, Split_node t, Join_node t, Top_node t}) \<or>
   (\<exists>d. \<exists>lo \<in> branches labels. n \<in> {Rate_node (Branch d lo), Loss_node (Branch d lo), Latency_node (Branch d lo), Jitter_node (Branch d lo)})"
proof -
  have "set (path_nodes d labels) = {Join_node (target_side d), Split_node (source_side d), Top_node (source_side d),
      Offload_node (source_side d), Tsd_node (source_side d)} \<union>
    (\<Union>lo \<in> branches labels. {Rate_node (Branch d lo), Loss_node (Branch d lo), Latency_node (Branch d lo), Jitter_node (Branch d lo)})" for d
    by (auto simp: path_nodes_def branches_def branch_nodes_def Let_def)
  moreover have "(\<exists>d. P d) \<longleftrightarrow> P Src \<or> P Dst" for P by (metis dir.exhaust)
  moreover have "(\<exists>t. Q t) \<longleftrightarrow> Q Outer \<or> Q Inner" for Q by (metis side.exhaust)
  ultimately show ?thesis by (auto simp: network_nodes_def)
qed

definition pull_node :: "node \<Rightarrow> bool" where
  "pull_node n = (case n of Interface _ \<Rightarrow> True | Latency_node _ \<Rightarrow> True | Jitter_node _ \<Rightarrow> True | _ \<Rightarrow> False)"

text \<open>An engine that runs the network.\<close>

definition runs_network :: "string \<Rightarrow> string \<Rightarrow> string list \<Rightarrow> engine \<Rightarrow> bool" where
  "runs_network oi ii labels e \<longleftrightarrow>
     fst ` set (link_table e) = wire_text oi ii ` set (network_wires labels) \<and>
     fst ` set (app_table e) = node_name oi ii ` set (network_nodes labels) \<and>
     (\<forall>n \<in> set (network_nodes labels). pushes_app e (node_name oi ii n) \<and> (pulls_app e (node_name oi ii n) \<longleftrightarrow> pull_node n))"

lemma network_edge:
  assumes "ifname_ok oi" "ifname_ok ii" and "labels_ok labels" and "runs_network oi ii labels e"
  shows "edge e x y \<longleftrightarrow> (\<exists>n p m q. (n, p, m, q) \<in> set (network_wires labels) \<and> x = node_name oi ii n \<and> y = node_name oi ii m)"
proof -
  have "parse_link (wire_text oi ii w) = Inr (wire_spec oi ii w)" if "w \<in> set (network_wires labels)" for w
    using parse_wire [OF assms(1,2) wires_words [OF assms(3) that]] .
  moreover have "fst ` set (link_table e) = wire_text oi ii ` set (network_wires labels)"
    using assms(4) by (simp add: runs_network_def)
  ultimately show ?thesis
    unfolding edge_def by (force simp: wire_spec_def)
qed

lemma no_self_wire: "(n, p, n, q) \<notin> set (network_wires labels)"
  unfolding network_wires_iff trunk_def branch_wires_def Let_def by auto

lemma network_downstream:
  assumes "ifname_ok oi" "ifname_ok ii" and "labels_ok labels" and run: "runs_network oi ii labels e"
    and "n \<in> set (network_nodes labels)"
  shows "downstream e (node_name oi ii n)"
proof -
  let ?D = "\<lambda>n. downstream e (node_name oi ii n)"
  have push: "pushes_app e (node_name oi ii m)" if "m \<in> set (network_nodes labels)" for m
    using run that by (simp add: runs_network_def)
  have step: "?D m" if "(k, p, m, q) \<in> set (network_wires labels)" "pull_node k \<or> ?D k" for k p m q
  proof -
    have "edge e (node_name oi ii k) (node_name oi ii m)"
      using that(1) network_edge [OF assms(1-4)] by blast
    moreover have "pulls_app e (node_name oi ii k)" if "pull_node k"
      using run wires_ends(1) [OF \<open>(k, p, m, q) \<in> _\<close>] that by (simp add: runs_network_def)
    ultimately show ?thesis
      using that(2) push [OF wires_ends(2) [OF that(1)]] downstream.first downstream.further by blast
  qed
  have side: "\<exists>d. t = source_side d" "\<exists>d. t = target_side d" for t by (cases t; metis source_side.simps target_side.simps)+
  have tr: "trunk d \<subseteq> set (network_wires labels)" for d using network_wires_iff by blast
  have br: "set (branch_wires d lo) \<subseteq> set (network_wires labels)" if "lo \<in> branches labels" for d lo
    using that network_wires_iff by blast
  have none: "None \<in> branches labels" by (simp add: branches_def)
  have tsd: "?D (Tsd_node (source_side d))" for d
    by (rule step [of "Interface (source_side d)" "''output''" _ "''input''"]) (use tr [of d] in \<open>simp_all add: trunk_def pull_node_def\<close>)
  have off: "?D (Offload_node (source_side d))" for d
    by (rule step [of "Tsd_node (source_side d)" "''output''" _ "''input''"]) (use tr [of d] tsd in \<open>simp_all add: trunk_def\<close>)
  have spl: "?D (Split_node (source_side d))" for d
    by (rule step [of "Offload_node (source_side d)" "''output''" _ "''input''"]) (use tr [of d] off in \<open>simp_all add: trunk_def\<close>)
  have b: "?D (Rate_node (Branch d lo))" "?D (Loss_node (Branch d lo))" "?D (Latency_node (Branch d lo))" "?D (Jitter_node (Branch d lo))"
    "?D (Join_node (target_side d))" if "lo \<in> branches labels" for d lo
  proof -
    note w = br [OF that, of d, unfolded branch_wires_def Let_def]
    show r: "?D (Rate_node (Branch d lo))"
      by (rule step [of "Split_node (source_side d)" "branch_port lo" _ "''input''"]) (use w spl in simp_all)
    show l: "?D (Loss_node (Branch d lo))"
      by (rule step [of "Rate_node (Branch d lo)" "''output''" _ "''input''"]) (use w r in simp_all)
    show "?D (Latency_node (Branch d lo))"
      by (rule step [of "Loss_node (Branch d lo)" "''output''" _ "''input''"]) (use w l in simp_all)
    show "?D (Jitter_node (Branch d lo))"
      by (rule step [of "Latency_node (Branch d lo)" "''output''" _ "''input''"]) (use w in \<open>simp_all add: pull_node_def\<close>)
    show "?D (Join_node (target_side d))"
      by (rule step [of "Jitter_node (Branch d lo)" "''output''" _ "branch_port lo"]) (use w in \<open>simp_all add: pull_node_def\<close>)
  qed
  have top: "?D (Top_node (source_side d))" for d
    by (rule step [of "Join_node (target_side d)" "''output''" _ "''input''"]) (use tr [of d] b(5) [OF none] in \<open>simp_all add: trunk_def\<close>)
  have ifc: "?D (Interface (target_side d))" for d
    by (rule step [of "Top_node (source_side d)" "''output''" _ "''input''"]) (use tr [of d] top in \<open>simp_all add: trunk_def\<close>)
  have sides: "?D (Tsd_node t)" "?D (Offload_node t)" "?D (Split_node t)" "?D (Top_node t)" "?D (Interface t)" "?D (Join_node t)" for t
    using side [of t] tsd off spl top ifc b(5) [OF none] by metis+
  show ?thesis
    using assms(5) sides b(1-4) unfolding network_nodes_iff by (auto simp del: node_name.simps)
qed

lemma runs_network_order:
  assumes ok: "ifname_ok oi" "ifname_ok ii" "oi \<noteq> ii" and labels: "labels_ok labels" and run: "runs_network oi ii labels e"
    and "links_connect e" and "hash_order ho" and "distinct (map fst (app_table e))" and "compute_breathe_order ho e = Inr e"
  shows "set (inhale e) = node_name oi ii ` {n \<in> set (network_nodes labels). pull_node n}"
    and "set (exhale e) = node_name oi ii ` set (network_nodes labels)" and "distinct (inhale e)" "distinct (exhale e)"
proof -
  have names: "fst ` set (app_table e) = node_name oi ii ` set (network_nodes labels)"
    and pulls: "\<And>n. n \<in> set (network_nodes labels) \<Longrightarrow> pulls_app e (node_name oi ii n) \<longleftrightarrow> pull_node n"
    using run by (simp_all add: runs_network_def)
  have "\<forall>x. \<not> edge e x x"
    unfolding network_edge [OF ok(1,2) labels run] using no_self_wire node_name_inj [OF ok] by fastforce
  with compute_breathe_order_ok [OF assms(6-8)] assms(9) have
    o: "distinct (inhale e)" "set (inhale e) = Collect (pulls_app e)" "distinct (exhale e)"
      "set (exhale e) = Collect (downstream e)"
    by auto
  have table: "x \<in> node_name oi ii ` set (network_nodes labels)" if "pulls_app e x" for x
    using that unfolding pulls_app_def names [symmetric] by (metis map_of_eq_None_iff option.distinct(1))
  show "set (inhale e) = node_name oi ii ` {n \<in> set (network_nodes labels). pull_node n}"
    unfolding o(2)
  proof (intro equalityI subsetI)
    fix x assume x: "x \<in> Collect (pulls_app e)"
    then obtain n where "n \<in> set (network_nodes labels)" "x = node_name oi ii n" using table [of x] by auto
    then show "x \<in> node_name oi ii ` {n \<in> set (network_nodes labels). pull_node n}" using x pulls by blast
  qed (use pulls in \<open>auto simp del: node_name.simps\<close>)
  show "set (exhale e) = node_name oi ii ` set (network_nodes labels)"
    unfolding o(4)
  proof (intro equalityI subsetI)
    fix x assume "x \<in> Collect (downstream e)"
    then have "x \<in> fst ` set (app_table e)" using pushes_in_table [OF downstream_pushes] by simp
    then show "x \<in> node_name oi ii ` set (network_nodes labels)" by (simp only: names)
  qed (use network_downstream [OF ok(1,2) labels run] in \<open>auto simp del: node_name.simps\<close>)
  show "distinct (inhale e)" "distinct (exhale e)" by (fact o)+
qed

lemma node_matches: "app_matches (node_conf oi ii profile spec n) x \<Longrightarrow> has_push x \<and> (has_pull x \<longleftrightarrow> pull_node n)"
  by (cases n) (auto simp: app_matches_def has_push_def has_pull_def pull_node_def split: app.splits)

lemma configured_runs_network:
  assumes ok: "ifname_ok oi" "ifname_ok ii" "oi \<noteq> ii"
    and rep: "net_rep oi ii profile spec (network_nodes labels, network_wires labels) c"
    and "fst ` set (link_table e) = set (cfg_links c)"
    and conf: "\<And>n. map_option as_conf (map_of (app_table e) n) = map_of (cfg_apps c) n" and acc: "accounted e i"
  shows "runs_network oi ii labels e"
  unfolding runs_network_def
proof (intro conjI ballI)
  show "fst ` set (link_table e) = wire_text oi ii ` set (network_wires labels)"
    using rep assms(5) by (simp add: represents_def)
  have "fst ` set (app_table e) = fst ` set (cfg_apps c)"
  proof (rule set_eqI)
    fix n show "n \<in> fst ` set (app_table e) \<longleftrightarrow> n \<in> fst ` set (cfg_apps c)"
      using conf [of n] by (metis map_of_eq_None_iff option.map_disc_iff)
  qed
  then show "fst ` set (app_table e) = node_name oi ii ` set (network_nodes labels)" by (simp add: rep_keys [OF rep])
  fix n assume n: "n \<in> set (network_nodes labels)"
  obtain a where a: "map_of (app_table e) (node_name oi ii n) = Some a" "as_conf a = node_conf oi ii profile spec n"
    using conf [of "node_name oi ii n"] rep_conf [OF ok rep n] by auto
  have "app_matches (as_conf a) (as_app a)"
    using acc map_of_SomeD [OF a(1)] by (fastforce simp: accounted_def apps_view_def)
  then have "has_push (as_app a)" "has_pull (as_app a) \<longleftrightarrow> pull_node n"
    using node_matches a(2) by metis+
  then show "pushes_app e (node_name oi ii n)" "pulls_app e (node_name oi ii n) \<longleftrightarrow> pull_node n"
    using a(1) by (simp_all add: pushes_app_def pulls_app_def)
qed

lemma network_can_start:
  assumes "ifname_ok oi" "ifname_ok ii" "oi \<noteq> ii" and "net_rep oi ii profile spec (ns, ws) c"
    and "opens os oi ii (profile Src) (profile Dst)" and "losses_are_numbers spec"
  shows "can_start os c"
  unfolding can_start_def
proof (clarify)
  fix x cf s assume x: "(x, cf) \<in> set (cfg_apps c)"
  have "map_of (cfg_apps c) x = Some cf"
    using assms(4) x by (intro map_of_is_SomeI) (simp_all add: represents_def)
  moreover have "x \<in> node_name oi ii ` set ns" using x rep_keys [OF assms(4)] by force
  ultimately obtain n where "cf = node_conf oi ii profile spec n" using rep_conf [OF assms(1-4)] by auto
  then show "\<exists>r. app_new os cf s = Inr r" using node_starts [OF assms(5,6)] by simp
qed

section \<open>Properties\<close>

definition profiles :: "string \<Rightarrow> string \<Rightarrow> dir \<Rightarrow> string" where
  "profiles ingress egress d = (case d of Src \<Rightarrow> ingress | Dst \<Rightarrow> egress)"

text \<open>
  C7. Every specification that passes \<^verbatim>\<open>sanitize_labels\<close> is translated without a panic to a well-formed configuration: its apps
  and links are those of the network of two opposite paths (interface, TSD, checksum offload, split, one branch of
  rate limiter, loss, latency and jitter for the default and for each flow, join, top, other interface), each app
  with the parameters that the specification gives for its branch, no two apps share a name and no two links a port.
\<close>

theorem specification_realised:
  assumes "sanitize_labels spec = Inr ()" and "ifname_ok outer" and "ifname_ok inner" and "outer \<noteq> inner"
  shows "\<exists>c. configure_synthetic_network outer inner ingress egress spec new_config = Inr c \<and> config_ok c \<and>
    set (cfg_links c) = wire_text outer inner ` set (network_wires (map sf_label (sn_flows spec))) \<and>
    fst ` set (cfg_apps c) = node_name outer inner ` set (network_nodes (map sf_label (sn_flows spec))) \<and>
    (\<forall>n \<in> set (network_nodes (map sf_label (sn_flows spec))).
      map_of (cfg_apps c) (node_name outer inner n) = Some (node_conf outer inner (profiles ingress egress) spec n))"
proof -
  have labels: "labels_ok (map sf_label (sn_flows spec))" using assms(1) sanitize_labels_iff by simp
  from configure_synthetic_network_ok [OF assms(2,3) labels, of "profiles ingress egress"] obtain c where
    c: "configure_synthetic_network outer inner ingress egress spec new_config = Inr c"
      "net_rep outer inner (profiles ingress egress) spec
        (network_nodes (map sf_label (sn_flows spec)), network_wires (map sf_label (sn_flows spec))) c"
    by (auto simp: profiles_def)
  show ?thesis
    using c(1) network_config_ok [OF assms(2-4) labels c(2)] rep_keys [OF c(2)] rep_conf [OF assms(2-4) c(2)] c(2)
    by (auto simp: represents_def)
qed

lemma usage_spec_ok:
  "sanitize_labels usage_spec = Inr ()" "ifname_ok ''eth0''" "ifname_ok ''eth1''" "losses_are_numbers usage_spec"
  by (simp_all add: sanitize_labels_def usage_spec_def usage_qos_def LABEL_SYNTAX_def word_char_def ifname_ok_def losses_are_numbers_def)

lemma realisable:
  assumes "sanitize_labels spec = Inr ()" and "losses_are_numbers spec" and "ifname_ok outer" and "ifname_ok inner"
    and "outer \<noteq> inner" and "opens os outer inner ingress egress"
  obtains c where "configure_synthetic_network outer inner ingress egress spec new_config = Inr c"
    "net_rep outer inner (profiles ingress egress) spec
      (network_nodes (map sf_label (sn_flows spec)), network_wires (map sf_label (sn_flows spec))) c"
    "config_ok c" "can_start os c"
proof -
  have labels: "labels_ok (map sf_label (sn_flows spec))" using assms(1) sanitize_labels_iff by simp
  from configure_synthetic_network_ok [OF assms(3,4) labels, of "profiles ingress egress"] obtain c where
    c: "configure_synthetic_network outer inner ingress egress spec new_config = Inr c"
      "net_rep outer inner (profiles ingress egress) spec
        (network_nodes (map sf_label (sn_flows spec)), network_wires (map sf_label (sn_flows spec))) c"
    by (auto simp: profiles_def)
  have "can_start os c"
    by (rule network_can_start [OF assms(3-5) c(2) _ assms(2)]) (use assms(6) in \<open>simp add: profiles_def\<close>)
  with that c network_config_ok [OF assms(3-5) labels c(2)] show thesis by blast
qed

theorem specification_realised_witness:
  "\<exists>c. configure_synthetic_network ''eth0'' ''eth1'' ''in'' ''out'' usage_spec new_config = Inr c \<and> config_ok c \<and>
    map_of (cfg_apps c) ''rate_ingress_http'' = Some (RateLimiter 100000000)"
proof -
  have "Rate_node (Branch Src (Some ''http'')) \<in> set (network_nodes (map sf_label (sn_flows usage_spec)))"
    by (simp add: usage_spec_def network_nodes_def path_nodes_def branch_nodes_def)
  then show ?thesis
    using specification_realised [OF usage_spec_ok(1-3), of "''in''" "''out''"]
    by (fastforce simp: usage_spec_def usage_qos_def dir_qos_def)
qed

end
