(* ===== verification/Breath.thy ===== *)
theory Breath
  imports Callbacks_Return Network_Wiring
begin

text \<open>
  A breath of a whole network: \<^verbatim>\<open>breathe\<close> of \<^verbatim>\<open>rush/src/engine.rs\<close> runs every \<^verbatim>\<open>pull\<close> and every \<^verbatim>\<open>push\<close> to its end, for any network whose apps
  have the ports they need, and so for every network that \<^verbatim>\<open>rush/src/synthetic_network.rs\<close> configures.
\<close>

declare length_contents [simp del] take_append [simp del]

section \<open>The callbacks of a breath\<close>

definition app_cost :: "(conf \<Rightarrow> ports \<Rightarrow> nat) \<Rightarrow> engine \<Rightarrow> string \<Rightarrow> nat" where
  "app_cost cost e n = (case map_of (app_table e) n of None \<Rightarrow> 0 | Some a \<Rightarrow> cost (as_conf a) (as_ports a))"

definition network_fit :: "'n os \<Rightarrow> ('n \<Rightarrow> bool) \<Rightarrow> frame_types \<Rightarrow> engine \<Rightarrow> 'n sys \<Rightarrow> bool" where
  "network_fit os good T e s \<longleftrightarrow> good (sys_net s) \<and> typed_links T (sys_io s) \<and>
     (\<forall>(n, a) \<in> set (app_table e). app_fit os good T s (as_ports a) (as_app a) \<and> ports_fit (as_conf a) (as_ports a) \<and>
       flows_typed T (as_conf a) (as_ports a))"

definition network_room :: "engine \<Rightarrow> bool" where
  "network_room e \<longleftrightarrow> (\<forall>(n, a) \<in> set (app_table e). app_room (as_app a))"

text \<open>Callbacks leave configurations and ports alone.\<close>

definition same_ports :: "engine \<Rightarrow> engine \<Rightarrow> bool" where
  "same_ports e e' \<longleftrightarrow> (\<forall>n. map_option (\<lambda>a. (as_conf a, as_ports a)) (map_of (app_table e') n) =
     map_option (\<lambda>a. (as_conf a, as_ports a)) (map_of (app_table e) n))"

lemma same_ports_replace: "map_of (app_table e) n = Some a \<Longrightarrow> same_ports e (replace_app n a x e)"
  by (simp add: same_ports_def update_conv')

lemma same_ports_trans: "same_ports e e1 \<Longrightarrow> same_ports e1 e2 \<Longrightarrow> same_ports e e2"
  by (simp add: same_ports_def)

lemma app_cost_eq:
  "app_cost cost e n = (case map_option (\<lambda>a. (as_conf a, as_ports a)) (map_of (app_table e) n) of None \<Rightarrow> 0 | Some (c, a) \<Rightarrow> cost c a)"
  by (simp add: app_cost_def split: option.splits)

lemma same_ports_cost: "same_ports e e' \<Longrightarrow> app_cost cost e' n = app_cost cost e n"
  by (simp only: same_ports_def app_cost_eq)

lemma app_fit_files: "files_kept s s' \<Longrightarrow> app_fit os good T s a x \<Longrightarrow> app_fit os good T s' a x"
  by (cases x) (simp_all add: app_fit_def files_kept_def)

context returning
begin

lemma callback_returns:
  assumes "sound e (sys_io s)" and "network_fit os good T e s" and "map_of (app_table e) n = Some a" and "has (as_app a)"
    and "app_room (as_app a)" and "in_use (sys_io s) + cost (as_conf a) (as_ports a) \<le> pool_max"
  shows "\<exists>x s'. callback (cb os) n (e, s) = Inr (replace_app n a x e, s') \<and> network_fit os good T (replace_app n a x e) s' \<and>
    in_use (sys_io s') \<le> in_use (sys_io s) + cost (as_conf a) (as_ports a) \<and> post x"
proof -
  have ok: "engine_ok e" "accounted e (sys_io s)" using assms(1) by (simp_all add: sound_def)
  have dist: "distinct (map fst (app_table e))" using ok(1) by (simp add: engine_ok_def tables_ok_def)
  have a: "(n, a) \<in> set (app_table e)" by (rule map_of_SomeD [OF assms(3)])
  let ?H = "snd ` set (link_table e)"
  have led: "ledger ?H (apps_held (apps_view e)) (sys_io s)" "apps_ok e"
    using accounted_ledger [OF ok(1)] ok(2) by blast+
  have "app_held (as_app a) \<le> apps_held (apps_view e)"
    using replace_app_held [OF assms(3), of SinkApp] by (simp add: queue_of_def)
  then obtain b where b: "apps_held (apps_view e) = b + app_held (as_app a)" by (metis le_add_diff_inverse2)
  have "ready os good T s (as_conf a) (as_ports a) (as_app a)"
    using assms(2,5) led(2) a by (auto simp: ready_def network_fit_def apps_ok_def)
  from cb_returns [OF assms(4) this led(1) [unfolded b] _ ports_handles [OF ok(1) a] assms(6)] obtain x s' where
    x: "cb os (as_app a) (as_ports a) s = Inr (x, s')" "left_fit os good T s (cost (as_conf a) (as_ports a)) (as_ports a) x s'" "post x"
    by blast
  have l: "good (sys_net s')" "steady T (sys_io s) (sys_io s') (cost (as_conf a) (as_ports a))" "files_kept s s'" "app_fit os good T s' (as_ports a) x"
    using x(2) by (simp_all add: left_fit_def)
  have "network_fit os good T (replace_app n a x e) s'"
    using assms(2) l a app_fit_files [OF l(3)] by (auto simp: network_fit_def set_update_distinct [OF dist] steady_def)
  then show ?thesis using x(1,3) l(2) assms(3) by (auto simp: callback_def steady_def)
qed

lemma callbacks_return:
  assumes "reads_fit os" and "distinct ns" and "sound e (sys_io s)" and "network_fit os good T e s"
    and "\<forall>n \<in> set ns. \<exists>a. map_of (app_table e) n = Some a \<and> has (as_app a) \<and> app_room (as_app a)"
    and "in_use (sys_io s) + sum_list (map (app_cost cost e) ns) \<le> pool_max"
  shows "\<exists>e' s'. foldR (callback (cb os)) ns (e, s) = Inr (e', s') \<and> network_fit os good T e' s' \<and>
    in_use (sys_io s') \<le> in_use (sys_io s) + sum_list (map (app_cost cost e) ns) \<and>
    (\<forall>n \<in> set ns. \<exists>a. map_of (app_table e') n = Some a \<and> post (as_app a)) \<and>
    (\<forall>n. n \<notin> set ns \<longrightarrow> map_of (app_table e') n = map_of (app_table e) n) \<and> same_ports e e'"
  using assms(2-)
proof (induction ns arbitrary: e s)
  case (Cons n ns)
  obtain a where a: "map_of (app_table e) n = Some a" "has (as_app a)" "app_room (as_app a)" using Cons.prems(4) by auto
  have cost: "app_cost cost e n = cost (as_conf a) (as_ports a)" by (simp add: app_cost_def a(1))
  from callback_returns [OF Cons.prems(2,3) a] Cons.prems(5) obtain x s1 where
    c: "callback (cb os) n (e, s) = Inr (replace_app n a x e, s1)" "network_fit os good T (replace_app n a x e) s1"
      "in_use (sys_io s1) \<le> in_use (sys_io s) + app_cost cost e n" "post x"
    by (auto simp: cost)
  let ?e = "replace_app n a x e"
  have s1: "sound ?e (sys_io s1)" using callback_keeps [OF c(1) assms(1) Cons.prems(2)] by simp
  have other: "map_of (app_table ?e) m = map_of (app_table e) m" if "m \<noteq> n" for m using that by (simp add: update_conv')
  have ns: "\<forall>m \<in> set ns. m \<noteq> n" using Cons.prems(1) by auto
  then have costs: "map (app_cost cost ?e) ns = map (app_cost cost e) ns" using other by (auto simp: app_cost_def)
  have "\<exists>e' s'. foldR (callback (cb os)) ns (?e, s1) = Inr (e', s') \<and> network_fit os good T e' s' \<and>
    in_use (sys_io s') \<le> in_use (sys_io s1) + sum_list (map (app_cost cost ?e) ns) \<and>
    (\<forall>n \<in> set ns. \<exists>a. map_of (app_table e') n = Some a \<and> post (as_app a)) \<and>
    (\<forall>m. m \<notin> set ns \<longrightarrow> map_of (app_table e') m = map_of (app_table ?e) m) \<and> same_ports ?e e'"
  proof (rule Cons.IH [OF _ s1 c(2)])
    show "\<forall>n \<in> set ns. \<exists>a. map_of (app_table ?e) n = Some a \<and> has (as_app a) \<and> app_room (as_app a)"
      using Cons.prems(4) ns other by (metis list.set_intros(2))
    show "in_use (sys_io s1) + sum_list (map (app_cost cost ?e) ns) \<le> pool_max" using Cons.prems(5) c(3) unfolding costs by simp
  qed (use Cons.prems(1) in simp)
  then obtain e' s' where r: "foldR (callback (cb os)) ns (?e, s1) = Inr (e', s')" "network_fit os good T e' s'"
    "in_use (sys_io s') \<le> in_use (sys_io s1) + sum_list (map (app_cost cost e) ns)"
    "\<forall>n \<in> set ns. \<exists>a. map_of (app_table e') n = Some a \<and> post (as_app a)"
    "\<forall>m. m \<notin> set ns \<longrightarrow> map_of (app_table e') m = map_of (app_table ?e) m" "same_ports ?e e'"
    unfolding costs by blast
  have "map_of (app_table e') n = Some (a\<lparr>as_app := x\<rparr>)" using r(5) Cons.prems(1) by (simp add: update_conv')
  moreover have "same_ports e e'" by (rule same_ports_trans [OF same_ports_replace [OF a(1)] r(6)])
  ultimately show ?case using c(1,3,4) r(1-5) other by (intro exI [of _ e'] exI [of _ s']) auto
qed (auto simp: same_ports_def)

end

definition breath_cost :: "engine \<Rightarrow> nat" where
  "breath_cost e = sum_list (map (app_cost pull_cost e) (inhale e)) + sum_list (map (app_cost push_cost e) (exhale e))"

lemma network_room_lookup: "network_room e \<Longrightarrow> map_of (app_table e) n = Some a \<Longrightarrow> app_room (as_app a)"
  by (auto simp: network_room_def dest: map_of_SomeD)

lemma app_fit_same: "sys_files s' = sys_files s \<Longrightarrow> app_fit os good T s' a x \<longleftrightarrow> app_fit os good T s a x"
  by (cases x) (simp_all add: app_fit_def)

lemma network_fit_same:
  assumes "sys_net s' = sys_net s" and "sys_files s' = sys_files s" and "io_links (sys_io s') = io_links (sys_io s)"
  shows "network_fit os good T e s' \<longleftrightarrow> network_fit os good T e s"
  unfolding network_fit_def typed_links_def app_fit_same [OF assms(2)] assms ..

lemma add_breath_fit: "network_fit os good T e (add_breath s) \<longleftrightarrow> network_fit os good T e s"
  by (rule network_fit_same) (simp_all add: add_breath_def Let_def)

lemma breathe_returns:
  assumes "reads_fit os" and "sound e (sys_io s)" and "network_fit os good T e s" and "network_room e"
    and "in_use (sys_io s) + breath_cost e \<le> pool_max"
  shows "\<exists>e' s'. breathe os (e, s) = Inr (e', s') \<and> network_fit os good T e' s' \<and> same_ports e e'"
proof -
  define s0 where "s0 = snd (instant_now s)\<lparr>MONOTONIC_NOW := Some (fst (instant_now s))\<rparr>"
  have s0: "sound e (sys_io s0)" "network_fit os good T e s0" "in_use (sys_io s0) = in_use (sys_io s)"
    using assms(2,3) network_fit_same [of s0 s] by (simp_all add: s0_def instant_now_def)
  have in_order: "distinct (inhale e)" "distinct (exhale e)"
    "\<forall>n \<in> set (inhale e). \<exists>a. map_of (app_table e) n = Some a \<and> has_pull (as_app a) \<and> app_room (as_app a)"
    using assms(2) network_room_lookup [OF assms(4)] by (auto simp: sound_def pulls_app_def)
  from pullr.callbacks_return [OF assms(1) in_order(1) s0(1,2) in_order(3)] assms(5) s0(3) obtain e1 s1 where
    1: "foldR (callback (app_pull os)) (inhale e) (e, s0) = Inr (e1, s1)" "network_fit os good T e1 s1"
      "in_use (sys_io s1) \<le> in_use (sys_io s) + sum_list (map (app_cost pull_cost e) (inhale e))"
      "\<forall>n \<in> set (inhale e). \<exists>a. map_of (app_table e1) n = Some a \<and> app_room (as_app a)"
      "\<forall>n. n \<notin> set (inhale e) \<longrightarrow> map_of (app_table e1) n = map_of (app_table e) n" "same_ports e e1"
    by (auto simp: breath_cost_def)
  have k1: "sound e1 (sys_io s1)" "exhale e1 = exhale e"
    using pullc.callbacks_keep [OF 1(1) assms(1) s0(1)] by (simp_all add: same_network_def)
  have room: "app_room (as_app a)" if "map_of (app_table e1) n = Some a" for n a
    using that 1(4,5) network_room_lookup [OF assms(4), of n] by (cases "n \<in> set (inhale e)") force+
  have push: "\<forall>n \<in> set (exhale e1). \<exists>a. map_of (app_table e1) n = Some a \<and> has_push (as_app a) \<and> app_room (as_app a)"
    using k1 room by (fastforce simp: sound_def pushes_app_def)
  have "map (app_cost push_cost e1) (exhale e1) = map (app_cost push_cost e) (exhale e)"
    using same_ports_cost [OF 1(6)] by (simp add: k1(2))
  then have pool: "in_use (sys_io s1) + sum_list (map (app_cost push_cost e1) (exhale e1)) \<le> pool_max"
    using 1(3) assms(5) by (simp add: breath_cost_def)
  have dist: "distinct (exhale e1)" using in_order(2) by (simp add: k1(2))
  from pushr.callbacks_return [OF assms(1) dist k1(1) 1(2) push pool] obtain e2 s2 where
    2: "foldR (callback (app_push os)) (exhale e1) (e1, s1) = Inr (e2, s2)" "network_fit os good T e2 s2" "same_ports e1 e2"
    by blast
  have "breathe os (e, s) = Inr (e2, add_breath s2)"
    using 1(1) 2(1) by (simp add: breathe_def s0_def Let_def case_prod_unfold)
  moreover have "network_fit os good T e2 (add_breath s2)" using 2(2) add_breath_fit by blast
  ultimately show ?thesis using same_ports_trans [OF 1(6) 2(3)] by blast
qed

end
