(* ===== verification/Configured.thy ===== *)
theory Configured
  imports Breath
begin

text \<open>
  What \<^verbatim>\<open>configure\<close> of \<^verbatim>\<open>rush/src/engine.rs\<close> keeps of the state that the callbacks rely on: links and apps that stay keep their frames, new ones start
  empty.
\<close>

declare length_contents [simp del] take_append [simp del]

section \<open>Configuration keeps apps and links fit\<close>

definition keyed :: "ports \<Rightarrow> bool" where
  "keyed a \<longleftrightarrow> distinct (map fst (app_input a)) \<and> distinct (map fst (app_output a))"

text \<open>
  A type for every app, by its name: a predicate on the frames that it puts out. The app that a link leaves gives the link its type, so types outlast
  reconfigurations.
\<close>

type_synonym name_types = "string \<Rightarrow> u8 list \<Rightarrow> bool"

definition link_type :: "name_types \<Rightarrow> string \<Rightarrow> u8 list \<Rightarrow> bool" where
  "link_type N spec f \<longleftrightarrow> (\<forall>l. parse_link spec = Inr l \<longrightarrow> N (spec_from l) f)"

definition links_typed :: "name_types \<Rightarrow> (string \<times> nat) list \<Rightarrow> io \<Rightarrow> bool" where
  "links_typed N ls s \<longleftrightarrow> (\<forall>(spec, h) \<in> set ls. \<forall>p \<in> set (contents (io_links s h)). link_type N spec (frame p))"

text \<open>All links are well formed, the frames on them have their types, ports have distinct names, and every app has the property \<open>P\<close>.\<close>

definition sane_with :: "name_types \<Rightarrow> ('n sys \<Rightarrow> string \<Rightarrow> app \<Rightarrow> bool) \<Rightarrow> engine \<Rightarrow> 'n sys \<Rightarrow> bool" where
  "sane_with N P e s \<longleftrightarrow> (\<forall>h. link_ok (io_links (sys_io s) h)) \<and> links_typed N (link_table e) (sys_io s) \<and>
     (\<forall>(n, a) \<in> set (app_table e). P s n (as_app a) \<and> keyed (as_ports a))"

lemma links_typed_less:
  "links_typed N ls s \<Longrightarrow> set ls' \<subseteq> set ls \<Longrightarrow>
   (\<And>spec h. (spec, h) \<in> set ls' \<Longrightarrow> set (contents (io_links s' h)) \<subseteq> set (contents (io_links s h))) \<Longrightarrow> links_typed N ls' s'"
  unfolding links_typed_def by fastforce

lemma files_kept_refl: "files_kept s s"
  by (simp add: files_kept_def)

lemma set_update_subset: "set (AList.update k v al) \<subseteq> insert (k, v) (set al)"
  by (induction al) auto

lemma port_changes:
  "as_app (set_output p h a) = as_app a" "as_app (set_input p h a) = as_app a"
  "as_app (remove_output p a) = as_app a" "as_app (remove_input p a) = as_app a"
  "keyed (as_ports a) \<Longrightarrow> keyed (as_ports (set_output p h a))" "keyed (as_ports a) \<Longrightarrow> keyed (as_ports (set_input p h a))"
  "keyed (as_ports a) \<Longrightarrow> keyed (as_ports (remove_output p a))" "keyed (as_ports a) \<Longrightarrow> keyed (as_ports (remove_input p a))"
  by (simp_all add: set_output_def set_input_def remove_output_def remove_input_def keyed_def distinct_update distinct_delete)

lemma open_flowtop_map_keeps:
  assumes "open_flowtop_map os path s = Inr s'"
  shows "sys_io s' = sys_io s" "files_kept s s'" "length (sys_files s' path) = FLOWTOP_NSLOTS"
proof -
  obtain net where "s' = s\<lparr>sys_net := net, sys_files := (sys_files s)(path :=
      take FLOWTOP_NSLOTS (sys_files s path @ replicate FLOWTOP_NSLOTS \<lparr>ctr_packets = 0, ctr_bits = 0, ctr_id = 0\<rparr>))\<rparr>"
    using assms by (fastforce simp: open_flowtop_map_def Let_def cstr_def case_prod_unfold split: if_splits)
  then show "sys_io s' = sys_io s" "files_kept s s'" "length (sys_files s' path) = FLOWTOP_NSLOTS"
    by (auto simp: files_kept_def)
qed

lemma app_new_keeps:
  assumes "app_new os c s = Inr (x, s')"
  shows "sys_io s' = sys_io s" "files_kept s s'"
proof -
  have "sys_io s' = sys_io s \<and> files_kept s s'"
  proof (cases c)
    case (Top path d)
    then show ?thesis using assms open_flowtop_map_keeps [of os path s] by (auto simp: app_new_def bindR_eq_Inr)
  qed (use assms in \<open>auto simp: app_new_def bindR_eq_Inr files_kept_def\<close>)
  then show "sys_io s' = sys_io s" "files_kept s s'" by auto
qed

text \<open>
  A property that new apps have and that does not depend on more of the state than the sizes of the mapped files: it
  holds of all apps after a configuration if it did before.
\<close>

locale app_property =
  fixes N :: name_types and P :: "'n sys \<Rightarrow> string \<Rightarrow> app \<Rightarrow> bool"
  assumes P_files: "files_kept s s' \<Longrightarrow> P s n x \<Longrightarrow> P s' n x"
    and P_new: "app_new os c s = Inr (x, s') \<Longrightarrow> P s' n x"
begin

lemma saneI:
  assumes "sane_with N P e s" and "\<forall>h. link_ok (io_links (sys_io s') h)" and "links_typed N (link_table e') (sys_io s')" and "files_kept s s'"
    and "\<And>n a. (n, a) \<in> set (app_table e') \<Longrightarrow> (n, a) \<in> set (app_table e) \<or> P s' n (as_app a) \<and> keyed (as_ports a)"
  shows "sane_with N P e' s'"
  unfolding sane_with_def
proof (intro conjI ballI assms(2,3), clarify)
  fix n a assume "(n, a) \<in> set (app_table e')"
  then consider "(n, a) \<in> set (app_table e)" | "P s' n (as_app a) \<and> keyed (as_ports a)" using assms(5) by blast
  then show "P s' n (as_app a) \<and> keyed (as_ports a)"
    by cases (use assms(1) P_files [OF assms(4)] in \<open>auto simp: sane_with_def\<close>)
qed

lemma saneD:
  "sane_with N P e s \<Longrightarrow> \<forall>h. link_ok (io_links (sys_io s) h)" "sane_with N P e s \<Longrightarrow> links_typed N (link_table e) (sys_io s)"
  "sane_with N P e s \<Longrightarrow> (n, a) \<in> set (app_table e) \<Longrightarrow> P s n (as_app a) \<and> keyed (as_ports a)"
  by (auto simp: sane_with_def)

text \<open>Only ports change.\<close>

lemma modify_app_sane:
  assumes "modify_app name f e = Inr e'" and "sane_with N P e s" and "\<And>a. as_app (f a) = as_app a" and "\<And>a. keyed (as_ports a) \<Longrightarrow> keyed (as_ports (f a))"
  shows "sane_with N P e' s" "link_table e' = link_table e"
proof -
  obtain a where a: "map_of (app_table e) name = Some a" "e' = e\<lparr>app_table := AList.update name (f a) (app_table e)\<rparr>"
    using assms(1) by (auto simp: modify_app_def bindR_eq_Inr unwrap_eq_Inr)
  have fa: "P s name (as_app (f a)) \<and> keyed (as_ports (f a))"
    using saneD(3) [OF assms(2) map_of_SomeD [OF a(1)]] assms(3,4) by simp
  show "sane_with N P e' s"
  proof (rule saneI [OF assms(2) saneD(1) [OF assms(2)] _ files_kept_refl])
    show "links_typed N (link_table e') (sys_io s)" using saneD(2) [OF assms(2)] by (simp add: a(2))
    fix n b assume "(n, b) \<in> set (app_table e')"
    then have "(n, b) \<in> set (app_table e) \<or> n = name \<and> b = f a" using set_update_subset [of name "f a" "app_table e"] by (auto simp: a(2))
    then show "(n, b) \<in> set (app_table e) \<or> P s n (as_app b) \<and> keyed (as_ports b)" using fa by blast
  qed
  show "link_table e' = link_table e" by (simp add: a(2))
qed

lemma sane_fewer_links: "sane_with N P e s \<Longrightarrow> set ls \<subseteq> set (link_table e) \<Longrightarrow> sane_with N P (e\<lparr>link_table := ls\<rparr>) s"
  by (auto simp: sane_with_def intro: links_typed_less)

lemma unlink_apps_sane: "unlink_apps spec e = Inr e' \<Longrightarrow> sane_with N P e s \<Longrightarrow> sane_with N P e' s"
  unfolding unlink_apps_def Let_def bindR_eq_Inr
  by (elim exE conjE) (rule modify_app_sane(1), assumption, rule modify_app_sane(1), assumption, rule sane_fewer_links,
      auto simp: port_changes set_delete_alist)

lemma unlink_old_sane:
  assumes "unlink_old links e = Inr e'" and "sane_with N P e s"
  shows "sane_with N P e' s"
  by (rule foldR_inv [OF assms(1) [unfolded unlink_old_def]])
    (use assms(2) unlink_apps_sane in \<open>auto split: prod.splits if_splits\<close>)

lemma drop_unreferenced_sane:
  assumes "drop_unreferenced e h s = Inr s'" and "sane_with N P e1 s"
  shows "sane_with N P e1 s'"
proof (cases "referenced e h")
  case False
  then obtain r w where r: "drop_link (io_links (sys_io s) h) (io_world (sys_io s)) = Inr (r, w)"
    "s' = s\<lparr>sys_io := \<lparr>io_links = (io_links (sys_io s))(h := r), io_world = w\<rparr>\<rparr>"
    using assms(1) by (auto simp: drop_unreferenced_def bindR_eq_Inr)
  have "link_ok (io_links (sys_io s) h)" using assms(2) by (simp add: sane_with_def)
  with drain_inv [OF r(1) [unfolded drop_link_def], of "\<lambda>_ _. True"] have "link_ok r" "contents r = []" by auto
  with saneD(1,2) [OF assms(2)] have "\<forall>h. link_ok (io_links (sys_io s') h)" "links_typed N (link_table e1) (sys_io s')"
    by (auto simp: r(2) elim!: links_typed_less split: if_splits)
  then show ?thesis by (rule saneI [OF assms(2)]) (auto simp: r(2) files_kept_def)
qed (use assms in \<open>simp add: drop_unreferenced_def\<close>)

lemma stop_app_sane:
  assumes "stop_app os name (e, s) = Inr (e', s')" and "sane_with N P e s"
  shows "sane_with N P e' s'"
proof -
  obtain a :: app_state and s1 w where r: "e\<lparr>app_table := AList.delete name (app_table e)\<rparr> = e'"
    "(if has_stop (as_app a) then app_stop os (as_app a) s else Inr s) = Inr s1" "s1\<lparr>sys_io := (sys_io s1)\<lparr>io_world := w\<rparr>\<rparr> = s'"
    using assms(1) unfolding stop_app_def Let_def prod.case bindR_eq_Inr sum.inject prod.inject
    by blast
  have "sys_io s1 = sys_io s \<and> sys_files s1 = sys_files s"
    using r(2) by (cases "as_app a") (auto simp: app_stop_def has_stop_def)
  with saneD(1,2) [OF assms(2)] have "\<forall>h. link_ok (io_links (sys_io s') h)" "links_typed N (link_table e') (sys_io s')" "files_kept s s'"
    by (auto simp: r(1,3) [symmetric] files_kept_def elim!: links_typed_less)
  then show ?thesis by (rule saneI [OF assms(2)]) (auto simp: r(1) [symmetric] set_delete_alist)
qed

lemma start_app_sane:
  assumes "start_app os name c (e, s) = Inr (e', s')" and "sane_with N P e s"
  shows "sane_with N P e' s'"
proof -
  obtain x where x: "app_new os c s = Inr (x, s')"
    "e' = e\<lparr>app_table := AList.update name \<lparr>as_app = x, as_conf = c, as_ports = no_ports\<rparr> (app_table e)\<rparr>"
    using assms(1) by (auto simp: start_app_def bindR_eq_Inr)
  note n = app_new_keeps [OF x(1)] P_new [OF x(1)]
  show ?thesis
  proof (rule saneI [OF assms(2) _ _ n(2)])
    fix m a assume "(m, a) \<in> set (app_table e')"
    then have "(m, a) \<in> set (app_table e) \<or> m = name \<and> a = \<lparr>as_app = x, as_conf = c, as_ports = no_ports\<rparr>"
      using set_update_subset [of name "\<lparr>as_app = x, as_conf = c, as_ports = no_ports\<rparr>" "app_table e"] by (auto simp: x(2))
    then show "(m, a) \<in> set (app_table e) \<or> P s' m (as_app a) \<and> keyed (as_ports a)" using n(3) by (auto simp: keyed_def)
  qed (use saneD(1,2) [OF assms(2)] n(1) in \<open>simp_all add: x(2)\<close>)
qed

lemma link_apps_sane:
  assumes "link_apps spec (e, s) = Inr (e', s')" and "sane_with N P e s"
  shows "sane_with N P e' s'"
proof -
  obtain h e1 s1 where r0: "(case map_of (link_table e) spec of
          Some h \<Rightarrow> (h, e, s)
        | None \<Rightarrow>
            let h = next_link e in
            (h, e\<lparr>link_table := AList.update spec h (link_table e), next_link := Suc h\<rparr>,
             s\<lparr>sys_io := (sys_io s)\<lparr>io_links := (io_links (sys_io s))(h := new_link)\<rparr>\<rparr>)) = (h, e1, s1)"
    by (metis prod_cases3)
  obtain l :: link_spec and e2 where r:
    "modify_app (spec_from l) (set_output (spec_output l) h) e1 = Inr e2"
    "modify_app (spec_to l) (set_input (spec_input l) h) e2 = Inr e'" "s1 = s'"
    using assms(1) unfolding link_apps_def prod.case r0 Let_def [of "(h, e1, s1)"] bindR_eq_Inr sum.inject prod.inject by blast
  have typed: "links_typed N (AList.update spec k (link_table e)) ((sys_io s)\<lparr>io_links := (io_links (sys_io s))(k := new_link)\<rparr>)" for k
  proof -
    have "link_type N sp (frame p)" if "(sp, h) \<in> set (AList.update spec k (link_table e))" "h \<noteq> k" "p \<in> set (contents (io_links (sys_io s) h))" for sp h p
      using saneD(2) [OF assms(2)] set_update_subset [of spec k "link_table e"] that by (auto simp: links_typed_def)
    then show ?thesis by (auto simp: links_typed_def new_link_ok split: if_splits)
  qed
  have "sane_with N P (e\<lparr>link_table := AList.update spec k (link_table e), next_link := Suc k\<rparr>)
      (s\<lparr>sys_io := (sys_io s)\<lparr>io_links := (io_links (sys_io s))(k := new_link)\<rparr>\<rparr>)" for k
    by (rule saneI [OF assms(2)])
      (use saneD(1) [OF assms(2)] typed in \<open>auto simp: new_link_ok files_kept_def\<close>)
  then have "sane_with N P e1 s1" using r0 assms(2) by (auto simp: Let_def split: option.splits)
  with modify_app_sane(1) [OF r(2) modify_app_sane(1) [OF r(1)]] show ?thesis by (simp add: r(3) [symmetric] port_changes)
qed

lemma configure_sane:
  assumes "configure os ho c (e, s) = Inr (e', s')" and "sane_with N P e s"
  shows "sane_with N P e' s'"
proof -
  let ?I = "\<lambda>(e, s). sane_with N P e s"
  obtain e1 s1 st2 st3 e4 s4 where r: "unlink_old (cfg_links c) e = Inr e1"
    "foldR (drop_unreferenced e1) (map snd (link_table e)) s = Inr s1"
    "foldR (stop_changed os (cfg_apps c)) (map fst (app_table e1)) (e1, s1) = Inr st2"
    "foldR (start_new os) (cfg_apps c) st2 = Inr st3" "foldR link_apps (cfg_links c) st3 = Inr (e4, s4)"
    "compute_breathe_order ho e4 = Inr e'" "s' = s4"
    using assms(1) by (auto simp: configure_def Let_def bindR_eq_Inr case_prod_unfold)
  have 1: "sane_with N P e1 s" by (rule unlink_old_sane [OF r(1) assms(2)])
  have 2: "sane_with N P e1 s1" by (rule foldR_inv [OF r(2), where P = "sane_with N P e1"]) (use 1 drop_unreferenced_sane in blast)+
  have "?I st2"
  proof (rule foldR_inv [OF r(3)])
    fix n x y assume "?I x" "stop_changed os (cfg_apps c) n x = Inr y"
    then show "?I y"
      using stop_app_sane [of os n "fst x" "snd x" "fst y" "snd y"]
      by (auto simp: stop_changed_def bindR_eq_Inr case_prod_unfold split: option.splits if_splits)
  qed (use 2 in simp)
  then have "?I st3"
  proof (rule foldR_inv [OF r(4)])
    fix n x y assume "?I x" "start_new os n x = Inr y"
    then show "?I y"
      using start_app_sane [of os "fst n" "snd n" "fst x" "snd x" "fst y" "snd y"] by (auto simp: start_new_def case_prod_unfold split: if_splits)
  qed
  then have "?I (e4, s4)"
  proof (rule foldR_inv [OF r(5)])
    fix n x y assume "?I x" "link_apps n x = Inr y"
    then show "?I y" by (cases x; cases y) (auto dest: link_apps_sane)
  qed
  moreover have "app_table e' = app_table e4" "link_table e' = link_table e4" using r(6) by (auto simp: compute_breathe_order_def bindR_eq_Inr Let_def)
  ultimately show ?thesis by (simp add: sane_with_def r(7))
qed

end

section \<open>The ports of an app\<close>

lemma one_link: "engine_ok e \<Longrightarrow> (spec, h) \<in> set (link_table e) \<Longrightarrow> (spec', h) \<in> set (link_table e) \<Longrightarrow> spec = spec'"
  using inj_onD [of snd "set (link_table e)" "(spec, h)" "(spec', h)"] by (auto simp: engine_ok_def tables_ok_def distinct_map)

lemma port_handles:
  assumes "engine_ok e" and "keyed (as_ports a)" and "(n, a) \<in> set (app_table e)"
  shows "distinct (map snd (app_input (as_ports a)))" "distinct (map snd (app_output (as_ports a)))"
    "\<not> edge e n n \<Longrightarrow> set (map snd (app_input (as_ports a))) \<inter> set (map snd (app_output (as_ports a))) = {}"
proof -
  have ports: "\<forall>(p, h) \<in> set (app_output (as_ports a)). leaves e n p h" "\<forall>(p, h) \<in> set (app_input (as_ports a)). enters e n p h"
    using assms(1,3) by (auto simp: engine_ok_def ports_sound_def)
  note same = one_link [OF assms(1)]
  have "inj_on snd (set (app_input (as_ports a)))"
  proof (rule inj_onI, clarsimp)
    fix p p' h assume "(p, h) \<in> set (app_input (as_ports a))" "(p', h) \<in> set (app_input (as_ports a))"
    then have "enters e n p h" "enters e n p' h" using ports(2) by auto
    then show "p = p'" unfolding enters_def using same by (metis Inr_inject)
  qed
  moreover have "inj_on snd (set (app_output (as_ports a)))"
  proof (rule inj_onI, clarsimp)
    fix p p' h assume "(p, h) \<in> set (app_output (as_ports a))" "(p', h) \<in> set (app_output (as_ports a))"
    then have "leaves e n p h" "leaves e n p' h" using ports(1) by auto
    then show "p = p'" unfolding leaves_def using same by (metis Inr_inject)
  qed
  ultimately show "distinct (map snd (app_input (as_ports a)))" "distinct (map snd (app_output (as_ports a)))"
    using assms(2) by (simp_all add: keyed_def distinct_map)
  show "set (map snd (app_input (as_ports a))) \<inter> set (map snd (app_output (as_ports a))) = {}" if "\<not> edge e n n"
  proof (rule ccontr)
    assume "set (map snd (app_input (as_ports a))) \<inter> set (map snd (app_output (as_ports a))) \<noteq> {}"
    then obtain p q h where pq: "(p, h) \<in> set (app_input (as_ports a))" "(q, h) \<in> set (app_output (as_ports a))" by auto
    then have "enters e n p h" "leaves e n q h" using ports by auto
    then obtain spec l where "(spec, h) \<in> set (link_table e)" "parse_link spec = Inr l" "spec_to l = n" "spec_from l = n"
      using same by (fastforce simp: enters_def leaves_def)
    then have "edge e n n" unfolding edge_def by force
    then show False using that by simp
  qed
qed

text \<open>The types of the links, by their handles.\<close>

definition handle_type :: "name_types \<Rightarrow> engine \<Rightarrow> frame_types" where
  "handle_type N e h f \<longleftrightarrow> (\<forall>spec. (spec, h) \<in> set (link_table e) \<longrightarrow> link_type N spec f)"

lemma typed_links_iff: "typed_links (handle_type N e) s \<longleftrightarrow> links_typed N (link_table e) s"
  by (fastforce simp: typed_links_def handle_type_def links_typed_def)

lemma output_type:
  assumes "engine_ok e" and "(n, a) \<in> set (app_table e)" and "j \<in> snd ` set (app_output (as_ports a))"
  shows "handle_type N e j = N n"
proof -
  obtain spec l where l: "(spec, j) \<in> set (link_table e)" "parse_link spec = Inr l" "spec_from l = n"
  proof -
    obtain p where "(p, j) \<in> set (app_output (as_ports a))" using assms(3) by auto
    then have "leaves e n p j" using assms(1,2) by (auto simp: engine_ok_def ports_sound_def)
    then show thesis using that by (auto simp: leaves_def)
  qed
  have "handle_type N e j f \<longleftrightarrow> link_type N spec f" for f
    unfolding handle_type_def using l(1) one_link [OF assms(1) l(1)] by blast
  then show ?thesis using l(2,3) by (simp add: link_type_def fun_eq_iff)
qed

lemma input_type:
  assumes "engine_ok e" and "(n, a) \<in> set (app_table e)" and "i \<in> snd ` set (app_input (as_ports a))"
  obtains k where "edge e k n" "handle_type N e i = N k"
proof -
  obtain spec l where l: "(spec, i) \<in> set (link_table e)" "parse_link spec = Inr l" "spec_to l = n"
  proof -
    obtain p where "(p, i) \<in> set (app_input (as_ports a))" using assms(3) by auto
    then have "enters e n p i" using assms(1,2) by (auto simp: engine_ok_def ports_sound_def)
    then show thesis using that by (auto simp: enters_def)
  qed
  have "handle_type N e i f \<longleftrightarrow> link_type N spec f" for f
    unfolding handle_type_def using l(1) one_link [OF assms(1) l(1)] by blast
  then have "handle_type N e i = N (spec_from l)" using l(2) by (simp add: link_type_def fun_eq_iff)
  moreover have "edge e (spec_from l) n" using l unfolding edge_def by force
  ultimately show thesis by (rule that [rotated])
qed

end
