(* ===== verification/Operating.thy ===== *)
theory Operating
  imports Configured
begin

text \<open>
  The program \<^verbatim>\<open>synthetic_network\<close> in operation: what the apps of the configured networks put out, their ports, and the states that the program gets
  into.
\<close>

declare length_contents [simp del] take_append [simp del]

section \<open>What the apps of a synthetic network put out\<close>

fun opposite :: "side \<Rightarrow> side" where
  "opposite Outer = Inner"
| "opposite Inner = Outer"

text \<open>The segments of the frames that satisfy \<open>R\<close>, and these with checksums filled in.\<close>

definition segmented :: "(u8 list \<Rightarrow> bool) \<Rightarrow> u8 list \<Rightarrow> bool" where
  "segmented R f \<longleftrightarrow> (\<exists>p. packet_ok p \<and> R (frame p) \<and> f \<in> set (tsd_frames 1400 p))"

definition forwarded :: "(u8 list \<Rightarrow> bool) \<Rightarrow> u8 list \<Rightarrow> bool" where
  "forwarded R f \<longleftrightarrow> (\<exists>p. packet_ok p \<and> segmented R (frame p) \<and> f = frame (filled p))"

text \<open>\<open>R t\<close> is what the interface of the side \<open>t\<close> reads.\<close>

fun node_type :: "(side \<Rightarrow> u8 list \<Rightarrow> bool) \<Rightarrow> node \<Rightarrow> u8 list \<Rightarrow> bool" where
  "node_type R (Interface t) = R t"
| "node_type R (Tsd_node t) = segmented (R t)"
| "node_type R (Offload_node t) = forwarded (R t)"
| "node_type R (Split_node t) = forwarded (R t)"
| "node_type R (Top_node t) = forwarded (R t)"
| "node_type R (Join_node t) = forwarded (R (opposite t))"
| "node_type R (Rate_node (Branch d _)) = forwarded (R (source_side d))"
| "node_type R (Loss_node (Branch d _)) = forwarded (R (source_side d))"
| "node_type R (Latency_node (Branch d _)) = forwarded (R (source_side d))"
| "node_type R (Jitter_node (Branch d _)) = forwarded (R (source_side d))"

definition name_type :: "(side \<Rightarrow> u8 list \<Rightarrow> bool) \<Rightarrow> string \<Rightarrow> string \<Rightarrow> name_types" where
  "name_type R oi ii x f \<longleftrightarrow> (\<forall>n. x = node_name oi ii n \<longrightarrow> node_type R n f)"

lemma name_type_node:
  "ifname_ok oi \<Longrightarrow> ifname_ok ii \<Longrightarrow> oi \<noteq> ii \<Longrightarrow> name_type R oi ii (node_name oi ii n) = node_type R n"
  by (auto simp: name_type_def node_name_inj fun_eq_iff)

lemma opposite_target: "opposite (target_side d) = source_side d"
  by (cases d) simp_all

text \<open>What arrives at each app.\<close>

lemma wire_types:
  assumes "(k, p, n, q) \<in> set (network_wires labels)"
  shows "case n of Interface t \<Rightarrow> node_type R k = forwarded (R (opposite t)) | Tsd_node t \<Rightarrow> node_type R k = R t
    | Offload_node t \<Rightarrow> node_type R k = segmented (R t) | _ \<Rightarrow> node_type R k = node_type R n"
  using assms unfolding network_wires_iff trunk_def branch_wires_def Let_def by (auto simp: opposite_target)

lemma segmented_whole:
  assumes "\<And>f. R f \<Longrightarrow> whole_frame f" and "segmented R f"
  shows "whole_frame f"
proof -
  obtain p where p: "packet_ok p" "R (frame p)" "f \<in> set (tsd_frames 1400 p)" using assms(2) by (auto simp: segmented_def)
  then show ?thesis using tsd_frames_whole [OF p(1) _ _ p(3)] assms(1) by (simp add: whole_def)
qed

section \<open>The invariant of the apps\<close>

text \<open>The part of \<open>app_fit\<close> that is not about sockets.\<close>

definition app_sane :: "name_types \<Rightarrow> 'n sys \<Rightarrow> string \<Rightarrow> app \<Rightarrow> bool" where
  "app_sane N s n x =
     (case x of
        LatencyApp _ q \<Rightarrow> queue_fit (N n) q
      | JitterApp _ _ _ q \<Rightarrow> queue_fit (N n) q
      | TopApp path _ \<Rightarrow> length (sys_files s path) = FLOWTOP_NSLOTS
      | _ \<Rightarrow> True)"

abbreviation sane :: "name_types \<Rightarrow> engine \<Rightarrow> 'n sys \<Rightarrow> bool" where
  "sane N \<equiv> sane_with N (app_sane N)"

lemma app_sane_files: "files_kept s s' \<Longrightarrow> app_sane N s n x \<Longrightarrow> app_sane N s' n x"
  by (cases x) (simp_all add: app_sane_def files_kept_def)

interpretation sa: app_property N "app_sane N" for N
proof unfold_locales
  fix os c s x s' n assume new: "app_new os c s = Inr (x, s')"
  show "app_sane N s' n x"
  proof (cases c)
    case (Top path d)
    then show ?thesis using new open_flowtop_map_keeps [of os path s] by (auto simp: app_new_def bindR_eq_Inr app_sane_def)
  qed (use new in \<open>auto simp: app_new_def bindR_eq_Inr app_sane_def dq_new_def queue_fit_def\<close>)
qed (rule app_sane_files)

text \<open>A network started from nothing holds no packets.\<close>

interpretation qe: app_property "\<lambda>_ _. True" "\<lambda>_ _ x. queue_of x = []"
  by unfold_locales (auto simp: app_new_def bindR_eq_Inr dq_new_def queue_of_def split: conf.splits)

text \<open>The queue of a delay app holds what the app puts out.\<close>

lemma queue_out_type:
  assumes "engine_ok e" and "(n, a) \<in> set (app_table e)" and "app_matches (as_conf a) (as_app a)" and "ports_fit (as_conf a) (as_ports a)"
    and "(\<exists>ms. as_app a = LatencyApp ms q) \<or> (\<exists>us st re. as_app a = JitterApp us st re q)"
  shows "out_type (handle_type N e) (as_ports a) = N n"
proof -
  obtain i j where "ports_ok (as_ports a) i j" using ports_fit_two [OF assms(4,3)] assms(5) by auto
  then have j: "map_of (app_output (as_ports a)) ''output'' = Some j" by (simp add: ports_ok_def)
  then have "j \<in> snd ` set (app_output (as_ports a))" by (force dest: map_of_SomeD)
  from output_type [OF assms(1,2) this] show ?thesis by (simp add: out_typeD [OF j])
qed

section \<open>The ports of a synthetic network\<close>

text \<open>An engine that runs the network of a specification.\<close>

definition runs_spec :: "string \<Rightarrow> string \<Rightarrow> (dir \<Rightarrow> string) \<Rightarrow> synthetic_network \<Rightarrow> engine \<Rightarrow> bool" where
  "runs_spec oi ii profile spec e \<longleftrightarrow> runs_network oi ii (map sf_label (sn_flows spec)) e \<and>
     (\<forall>n \<in> set (network_nodes (map sf_label (sn_flows spec))).
       map_option as_conf (map_of (app_table e) (node_name oi ii n)) = Some (node_conf oi ii profile spec n))"

lemma wire_handles:
  assumes "ifname_ok oi" "ifname_ok ii" and "labels_ok labels" and "runs_network oi ii labels e" and "wired e (map fst (link_table e))"
    and "(n, p, m, q) \<in> set (network_wires labels)"
  obtains h a b where "map_of (app_table e) (node_name oi ii n) = Some a" "map_of (app_output (as_ports a)) p = Some h"
    "map_of (app_table e) (node_name oi ii m) = Some b" "map_of (app_input (as_ports b)) q = Some h"
proof -
  let ?t = "wire_text oi ii (n, p, m, q)"
  have "?t \<in> fst ` set (link_table e)" using assms(4,6) by (simp add: runs_network_def)
  moreover have "parse_link ?t = Inr (wire_spec oi ii (n, p, m, q))" by (rule parse_wire [OF assms(1,2) wires_words [OF assms(3,6)]])
  ultimately obtain h out inp out' inp' where
    "port_maps e (node_name oi ii n) = Some (out, inp)" "out p = Some h" "port_maps e (node_name oi ii m) = Some (out', inp')" "inp' q = Some h"
    using assms(5) by (fastforce simp: wired_def wire_spec_def)
  then show thesis using that by (auto simp: port_maps_def)
qed

lemma sides: "\<exists>d. t = source_side d" "\<exists>d. t = target_side d"
  by (cases t; metis source_side.simps target_side.simps)+

text \<open>Every app but interfaces, splits and joins has an input and an output.\<close>

lemma through_wires:
  assumes "n \<in> set (network_nodes labels)"
    and "case n of Interface _ \<Rightarrow> False | Split_node _ \<Rightarrow> False | Join_node _ \<Rightarrow> False | _ \<Rightarrow> True"
  shows "\<exists>k p m q. (k, p, n, ''input'') \<in> set (network_wires labels) \<and> (n, ''output'', m, q) \<in> set (network_wires labels)"
proof (cases n)
  case (Tsd_node t)
  moreover obtain d where "t = source_side d" using sides by blast
  ultimately show ?thesis unfolding network_wires_iff trunk_def by blast
next
  case (Offload_node t)
  moreover obtain d where "t = source_side d" using sides by blast
  ultimately show ?thesis unfolding network_wires_iff trunk_def by blast
next
  case (Top_node t)
  moreover obtain d where "t = source_side d" using sides by blast
  ultimately show ?thesis unfolding network_wires_iff trunk_def by blast
qed (use assms in \<open>auto simp: network_nodes_iff network_wires_iff branch_wires_def Let_def; blast\<close>)+

lemma map_of_snd_inj:
  assumes "distinct (map snd al)" and "map_of al p = Some h" and "map_of al q = Some h"
  shows "p = q"
  using inj_onD [of snd "set al" "(p, h)" "(q, h)"] assms by (auto simp: distinct_map dest: map_of_SomeD)

lemma network_ports_fit:
  assumes ok: "ifname_ok oi" "ifname_ok ii" "oi \<noteq> ii" and "sanitize_labels spec = Inr ()" and run: "runs_spec oi ii profile spec e"
    and "sound e i" and "sane N e s" and "(x, a) \<in> set (app_table e)"
  shows "ports_fit (as_conf a) (as_ports a)"
proof -
  let ?labels = "map sf_label (sn_flows spec)"
  have labels: "labels_ok ?labels" using assms(4) sanitize_labels_iff by simp
  have net: "runs_network oi ii ?labels e" using run by (simp add: runs_spec_def)
  have eng: "engine_ok e" "wired e (map fst (link_table e))" using assms(6) by (simp_all add: sound_def)
  have dist: "distinct (map fst (app_table e))" using eng(1) by (simp add: engine_ok_def tables_ok_def)
  have "x \<in> fst ` set (app_table e)" using assms(8) by force
  then obtain n where n: "n \<in> set (network_nodes ?labels)" "x = node_name oi ii n" using net by (auto simp: runs_network_def)
  have a: "map_of (app_table e) (node_name oi ii n) = Some a" using assms(8) dist n(2) by simp
  have conf: "as_conf a = node_conf oi ii profile spec n" using run n(1) a by (auto simp: runs_spec_def)
  have keyed: "keyed (as_ports a)" using sa.saneD(3) [OF assms(7,8)] by simp
  have "\<not> edge e x x"
    unfolding network_edge [OF ok(1,2) labels net] n(2) using no_self_wire node_name_inj [OF ok] by fastforce
  note ports = port_handles(1,2) [OF eng(1) keyed assms(8)] port_handles(3) [OF eng(1) keyed assms(8) this]
  have out: "\<exists>h. map_of (app_output (as_ports a)) p = Some h" if "(n, p, m, q) \<in> set (network_wires ?labels)" for p m q
    by (rule wire_handles [OF ok(1,2) labels net eng(2) that]) (use a in auto)
  have inp: "\<exists>h. map_of (app_input (as_ports a)) q = Some h" if "(k, p, n, q) \<in> set (network_wires ?labels)" for k p q
    by (rule wire_handles [OF ok(1,2) labels net eng(2) that]) (use a in auto)
  have differ: "h \<noteq> j" if "map_of (app_input (as_ports a)) p = Some h" "map_of (app_output (as_ports a)) q = Some j" for p q h j
    using ports(3) that by (force dest: map_of_SomeD)
  show ?thesis
  proof (cases n)
    case (Interface t)
    then show ?thesis by (simp add: ports_fit_def conf)
  next
    case (Split_node t)
    obtain d where d: "t = source_side d" using sides by blast
    have "(Offload_node t, ''output'', n, ''input'') \<in> set (network_wires ?labels)"
      unfolding network_wires_iff trunk_def Split_node d by blast
    then obtain i where i: "map_of (app_input (as_ports a)) ''input'' = Some i" using inp by blast
    have br: "(n, branch_port lo, Rate_node (Branch d lo), ''input'') \<in> set (network_wires ?labels)" if "lo \<in> branches ?labels" for lo
      using that unfolding network_wires_iff branch_wires_def Split_node d Let_def by auto
    obtain j where j: "map_of (app_output (as_ports a)) ''default'' = Some j"
      using out [OF br [of None]] by (auto simp: branches_def branch_port_def)
    have "\<exists>h. map_of (app_output (as_ports a)) (flow_label f) = Some h \<and> h \<noteq> j \<and> h \<noteq> i"
      if "f \<in> set (split_flows (sn_flows spec) (side_dir t))" for f
    proof -
      have l: "flow_label f \<in> set ?labels" using that by (auto simp: split_flows_def)
      then obtain h where h: "map_of (app_output (as_ports a)) (flow_label f) = Some h"
        using out [OF br [of "Some (flow_label f)"]] by (auto simp: branches_def branch_port_def)
      have "flow_label f \<noteq> ''default''" using labels l by (auto simp: labels_ok_def)
      then have "h \<noteq> j" using map_of_snd_inj [OF ports(2) h] j by blast
      then show ?thesis using h differ [OF i h] by blast
    qed
    then have "split_ok (split_flows (sn_flows spec) (side_dir t)) (as_ports a) i j"
      using i j differ [OF i j] by (auto simp: split_ok_def)
    then show ?thesis by (auto simp: ports_fit_def conf Split_node)
  next
    case (Join_node t)
    obtain d where d: "t = target_side d" using sides by blast
    have "(n, ''output'', Top_node (source_side d), ''input'') \<in> set (network_wires ?labels)"
      unfolding network_wires_iff trunk_def Join_node d by blast
    then obtain j where j: "map_of (app_output (as_ports a)) ''output'' = Some j" using out by blast
    then have "j \<in> set (map snd (app_output (as_ports a)))" by (force dest: map_of_SomeD)
    then show ?thesis using j ports(1,3) by (auto simp: ports_fit_def conf Join_node)
  qed (use through_wires [OF n(1)] inp out differ in
      \<open>(elim meta_impE exE conjE, simp, fastforce simp: ports_fit_def conf ports_ok_def)+\<close>)
qed

section \<open>The types of a synthetic network\<close>

lemma network_app:
  assumes "runs_spec oi ii profile spec e" and "map_of (app_table e) x = Some a"
  obtains n where "n \<in> set (network_nodes (map sf_label (sn_flows spec)))" "x = node_name oi ii n" "as_conf a = node_conf oi ii profile spec n"
proof -
  have "x \<in> fst ` set (app_table e)" using assms(2) by (force dest: map_of_SomeD)
  then obtain n where "n \<in> set (network_nodes (map sf_label (sn_flows spec)))" "x = node_name oi ii n"
    using assms(1) by (auto simp: runs_spec_def runs_network_def)
  moreover from this have "as_conf a = node_conf oi ii profile spec n" using assms by (auto simp: runs_spec_def)
  ultimately show thesis by (rule that)
qed

lemma network_inputs:
  assumes ok: "ifname_ok oi" "ifname_ok ii" "oi \<noteq> ii" and "sanitize_labels spec = Inr ()" and "runs_spec oi ii profile spec e" and "engine_ok e"
    and "(node_name oi ii n, a) \<in> set (app_table e)" and "i \<in> snd ` set (app_input (as_ports a))"
  obtains k p q where "(k, p, n, q) \<in> set (network_wires (map sf_label (sn_flows spec)))" "handle_type (name_type R oi ii) e i = node_type R k"
proof -
  let ?labels = "map sf_label (sn_flows spec)"
  have labels: "labels_ok ?labels" using assms(4) sanitize_labels_iff by simp
  have net: "runs_network oi ii ?labels e" using assms(5) by (simp add: runs_spec_def)
  obtain x where x: "edge e x (node_name oi ii n)" "handle_type (name_type R oi ii) e i = name_type R oi ii x"
    by (rule input_type [OF assms(6-8)])
  then show thesis
    using that name_type_node [OF ok] unfolding network_edge [OF ok(1,2) labels net] by (auto simp: node_name_inj [OF ok])
qed

lemma network_flows_typed:
  assumes ok: "ifname_ok oi" "ifname_ok ii" "oi \<noteq> ii" and "sanitize_labels spec = Inr ()" and run: "runs_spec oi ii profile spec e"
    and eng: "engine_ok e" and "(x, a) \<in> set (app_table e)" and whole: "\<forall>t f. R t f \<longrightarrow> whole_frame f"
  shows "flows_typed (handle_type (name_type R oi ii) e) (as_conf a) (as_ports a)"
proof -
  have dist: "distinct (map fst (app_table e))" using eng by (simp add: engine_ok_def tables_ok_def)
  obtain n where n: "x = node_name oi ii n" "as_conf a = node_conf oi ii profile spec n"
    by (rule network_app [OF run, of x a]) (use assms(7) dist in simp_all)
  have j: "handle_type (name_type R oi ii) e j = node_type R n" if "j \<in> snd ` set (app_output (as_ports a))" for j
    using output_type [OF eng assms(7) that] name_type_node [OF ok] n(1) by simp
  have i: "case n of Interface t \<Rightarrow> True | Tsd_node t \<Rightarrow> handle_type (name_type R oi ii) e i = R t
      | Offload_node t \<Rightarrow> handle_type (name_type R oi ii) e i = segmented (R t) | _ \<Rightarrow> handle_type (name_type R oi ii) e i = node_type R n"
    if i: "i \<in> snd ` set (app_input (as_ports a))" for i
  proof -
    obtain k p q where "(k, p, n, q) \<in> set (network_wires (map sf_label (sn_flows spec)))" "handle_type (name_type R oi ii) e i = node_type R k"
      by (rule network_inputs [OF ok assms(4) run eng assms(7) [unfolded n(1)] i])
    then show ?thesis using wire_types [of k p n q _ R] by (cases n) auto
  qed
  have sw: "whole p" if "segmented (R t) (frame p)" for t p using segmented_whole [OF _ that] whole by (simp add: whole_def)
  have seg: "segmented (R t) f" if "packet_ok p" "R t (frame p)" "f \<in> set (tsd_frames 1400 p)" for t p f
    using that by (auto simp: segmented_def)
  have fwd: "forwarded (R t) (frame (filled p))" if "packet_ok p" "segmented (R t) (frame p)" for t p using that by (auto simp: forwarded_def)
  show ?thesis
    unfolding flows_typed_def by (cases n) (use i j in \<open>auto simp: n(2) list_all_iff sw seg fwd\<close>)
qed

section \<open>What a breath may take from the pool\<close>

lemma sum_list_two:
  assumes "distinct ns" and "\<And>n. n \<in> set ns \<Longrightarrow> n \<noteq> x \<Longrightarrow> n \<noteq> y \<Longrightarrow> f n = 0" and "f x \<le> k" and "f y \<le> (k :: nat)"
  shows "sum_list (map f ns) \<le> 2 * k"
proof -
  have "sum_list (map f ns) = sum f (set ns)" by (rule sum_list_distinct_conv_sum_set [OF assms(1)])
  also have "\<dots> = sum f (set ns \<inter> {x, y})" by (rule sum.mono_neutral_right) (use assms(2) in auto)
  also have "\<dots> \<le> sum f {x, y}" by (rule sum_mono2) auto
  also have "\<dots> \<le> 2 * k" using assms(3,4) by (cases "x = y") auto
  finally show ?thesis .
qed

text \<open>Two interfaces that read up to a link full of frames, and two TSD apps.\<close>

lemma network_cost:
  assumes "runs_spec oi ii profile spec e" and "sound e i"
  shows "breath_cost e \<le> 6142"
proof -
  note sizes = LINK_MAX_PACKETS_def LINK_RING_SIZE_def
  have pull: "app_cost pull_cost e x = 0" if "x \<noteq> node_name oi ii (Interface Outer)" "x \<noteq> node_name oi ii (Interface Inner)" for x
  proof (cases "map_of (app_table e) x")
    case (Some a)
    obtain n where n: "x = node_name oi ii n" "as_conf a = node_conf oi ii profile spec n" by (rule network_app [OF assms(1) Some])
    have "\<forall>t. n \<noteq> Interface t" using that n(1) by (metis side.exhaust)
    then show ?thesis by (cases n) (simp_all add: app_cost_def Some n(2) pull_cost_def)
  qed (simp add: app_cost_def)
  have push: "app_cost push_cost e x = 0" if "x \<noteq> node_name oi ii (Tsd_node Outer)" "x \<noteq> node_name oi ii (Tsd_node Inner)" for x
  proof (cases "map_of (app_table e) x")
    case (Some a)
    obtain n where n: "x = node_name oi ii n" "as_conf a = node_conf oi ii profile spec n" by (rule network_app [OF assms(1) Some])
    have "\<forall>t. n \<noteq> Tsd_node t" using that n(1) by (metis side.exhaust)
    then show ?thesis by (cases n) (simp_all add: app_cost_def Some n(2) push_cost_def)
  qed (simp add: app_cost_def)
  have "app_cost pull_cost e x \<le> 1024" "app_cost push_cost e x \<le> 2047" for x
  proof -
    have "pull_cost (node_conf oi ii profile spec n) a \<le> 1024 \<and> push_cost (node_conf oi ii profile spec n) a \<le> 2047" for n a
      by (cases n) (simp_all add: pull_cost_def push_cost_def sizes)
    then show "app_cost pull_cost e x \<le> 1024" "app_cost push_cost e x \<le> 2047"
      by (cases "map_of (app_table e) x"; simp add: app_cost_def; metis network_app [OF assms(1)])+
  qed
  moreover have "distinct (inhale e)" "distinct (exhale e)" using assms(2) by (simp_all add: sound_def)
  ultimately have "sum_list (map (app_cost pull_cost e) (inhale e)) \<le> 2 * 1024" "sum_list (map (app_cost push_cost e) (exhale e)) \<le> 2 * 2047"
    using pull push by (blast intro: sum_list_two)+
  then show ?thesis by (simp add: breath_cost_def)
qed

section \<open>The program in operation\<close>

text \<open>The socket of the interface of a side.\<close>

definition interface_socket :: "string \<Rightarrow> string \<Rightarrow> engine \<Rightarrow> side \<Rightarrow> i32 option" where
  "interface_socket oi ii e t =
     (case map_of (app_table e) (side_name oi ii t) of
        Some a \<Rightarrow> (case as_app a of RawSocketApp sock \<Rightarrow> Some sock | _ \<Rightarrow> None)
      | None \<Rightarrow> None)"

text \<open>
  Working sockets, room in every delay queue, and packets left in the pool. The socket of the side \<open>t\<close> delivers frames that satisfy \<open>R t\<close> and
  takes frames that are forwarded from the other side.
\<close>

definition at_ease :: "'n os \<Rightarrow> ('n \<Rightarrow> bool) \<Rightarrow> (side \<Rightarrow> u8 list \<Rightarrow> bool) \<Rightarrow> string \<Rightarrow> string \<Rightarrow> engine \<Rightarrow> 'n sys \<Rightarrow> bool" where
  "at_ease os good R oi ii e s \<longleftrightarrow> good (sys_net s) \<and>
     (\<forall>t sock. interface_socket oi ii e t = Some sock \<longrightarrow> socket_works os good (R t) (forwarded (R (opposite t))) sock) \<and>
     network_room e \<and> in_use (sys_io s) + 6142 \<le> 511000"

text \<open>
  The states that the program gets into as long as it is at ease: it starts without a network, applies specifications, and makes breaths for which sockets, queues and pool are as
  \<open>at_ease\<close> says. The real loop breathes also when they are not; such breaths are in \<open>reachable\<close>, if they return, but not here. The
  world outside may change in between in any way that leaves links, packets and the mapped files in place.
\<close>

inductive operating :: "'n os \<Rightarrow> (side \<Rightarrow> u8 list \<Rightarrow> bool) \<Rightarrow> string \<Rightarrow> string \<Rightarrow> string \<Rightarrow> string \<Rightarrow> engine \<times> 'n sys \<Rightarrow> bool"
  for os R oi ii ingress egress where
  start: "\<forall>h. io_links (sys_io s) h = new_link \<Longrightarrow> pool_ok (io_world (sys_io s)) 0 \<Longrightarrow>
    operating os R oi ii ingress egress (initial_engine, s)"
| configured: "operating os R oi ii ingress egress (e, s) \<Longrightarrow> sanitize_labels spec = Inr () \<Longrightarrow> losses_are_numbers spec \<Longrightarrow>
    hash_order ho \<Longrightarrow> configure_synthetic_network oi ii ingress egress spec new_config = Inr c \<Longrightarrow> configure os ho c (e, s) = Inr st \<Longrightarrow>
    operating os R oi ii ingress egress st"
| breathed: "operating os R oi ii ingress egress (e, s) \<Longrightarrow> at_ease os good R oi ii e s \<Longrightarrow> breathe os (e, s) = Inr st \<Longrightarrow>
    operating os R oi ii ingress egress st"
| outside: "operating os R oi ii ingress egress (e, s) \<Longrightarrow> sys_io s' = sys_io s \<Longrightarrow> files_kept s s' \<Longrightarrow>
    operating os R oi ii ingress egress (e, s')"

inductive_cases operating_cases: "operating os R oi ii ingress egress st"

definition operable :: "(side \<Rightarrow> u8 list \<Rightarrow> bool) \<Rightarrow> string \<Rightarrow> string \<Rightarrow> (dir \<Rightarrow> string) \<Rightarrow> engine \<Rightarrow> 'n sys \<Rightarrow> bool" where
  "operable R oi ii profile e s \<longleftrightarrow> sound e (sys_io s) \<and> sane (name_type R oi ii) e s \<and>
     (app_table e = [] \<or> (\<exists>spec. sanitize_labels spec = Inr () \<and> runs_spec oi ii profile spec e))"

text \<open>An interface reads what its output carries and writes what its input carries.\<close>

lemma interface_types:
  assumes ok: "ifname_ok oi" "ifname_ok ii" "oi \<noteq> ii" and spec: "sanitize_labels spec = Inr ()" "runs_spec oi ii profile spec e" and "sound e i"
    and a: "map_of (app_table e) (node_name oi ii (Interface t)) = Some a"
  shows "out_type (handle_type (name_type R oi ii) e) (as_ports a) = R t"
    "in_type (handle_type (name_type R oi ii) e) (as_ports a) = forwarded (R (opposite t))"
proof -
  let ?labels = "map sf_label (sn_flows spec)" and ?T = "handle_type (name_type R oi ii) e"
  have labels: "labels_ok ?labels" using spec(1) sanitize_labels_iff by simp
  have net: "runs_network oi ii ?labels e" using spec(2) by (simp add: runs_spec_def)
  have eng: "engine_ok e" "wired e (map fst (link_table e))" using assms(6) by (simp_all add: sound_def)
  note handles = wire_handles [OF ok(1,2) labels net eng(2)]
  obtain d d' where d: "t = source_side d" "t = target_side d'" using sides by blast
  have "(Interface t, ''output'', Tsd_node t, ''input'') \<in> set (network_wires ?labels)"
    unfolding network_wires_iff trunk_def d(1) by blast
  from handles [OF this] a obtain j where j: "map_of (app_output (as_ports a)) ''output'' = Some j" by auto
  then have "j \<in> snd ` set (app_output (as_ports a))" by (force dest: map_of_SomeD)
  from output_type [OF eng(1) map_of_SomeD [OF a] this, of "name_type R oi ii"]
  show "out_type ?T (as_ports a) = R t" by (simp only: out_typeD [OF j] name_type_node [OF ok] node_type.simps)
  have "(Top_node (source_side d'), ''output'', Interface t, ''input'') \<in> set (network_wires ?labels)"
    unfolding network_wires_iff trunk_def d(2) by blast
  from handles [OF this] a obtain h where h: "map_of (app_input (as_ports a)) ''input'' = Some h" by auto
  then have "h \<in> snd ` set (app_input (as_ports a))" by (force dest: map_of_SomeD)
  then obtain k p q where "(k, p, Interface t, q) \<in> set (network_wires ?labels)" "?T h = node_type R k"
    by (rule network_inputs [OF ok spec eng(1) map_of_SomeD [OF a]])
  then show "in_type ?T (as_ports a) = forwarded (R (opposite t))" using wire_types [of k p "Interface t" q] by (auto simp: in_type_def h fun_eq_iff)
qed

lemma operable_app_fit:
  assumes ok: "ifname_ok oi" "ifname_ok ii" "oi \<noteq> ii" and op: "operable R oi ii profile e s" and ease: "at_ease os good R oi ii e s"
    and whole: "\<forall>t f. R t f \<longrightarrow> whole_frame f" and a: "(x, a) \<in> set (app_table e)"
  shows "app_fit os good (handle_type (name_type R oi ii) e) s (as_ports a) (as_app a)" "ports_fit (as_conf a) (as_ports a)"
    "flows_typed (handle_type (name_type R oi ii) e) (as_conf a) (as_ports a)"
proof -
  have s: "sound e (sys_io s)" "sane (name_type R oi ii) e s" using op by (simp_all add: operable_def)
  have eng: "engine_ok e" using s(1) by (simp add: sound_def)
  obtain spec where spec: "sanitize_labels spec = Inr ()" "runs_spec oi ii profile spec e" using op a by (auto simp: operable_def)
  have m: "map_of (app_table e) x = Some a" using a eng by (simp add: engine_ok_def tables_ok_def)
  obtain n where n: "x = node_name oi ii n" "as_conf a = node_conf oi ii profile spec n" by (rule network_app [OF spec(2) m])
  have matches: "app_matches (as_conf a) (as_app a)" using s(1) a by (fastforce simp: sound_def accounted_def apps_view_def)
  show ports: "ports_fit (as_conf a) (as_ports a)" by (rule network_ports_fit [OF ok spec s a])
  show "flows_typed (handle_type (name_type R oi ii) e) (as_conf a) (as_ports a)" by (rule network_flows_typed [OF ok spec eng a whole])
  show "app_fit os good (handle_type (name_type R oi ii) e) s (as_ports a) (as_app a)"
  proof (cases "as_app a")
    case (RawSocketApp sock)
    obtain t where t: "n = Interface t" using matches n(2) by (cases n) (auto simp: RawSocketApp app_matches_def)
    then have "interface_socket oi ii e t = Some sock" using m n(1) by (simp add: interface_socket_def RawSocketApp)
    then show ?thesis using ease interface_types [OF ok spec s(1) m [unfolded n(1) t]] by (simp add: app_fit_def RawSocketApp at_ease_def)
  qed (use sa.saneD(3) [OF s(2) a] queue_out_type [OF eng a matches ports] in \<open>auto simp: app_fit_def app_sane_def\<close>)
qed

lemma operable_fit:
  assumes ok: "ifname_ok oi" "ifname_ok ii" "oi \<noteq> ii" and op: "operable R oi ii profile e s" and ease: "at_ease os good R oi ii e s"
    and whole: "\<forall>t f. R t f \<longrightarrow> whole_frame f"
  shows "network_fit os good (handle_type (name_type R oi ii) e) e s" "network_room e" "in_use (sys_io s) + breath_cost e \<le> pool_max"
proof -
  have s: "sound e (sys_io s)" "sane (name_type R oi ii) e s" using op by (simp_all add: operable_def)
  show "network_fit os good (handle_type (name_type R oi ii) e) e s"
    using ease sa.saneD(2) [OF s(2)] operable_app_fit [OF ok op ease whole] by (auto simp: network_fit_def at_ease_def typed_links_iff)
  show "network_room e" using ease by (simp add: at_ease_def)
  have "breath_cost e \<le> 6142"
  proof (cases "app_table e = []")
    case True
    then show ?thesis by (simp add: breath_cost_def app_cost_def [abs_def])
  next
    case False
    then show ?thesis using op network_cost [OF _ s(1)] by (auto simp: operable_def)
  qed
  then show "in_use (sys_io s) + breath_cost e \<le> pool_max" using ease by (simp add: at_ease_def pool_max_def)
qed

lemma network_domain:
  assumes "\<And>n. map_option as_conf (map_of (app_table e') n) = map_option as_conf (map_of (app_table e) n)"
  shows "fst ` set (app_table e') = fst ` set (app_table e)"
proof (rule set_eqI)
  fix n show "n \<in> fst ` set (app_table e') \<longleftrightarrow> n \<in> fst ` set (app_table e)"
    using assms [of n] by (metis map_of_eq_None_iff option.map_disc_iff)
qed

lemma runs_spec_same:
  assumes "runs_spec oi ii profile spec e" and "same_network e e'" and "sound e' i"
  shows "runs_spec oi ii profile spec e'"
proof -
  have conf: "map_option as_conf (map_of (app_table e') n) = map_option as_conf (map_of (app_table e) n)" for n
    using assms(2) by (simp add: same_network_def)
  have "pushes_app e' (node_name oi ii n) \<and> (pulls_app e' (node_name oi ii n) \<longleftrightarrow> pull_node n)"
    if n: "n \<in> set (network_nodes (map sf_label (sn_flows spec)))" for n
  proof -
    have "map_option as_conf (map_of (app_table e') (node_name oi ii n)) = Some (node_conf oi ii profile spec n)"
      using conf assms(1) n by (simp only: runs_spec_def)
    then obtain a where a: "map_of (app_table e') (node_name oi ii n) = Some a" "as_conf a = node_conf oi ii profile spec n"
      by blast
    have "app_matches (as_conf a) (as_app a)"
      using assms(3) map_of_SomeD [OF a(1)] by (fastforce simp: sound_def accounted_def apps_view_def)
    then show ?thesis using node_matches a by (metis pushes_app_def pulls_app_def option.inject)
  qed
  then show ?thesis
    using assms(1,2) network_domain [OF conf] conf by (simp add: runs_spec_def runs_network_def same_network_def)
qed

lemma breathe_operable:
  assumes ok: "ifname_ok oi" "ifname_ok ii" "oi \<noteq> ii" and "reads_fit os" and op: "operable R oi ii profile e s"
    and ease: "at_ease os good R oi ii e s" and whole: "\<forall>t f. R t f \<longrightarrow> whole_frame f"
  shows "\<exists>e' s'. breathe os (e, s) = Inr (e', s') \<and> operable R oi ii profile e' s' \<and> good (sys_net s')"
proof -
  let ?N = "name_type R oi ii"
  have s: "sound e (sys_io s)" "sane ?N e s" using op by (simp_all add: operable_def)
  from breathe_returns [OF assms(4) s(1) operable_fit [OF ok op ease whole]] obtain e' s' where
    b: "breathe os (e, s) = Inr (e', s')" "network_fit os good (handle_type ?N e) e' s'" "same_ports e e'"
    by blast
  have k: "sound e' (sys_io s')" "same_network e e'" using breathe_keeps [OF b(1) assms(4) s(1)] by auto
  have eng: "engine_ok e'" using k(1) by (simp add: sound_def)
  have T: "handle_type ?N e' = handle_type ?N e" using k(2) by (simp add: handle_type_def [abs_def] same_network_def)
  have "app_sane ?N s' n (as_app a) \<and> keyed (as_ports a)" if a: "(n, a) \<in> set (app_table e')" for n a
  proof -
    have "distinct (map fst (app_table e'))" using eng by (simp add: engine_ok_def tables_ok_def)
    then have "map_option (\<lambda>a. (as_conf a, as_ports a)) (map_of (app_table e) n) = Some (as_conf a, as_ports a)"
      using b(3) [unfolded same_ports_def, rule_format, of n] a by simp
    then obtain a0 where "(n, a0) \<in> set (app_table e)" "as_ports a = as_ports a0" by (auto dest: map_of_SomeD)
    then have "keyed (as_ports a)" using sa.saneD(3) [OF s(2)] by auto
    moreover have fit: "app_fit os good (handle_type ?N e') s' (as_ports a) (as_app a)" "ports_fit (as_conf a) (as_ports a)"
      using b(2) a unfolding T by (auto simp: network_fit_def)
    moreover have "app_matches (as_conf a) (as_app a)" using k(1) a by (fastforce simp: sound_def accounted_def apps_view_def)
    note queue_out_type [OF eng a this fit(2)]
    ultimately show ?thesis by (cases "as_app a") (auto simp: app_fit_def app_sane_def)
  qed
  moreover have "links_typed ?N (link_table e') (sys_io s')" "good (sys_net s')"
    using b(2) unfolding network_fit_def T [symmetric] typed_links_iff by auto
  ultimately have "sane ?N e' s'" using k(1) by (auto simp: sane_with_def sound_def accounted_def io_ok_def)
  moreover have "app_table e' = []" if "app_table e = []"
    using network_domain [of e' e] k(2) that by (simp add: same_network_def)
  ultimately have "operable R oi ii profile e' s'"
    using k op runs_spec_same by (fastforce simp: operable_def)
  then show ?thesis using b(1) \<open>good (sys_net s')\<close> by blast
qed

lemma configure_operable:
  assumes ok: "ifname_ok oi" "ifname_ok ii" "oi \<noteq> ii" and "opens os oi ii ingress egress" and "operable R oi ii (profiles ingress egress) e s"
    and spec: "sanitize_labels spec = Inr ()" "losses_are_numbers spec" and "hash_order ho"
    and c: "configure_synthetic_network oi ii ingress egress spec new_config = Inr c" and "configure os ho c (e, s) = Inr (e', s')"
  shows "operable R oi ii (profiles ingress egress) e' s'"
proof -
  obtain c' where c': "configure_synthetic_network oi ii ingress egress spec new_config = Inr c'"
      "net_rep oi ii (profiles ingress egress) spec
        (network_nodes (map sf_label (sn_flows spec)), network_wires (map sf_label (sn_flows spec))) c'"
      "config_ok c'" "can_start os c'"
    by (rule realisable [OF spec ok assms(4)])
  have cc: "c' = c" using c c'(1) by simp
  have s: "sound e (sys_io s)" "sane (name_type R oi ii) e s" using assms(5) by (simp_all add: operable_def)
  then have es: "engine_ok e" "accounted e (sys_io s)" by (simp_all add: sound_def)
  from configure_ok [OF es c'(3,4) assms(8)] assms(10) have
    e': "accounted e' (sys_io s')" "fst ` set (link_table e') = set (cfg_links c)"
      "\<And>n. map_option as_conf (map_of (app_table e') n) = map_of (cfg_apps c) n"
    by (auto simp: cc)
  have "runs_network oi ii (map sf_label (sn_flows spec)) e'"
    by (rule configured_runs_network [OF ok c'(2) [unfolded cc] e'(2,3,1)])
  then have "runs_spec oi ii (profiles ingress egress) spec e'"
    using e'(3) rep_conf [OF ok c'(2)] by (simp add: runs_spec_def cc)
  moreover have "sound e' (sys_io s')" using configure_sound [OF s(1) c'(3,4) assms(8)] assms(10) by (simp add: cc)
  ultimately show ?thesis using sa.configure_sane [OF assms(10) s(2)] spec(1) by (auto simp: operable_def)
qed

lemma operating_operable:
  assumes "operating os R oi ii ingress egress st" and ok: "ifname_ok oi" "ifname_ok ii" "oi \<noteq> ii"
    and "opens os oi ii ingress egress" and "reads_fit os" and whole: "\<forall>t f. R t f \<longrightarrow> whole_frame f"
  shows "operable R oi ii (profiles ingress egress) (fst st) (snd st)"
  using assms(1)
proof (induction rule: operating.induct)
  case (start s)
  then show ?case
    by (simp add: operable_def sane_with_def links_typed_def new_link_ok sound_def wired_def engine_ok_def tables_ok_def ports_sound_def
        links_connect_def initial_engine_def accounted_def held_def links_held_def apps_held_def apps_view_def io_ok_def)
next
  case (configured e s spec ho c st)
  then show ?case using configure_operable [OF ok assms(5), of R e s spec ho c] by (cases st) simp
next
  case (breathed e s good st)
  then show ?case using breathe_operable [OF ok assms(6) _ breathed(2) whole] by (cases st) auto
next
  case (outside e s s')
  then show ?case using app_sane_files [OF outside(3)] by (fastforce simp: operable_def sane_with_def)
qed

section \<open>A fresh network\<close>

lemma new_network_empty:
  assumes "configure os ho c (initial_engine, s) = Inr (e', s')" and "config_ok c" and "can_start os c" and "hash_order ho"
    and "\<forall>h. io_links (sys_io s) h = new_link" and "pool_ok (io_world (sys_io s)) 0"
  shows "in_use (sys_io s') = 0" "(n, a) \<in> set (app_table e') \<Longrightarrow> queue_of (as_app a) = []"
proof -
  have start: "engine_ok initial_engine" "accounted initial_engine (sys_io s)" "sane_with (\<lambda>_ _. True) (\<lambda>_ _ x. queue_of x = []) initial_engine s"
    using assms(5,6) by (simp_all add: sane_with_def links_typed_def new_link_ok engine_ok_def tables_ok_def ports_sound_def links_connect_def
        initial_engine_def accounted_def held_def links_held_def apps_held_def apps_view_def io_ok_def)
  have q: "sane_with (\<lambda>_ _. True) (\<lambda>_ _ x. queue_of x = []) e' s'" by (rule qe.configure_sane [OF assms(1) start(3)])
  then show queues: "queue_of (as_app a) = []" if "(n, a) \<in> set (app_table e')" for n a using that qe.saneD(3) by blast
  from configure_ok [OF start(1,2) assms(2-4)] assms(1) have
    e': "engine_ok e'" "accounted e' (sys_io s')" "fst ` set (link_table e') = set (cfg_links c)"
      "\<forall>spec \<in> set (cfg_links c). \<exists>h. map_of (link_table e') spec = Some h \<and> io_links (sys_io s') h = new_link"
    by (auto simp: initial_engine_def)
  have "length (contents (io_links (sys_io s') h)) = 0" if "(spec, h) \<in> set (link_table e')" for spec h
  proof -
    have "map_of (link_table e') spec = Some h" using that e'(1) by (simp add: engine_ok_def tables_ok_def)
    moreover have "spec \<in> set (cfg_links c)" using that e'(3) by force
    ultimately show ?thesis using e'(4) by force
  qed
  then have "links_held (link_table e') (sys_io s') = 0" by (auto simp: links_held_def sum_list_eq_0_iff)
  moreover have "apps_held (apps_view e') = 0" using queues by (auto simp: apps_held_def apps_view_def sum_list_eq_0_iff)
  ultimately have "held e' (sys_io s') = 0" by (simp add: held_def)
  then show "in_use (sys_io s') = 0" using e'(2) in_use_eq by (auto simp: accounted_def)
qed

lemma new_network_at_ease:
  assumes ok: "ifname_ok oi" "ifname_ok ii" "oi \<noteq> ii" and "opens os oi ii ingress egress"
    and spec: "sanitize_labels spec = Inr ()" "losses_are_numbers spec" and "hash_order ho"
    and "\<forall>h. io_links (sys_io s) h = new_link" and "pool_ok (io_world (sys_io s)) 0"
    and "\<And>t sock. socket_works os good (R t) (forwarded (R (opposite t))) sock"
  obtains c e' s' where "configure_synthetic_network oi ii ingress egress spec new_config = Inr c"
    "configure os ho c (initial_engine, s) = Inr (e', s')" "runs_spec oi ii (profiles ingress egress) spec e'"
    "\<And>net. operating os R oi ii ingress egress (e', s'\<lparr>sys_net := net\<rparr>)" "\<And>net. good net \<Longrightarrow> at_ease os good R oi ii e' (s'\<lparr>sys_net := net\<rparr>)"
proof -
  have op: "operating os R oi ii ingress egress (initial_engine, s)" by (rule operating.start [OF assms(8,9)])
  obtain c where c: "configure_synthetic_network oi ii ingress egress spec new_config = Inr c"
      "net_rep oi ii (profiles ingress egress) spec
        (network_nodes (map sf_label (sn_flows spec)), network_wires (map sf_label (sn_flows spec))) c"
      "config_ok c" "can_start os c"
    by (rule realisable [OF spec ok assms(4)])
  have start: "engine_ok initial_engine" "accounted initial_engine (sys_io s)"
    using assms(8,9) by (simp_all add: new_link_ok engine_ok_def tables_ok_def ports_sound_def links_connect_def
        initial_engine_def accounted_def held_def links_held_def apps_held_def apps_view_def io_ok_def)
  from configure_ok [OF start c(3,4) assms(7)] obtain e' s' where
    e': "configure os ho c (initial_engine, s) = Inr (e', s')" "accounted e' (sys_io s')" "fst ` set (link_table e') = set (cfg_links c)"
      "\<And>n. map_option as_conf (map_of (app_table e') n) = map_of (cfg_apps c) n" "engine_ok e'"
    by blast
  have run: "runs_spec oi ii (profiles ingress egress) spec e'"
    using configured_runs_network [OF ok c(2) e'(3,4,2)] e'(4) rep_conf [OF ok c(2)] by (simp add: runs_spec_def)
  note empty = new_network_empty [OF e'(1) c(3,4) assms(7-9)]
  have "app_room (as_app a)" if a: "(x, a) \<in> set (app_table e')" for x a
  proof -
    have "distinct (map fst (app_table e'))" using e'(5) by (simp add: engine_ok_def tables_ok_def)
    then obtain n where "as_conf a = node_conf oi ii (profiles ingress egress) spec n"
      using network_app [OF run, of x a] a by auto
    moreover have "app_matches (as_conf a) (as_app a)" using e'(2) a by (fastforce simp: accounted_def apps_view_def)
    ultimately show ?thesis
      using empty(2) [OF a]
      by (cases n; cases "as_app a") (auto simp: app_matches_def app_room_def queue_room_def queue_of_def LINK_MAX_PACKETS_def LINK_RING_SIZE_def)
  qed
  then have "at_ease os good R oi ii e' (s'\<lparr>sys_net := net\<rparr>)" if "good net" for net
    using assms(10) that empty(1) by (auto simp: at_ease_def network_room_def)
  moreover have "operating os R oi ii ingress egress (e', s'\<lparr>sys_net := net\<rparr>)" for net
    by (rule operating.outside [OF operating.configured [OF op spec assms(7) c(1) e'(1)]]) (simp_all add: files_kept_def)
  ultimately show thesis using that c(1) e'(1) run by blast
qed

section \<open>Properties\<close>

lemma demo_opens: "opens demo_os ''eth0'' ''eth1'' ''in'' ''out''"
  by (simp add: opens_def open_raw_socket_def open_flowtop_map_def cstr_def demo_os_def Let_def)

text \<open>
  C2. The program never panics on its own. In every state it gets into, the next specification is translated and applied, and a breath runs all
  callbacks of all apps to their end, without a panic or an endless loop, provided that the program is at ease: the sockets behave as documented and deliver whole
  frames (of which \<open>R\<close> may tell more), every delay queue has room for two entries for each packet of a full link, and 6142 of the 511,000 packets
  of the pool are free. Both lead to such a state again. So a panic of the engine is due to a broken socket, a runt frame, a
  delay queue that is nearly full or a pool that is nearly exhausted.
\<close>

theorem operation_never_panics:
  assumes "operating os R outer inner ingress egress (e, s)" and "ifname_ok outer" and "ifname_ok inner" and "outer \<noteq> inner"
    and "opens os outer inner ingress egress" and "reads_fit os" and "\<forall>t f. R t f \<longrightarrow> whole_frame f"
  shows "(at_ease os good R outer inner e s \<longrightarrow>
      (\<exists>e' s'. breathe os (e, s) = Inr (e', s') \<and> operating os R outer inner ingress egress (e', s'))) \<and>
    (\<forall>spec ho. sanitize_labels spec = Inr () \<longrightarrow> losses_are_numbers spec \<longrightarrow> hash_order ho \<longrightarrow>
      (\<exists>c e' s'. configure_synthetic_network outer inner ingress egress spec new_config = Inr c \<and>
        configure os ho c (e, s) = Inr (e', s') \<and> operating os R outer inner ingress egress (e', s')))"
proof (intro conjI allI impI)
  have op: "operable R outer inner (profiles ingress egress) e s" using operating_operable [OF assms] by simp
  show "\<exists>e' s'. breathe os (e, s) = Inr (e', s') \<and> operating os R outer inner ingress egress (e', s')" if "at_ease os good R outer inner e s"
    using breathe_operable [OF assms(2-4,6) op that assms(7)] operating.breathed [OF assms(1) that] by blast
  fix spec ho assume h: "sanitize_labels spec = Inr ()" "losses_are_numbers spec" "hash_order ho"
  obtain c where c: "configure_synthetic_network outer inner ingress egress spec new_config = Inr c" "config_ok c" "can_start os c"
    by (rule realisable [OF h(1,2) assms(2-5)])
  have "engine_ok e" "accounted e (sys_io s)" using op by (simp_all add: operable_def sound_def)
  from configure_ok [OF this c(2,3) h(3)] operating.configured [OF assms(1) h c(1)]
  show "\<exists>c e' s'. configure_synthetic_network outer inner ingress egress spec new_config = Inr c \<and>
      configure os ho c (e, s) = Inr (e', s') \<and> operating os R outer inner ingress egress (e', s')"
    using c(1) by blast
qed

text \<open>Frames that wait to be read on the sockets of the two-list network.\<close>

definition whole_inbox :: "u8 list list \<times> u8 list list \<Rightarrow> bool" where
  "whole_inbox net \<longleftrightarrow> (\<forall>f \<in> set (fst net). 0 < length f \<and> length f \<le> PAYLOAD_SIZE \<and> whole_frame f)"

lemma demo_socket_works: "socket_works demo_os whole_inbox whole_frame W sock"
  by (auto simp: socket_works_def demo_os_def whole_inbox_def split: list.splits)

lemma zero_frame_waits: "whole_inbox ([replicate 60 0], [])"
  by (simp add: whole_inbox_def PAYLOAD_SIZE_def long_frame_whole)

theorem operation_never_panics_witness:
  "\<exists>c e s e' s'. configure_synthetic_network ''eth0'' ''eth1'' ''in'' ''out'' usage_spec new_config = Inr c \<and>
    configure demo_os (\<lambda>_ xs. xs) c (initial_engine, demo_sys) = Inr (e, s) \<and>
    runs_spec ''eth0'' ''eth1'' (profiles ''in'' ''out'') usage_spec e \<and>
    breathe demo_os (e, s\<lparr>sys_net := ([replicate 60 0], [])\<rparr>) = Inr (e', s')"
proof -
  have h: "hash_order (\<lambda>_ xs. xs)" by (simp add: hash_order_def)
  have links: "\<forall>h. io_links (sys_io demo_sys) h = new_link" "pool_ok (io_world (sys_io demo_sys)) 0"
    by (simp_all add: demo_sys_def initial_pool_ok)
  have names: "''eth0'' \<noteq> ''eth1''" by simp
  obtain c e s where n: "configure_synthetic_network ''eth0'' ''eth1'' ''in'' ''out'' usage_spec new_config = Inr c"
    "configure demo_os (\<lambda>_ xs. xs) c (initial_engine, demo_sys) = Inr (e, s)" "runs_spec ''eth0'' ''eth1'' (profiles ''in'' ''out'') usage_spec e"
    "\<And>net. operating demo_os (\<lambda>_. whole_frame) ''eth0'' ''eth1'' ''in'' ''out'' (e, s\<lparr>sys_net := net\<rparr>)"
    "\<And>net. whole_inbox net \<Longrightarrow> at_ease demo_os whole_inbox (\<lambda>_. whole_frame) ''eth0'' ''eth1'' e (s\<lparr>sys_net := net\<rparr>)"
    by (rule new_network_at_ease [OF usage_spec_ok(2,3) names demo_opens usage_spec_ok(1,4) h links, of whole_inbox "\<lambda>_. whole_frame"])
      (use demo_socket_works that in blast)+
  from operation_never_panics [OF n(4) usage_spec_ok(2,3) names demo_opens demo_reads_fit, of whole_inbox] n(5) [OF zero_frame_waits] n(1-3)
  show ?thesis by blast
qed

end
