(* ===== verification/Isolation.thy ===== *)
theory Isolation
  imports Operating
begin

text \<open>
  What the program sends: every frame that an interface writes stems from a frame that the other interface has read.

  The operating system is instrumented for the statement: it behaves as before and writes down each frame with the socket it is written to.
\<close>

section \<open>An operating system that takes notes\<close>

type_synonym 'n noted = "'n \<times> (i32 \<times> u8 list) list"

definition logged :: "'n os \<Rightarrow> 'n noted os" where
  "logged os =
     \<lparr>os_select_read = (\<lambda>sock (net, l). let (r, err, net) = os_select_read os sock net in (r, err, net, l)),
      os_select_write = (\<lambda>sock (net, l). let (r, err, net) = os_select_write os sock net in (r, err, net, l)),
      os_read = (\<lambda>sock n (net, l). let (r, bytes, net) = os_read os sock n net in (r, bytes, net, l)),
      os_write = (\<lambda>sock f (net, l). let (r, net) = os_write os sock f net in (r, net, l @ [(sock, f)])),
      os_if_nametoindex = (\<lambda>name (net, l). os_if_nametoindex os name net),
      os_socket = (\<lambda>(net, l). let (sock, net) = os_socket os net in (sock, net, l)),
      os_bind = (\<lambda>sock index (net, l). let (r, net) = os_bind os sock index net in (r, net, l)),
      os_close = (\<lambda>sock (net, l). (os_close os sock net, l)),
      os_open = (\<lambda>path (net, l). let (fd, net) = os_open os path net in (fd, net, l)),
      os_ftruncate = (\<lambda>fd n (net, l). let (r, net) = os_ftruncate os fd n net in (r, net, l)),
      os_mmap = (\<lambda>fd n (net, l). let (ok, net) = os_mmap os fd n net in (ok, net, l))\<rparr>"

lemma logged_reads_fit: "reads_fit os \<Longrightarrow> reads_fit (logged os)"
  by (auto simp: reads_fit_def logged_def split: prod.splits)

text \<open>The same calls succeed.\<close>

lemma logged_socket:
  "open_raw_socket (logged os) name (net, l) =
   (case open_raw_socket os name net of Inl err \<Rightarrow> Inl err | Inr (sock, net') \<Rightarrow> Inr (sock, net', l))"
  by (cases "cstr name") (simp_all add: open_raw_socket_def logged_def Let_def split: prod.splits)

lemma logged_flowtop_map:
  assumes "\<And>s :: 'n sys. \<exists>s'. open_flowtop_map os path s = Inr s'"
  shows "\<exists>s'. open_flowtop_map (logged os) path s = Inr s'"
proof -
  obtain net l where "sys_net s = (net, l)" by (cases "sys_net s")
  then show ?thesis
    using assms [of "\<lparr>sys_io = sys_io s, sys_rng = sys_rng s, sys_net = net, sys_files = sys_files s, sys_clock = sys_clock s,
      MONOTONIC_NOW = None, LASTFREES = 0, SLEEP = 0\<rparr>"]
    by (cases "cstr path") (auto simp: open_flowtop_map_def logged_def Let_def split: prod.splits if_splits)
qed

lemma logged_opens:
  assumes "opens os oi ii ingress egress"
  shows "opens (logged os) oi ii ingress egress"
proof -
  have "\<exists>r. open_raw_socket (logged os) f net = Inr r" if f: "f \<in> {oi, ii}" for f net
  proof -
    obtain net0 l where net: "net = (net0, l)" by (cases net)
    obtain r where "open_raw_socket os f net0 = Inr r" using assms f unfolding opens_def by blast
    then show ?thesis by (simp add: net logged_socket case_prod_unfold)
  qed
  moreover have "\<exists>s'. open_flowtop_map (logged os) f s = Inr s'" if "f \<in> {ingress, egress}" for f s
    using logged_flowtop_map assms that unfolding opens_def by blast
  ultimately show ?thesis unfolding opens_def by blast
qed

text \<open>The notes taken since \<open>l0\<close> all satisfy \<open>V\<close>.\<close>

definition noted_since :: "(i32 \<times> u8 list) list \<Rightarrow> (i32 \<Rightarrow> u8 list \<Rightarrow> bool) \<Rightarrow> ('n \<Rightarrow> bool) \<Rightarrow> 'n noted \<Rightarrow> bool" where
  "noted_since l0 V good net \<longleftrightarrow> good (fst net) \<and> (\<exists>l. snd net = l0 @ l \<and> (\<forall>(sock, f) \<in> set l. V sock f))"

lemma logged_works:
  assumes "socket_works os good R W sock" and "\<And>f. W f \<Longrightarrow> V sock f"
  shows "socket_works (logged os) (noted_since l0 V good) R W sock"
  unfolding socket_works_def
proof (intro allI impI)
  fix net assume n: "noted_since l0 V good net"
  then obtain net0 l where net: "net = (net0, l0 @ l)" "good net0" "\<forall>(sock, f) \<in> set l. V sock f"
    by (cases net) (auto simp: noted_since_def)
  have keep: "noted_since l0 V good (n, l0 @ l)" if "good n" for n using that net(3) by (auto simp: noted_since_def)
  have wrote: "noted_since l0 V good (n, (l0 @ l) @ [(sock, f)])" if "good n" "W f" for n f
    using that net(3) assms(2) by (auto simp: noted_since_def)
  note w = assms(1) [unfolded socket_works_def, rule_format, OF net(2)]
  from w [THEN conjunct1] obtain ready err n1 where r: "os_select_read os sock net0 = (ready, err, n1)" "ready \<in> {0, 1}" "good n1"
    "ready = 1 \<longrightarrow> (\<exists>f n2. os_read os sock PAYLOAD_SIZE n1 = (int (length f), f, n2) \<and> 0 < length f \<and> length f \<le> PAYLOAD_SIZE \<and> R f \<and> good n2)"
    by blast
  from w [THEN conjunct2] obtain ready' err' n1' where r': "os_select_write os sock net0 = (ready', err', n1')" "ready' \<in> {0, 1}" "good n1'"
    "ready' = 1 \<longrightarrow> (\<forall>f. W f \<longrightarrow> (\<exists>n2. os_write os sock f n1' = (int (length f), n2) \<and> good n2))"
    by blast
  have "os_select_read (logged os) sock net = (ready, err, n1, l0 @ l)" "os_select_write (logged os) sock net = (ready', err', n1', l0 @ l)"
    using r(1) r'(1) by (simp_all add: logged_def net(1))
  moreover have "\<exists>f n2. os_read (logged os) sock PAYLOAD_SIZE (n1, l0 @ l) = (int (length f), f, n2) \<and>
      0 < length f \<and> length f \<le> PAYLOAD_SIZE \<and> R f \<and> noted_since l0 V good n2" if "ready = 1"
    using r(4) that keep by (fastforce simp: logged_def)
  moreover have "\<exists>n2. os_write (logged os) sock f (n1', l0 @ l) = (int (length f), n2) \<and> noted_since l0 V good n2" if "ready' = 1" "W f" for f
    using r'(4) that wrote by (fastforce simp: logged_def)
  ultimately show "(\<exists>ready err net'. os_select_read (logged os) sock net = (ready, err, net') \<and> ready \<in> {0, 1} \<and> noted_since l0 V good net' \<and>
        (ready = 1 \<longrightarrow> (\<exists>f net''. os_read (logged os) sock PAYLOAD_SIZE net' = (int (length f), f, net'') \<and>
          0 < length f \<and> length f \<le> PAYLOAD_SIZE \<and> R f \<and> noted_since l0 V good net''))) \<and>
      (\<exists>ready err net'. os_select_write (logged os) sock net = (ready, err, net') \<and> ready \<in> {0, 1} \<and> noted_since l0 V good net' \<and>
        (ready = 1 \<longrightarrow> (\<forall>f. W f \<longrightarrow> (\<exists>net''. os_write (logged os) sock f net' = (int (length f), net'') \<and> noted_since l0 V good net''))))"
    using r(2,3) r'(2,3) keep by blast
qed

section \<open>Properties\<close>

text \<open>
  C3. Traffic isolation and integrity. In every state that the program gets into, a breath writes to the socket of an interface only frames
  that were read on the other interface: each is a segment that the TSD app makes of such a frame, or the frame itself, with checksums
  filled in. Nothing is sent back to where it came from, invented, or changed otherwise, whatever delays, losses, reordering and flow rules are
  configured. \<open>R t\<close> is any property of the frames that the interface of the side \<open>t\<close> reads. As for every breath of \<open>operating\<close>, the sockets behave as documented and
  deliver whole frames, the delay queues have room, and 6142 packets of the pool are free.
\<close>

theorem interfaces_isolated:
  assumes "operating (logged os) R outer inner ingress egress (e, s)" and "ifname_ok outer" and "ifname_ok inner" and "outer \<noteq> inner"
    and "opens os outer inner ingress egress" and "reads_fit os" and "\<forall>t f. R t f \<longrightarrow> whole_frame f"
    and "good (fst (sys_net s))" and "network_room e" and "in_use (sys_io s) + 6142 \<le> 511000"
    and "\<forall>t sock. interface_socket outer inner e t = Some sock \<longrightarrow> socket_works os good (R t) (forwarded (R (opposite t))) sock"
  shows "\<exists>e' s' written. breathe (logged os) (e, s) = Inr (e', s') \<and> snd (sys_net s') = snd (sys_net s) @ written \<and>
    (\<forall>(sock, f) \<in> set written. \<exists>t. interface_socket outer inner e t = Some sock \<and> forwarded (R (opposite t)) f)"
proof -
  let ?V = "\<lambda>sock f. \<exists>t. interface_socket outer inner e t = Some sock \<and> forwarded (R (opposite t)) f"
  let ?good = "noted_since (snd (sys_net s)) ?V good"
  have "operable R outer inner (profiles ingress egress) e s"
    using operating_operable [OF assms(1-4) logged_opens [OF assms(5)] logged_reads_fit [OF assms(6)] assms(7)] by simp
  moreover have "at_ease (logged os) ?good R outer inner e s"
    unfolding at_ease_def
  proof (intro conjI allI impI assms(9,10))
    fix t sock assume sock: "interface_socket outer inner e t = Some sock"
    with assms(11) have "socket_works os good (R t) (forwarded (R (opposite t))) sock" by blast
    then show "socket_works (logged os) ?good (R t) (forwarded (R (opposite t))) sock" by (rule logged_works) (use sock in blast)
  qed (use assms(8) in \<open>simp add: noted_since_def\<close>)
  ultimately obtain e' s' where b: "breathe (logged os) (e, s) = Inr (e', s')" "?good (sys_net s')"
    using breathe_operable [OF assms(2-4) logged_reads_fit [OF assms(6)] _ _ assms(7)] by blast
  then show ?thesis by (auto simp: noted_since_def)
qed

text \<open>A network that has read a frame of zeros, which is not IPv4 and passes unchanged.\<close>

definition zero_frame :: "u8 list" where
  "zero_frame = replicate 60 0"

lemma forwarded_zero:
  assumes "forwarded (\<lambda>f. f = zero_frame) f"
  shows "f = zero_frame"
proof -
  have z: "ethertype (eth_of zero_frame) = 0"
    by (simp add: zero_frame_def header_sizes header_ref_def header_slice_def ethernet_of_bytes_def ethertype_def rd16_def ntohs_def swap_bytes16_def
        numeral_eq_Suc)
  have plain: "ethertype (eth_of (p_data p)) = 0" if "packet_ok p" "frame p = zero_frame" for p
  proof -
    have "length (frame p) = unat (p_length p)" using length_le_data [OF that(1)] by (simp add: frame_def)
    then have "unat (p_length p) = 60" using that(2) by (simp add: zero_frame_def)
    then have "eth_of (frame p) = eth_of (p_data p)" by (simp add: frame_def header_ref_take header_sizes)
    then show ?thesis using z that(2) by simp
  qed
  obtain p q where pq: "packet_ok p" "frame p = zero_frame" "packet_ok q" "frame q \<in> set (tsd_frames 1400 p)" "f = frame (filled q)"
    using assms by (auto simp: forwarded_def segmented_def)
  have "frame q = zero_frame" using plain [OF pq(1,2)] pq(2,4) by (auto simp: tsd_frames_def segmentable_def plain_ipv4_def TYPE_IPV4_def split: if_splits)
  then show ?thesis using plain [OF pq(3)] pq(5) by (simp add: filled_def plain_ipv4_def TYPE_IPV4_def)
qed

definition zero_inbox :: "u8 list list \<times> u8 list list \<Rightarrow> bool" where
  "zero_inbox net \<longleftrightarrow> set (fst net) \<subseteq> {zero_frame}"

lemma zero_socket_works: "socket_works demo_os zero_inbox (\<lambda>f. f = zero_frame) W sock"
  by (auto simp: socket_works_def demo_os_def zero_inbox_def zero_frame_def PAYLOAD_SIZE_def split: list.splits)

definition logged_sys :: "(u8 list list \<times> u8 list list) noted sys" where
  "logged_sys = \<lparr>sys_io = \<lparr>io_links = \<lambda>_. new_link, io_world = initial_world\<rparr>, sys_rng = \<lambda>_. 0, sys_net = (([], []), []),
     sys_files = \<lambda>_. [], sys_clock = \<lambda>i. i, MONOTONIC_NOW = None, LASTFREES = 0, SLEEP = 0\<rparr>"

theorem interfaces_isolated_witness:
  "\<exists>c e s e' s'. configure_synthetic_network ''eth0'' ''eth1'' ''in'' ''out'' usage_spec new_config = Inr c \<and>
    configure (logged demo_os) (\<lambda>_ xs. xs) c (initial_engine, logged_sys) = Inr (e, s) \<and>
    breathe (logged demo_os) (e, s\<lparr>sys_net := (([zero_frame], []), [])\<rparr>) = Inr (e', s') \<and>
    (\<forall>(sock, f) \<in> set (snd (sys_net s')). f = zero_frame)"
proof -
  let ?R = "\<lambda>t :: side. \<lambda>f. f = zero_frame"
  let ?good = "noted_since [] (\<lambda>_ _. True) zero_inbox"
  have h: "hash_order (\<lambda>_ xs. xs)" by (simp add: hash_order_def)
  have links: "\<forall>h. io_links (sys_io logged_sys) h = new_link" "pool_ok (io_world (sys_io logged_sys)) 0"
    by (simp_all add: logged_sys_def initial_pool_ok)
  have names: "''eth0'' \<noteq> ''eth1''" by simp
  have works: "socket_works (logged demo_os) ?good (?R t) (forwarded (?R (opposite t))) sock" for t sock
    by (rule logged_works [OF zero_socket_works]) simp
  obtain c e s where n: "configure_synthetic_network ''eth0'' ''eth1'' ''in'' ''out'' usage_spec new_config = Inr c"
    "configure (logged demo_os) (\<lambda>_ xs. xs) c (initial_engine, logged_sys) = Inr (e, s)"
    "\<And>net. operating (logged demo_os) ?R ''eth0'' ''eth1'' ''in'' ''out'' (e, s\<lparr>sys_net := net\<rparr>)"
    "\<And>net. ?good net \<Longrightarrow> at_ease (logged demo_os) ?good ?R ''eth0'' ''eth1'' e (s\<lparr>sys_net := net\<rparr>)"
    by (rule new_network_at_ease [OF usage_spec_ok(2,3) names logged_opens [OF demo_opens] usage_spec_ok(1,4) h links, of ?good ?R])
      (use works that in blast)+
  let ?s = "s\<lparr>sys_net := (([zero_frame], []), [])\<rparr>"
  have ease: "network_room e" "in_use (sys_io ?s) + 6142 \<le> 511000"
    using n(4) [of "(([zero_frame], []), [])"] by (auto simp: at_ease_def noted_since_def zero_inbox_def)
  have whole: "\<forall>t f. ?R t f \<longrightarrow> whole_frame f" by (simp add: zero_frame_def long_frame_whole)
  from interfaces_isolated [OF n(3) usage_spec_ok(2,3) names demo_opens demo_reads_fit whole _ ease, of zero_inbox]
  obtain e' s' where "breathe (logged demo_os) (e, ?s) = Inr (e', s')" "\<forall>(sock, f) \<in> set (snd (sys_net s')). forwarded (\<lambda>f. f = zero_frame) f"
    using zero_socket_works by (fastforce simp: zero_inbox_def)
  then show ?thesis using n(1,2) forwarded_zero by fastforce
qed

end
