(* ===== verification/Pool_Bound.thy ===== *)
theory Pool_Bound
  imports Operating
begin

text \<open>
  How many packets a synthetic network can hold: a link full of packets for every wire, and as many as the capacity says in every delay queue. This
  decides whether the pool of \<^verbatim>\<open>rush/src/packet.rs\<close> suffices. Nothing is assumed of the room that is left in queues and pool: a callback that returns has kept
  its queue within its capacity, because \<^verbatim>\<open>DelayQueue\<close> refuses what does not fit.
\<close>

declare length_contents [simp del] take_append [simp del]

section \<open>Sums over a table\<close>

lemma sum_list_keys:
  assumes "distinct (map fst al)" and "finite D" and "\<And>n v. (n, v) \<in> set al \<Longrightarrow> f v \<le> (if n \<in> D then K else (0 :: nat))"
  shows "sum_list (map (\<lambda>(n, v). f v) al) \<le> K * card D"
proof -
  have "sum_list (map (\<lambda>(n, v). f v) al) \<le> sum_list (map (\<lambda>(n, v). if n \<in> D then K else 0) al)"
    by (rule sum_list_mono) (use assms(3) in auto)
  also have "\<dots> = K * length (filter (\<lambda>n. n \<in> D) (map fst al))"
    by (induction al) auto
  also have "length (filter (\<lambda>n. n \<in> D) (map fst al)) = card (set (filter (\<lambda>n. n \<in> D) (map fst al)))"
    by (rule distinct_card [symmetric]) (simp only: distinct_filter assms(1))
  also have "\<dots> \<le> card D" by (rule card_mono [OF assms(2)]) auto
  finally show ?thesis by simp
qed

section \<open>The size of a network\<close>

definition delay_node :: "node \<Rightarrow> bool" where
  "delay_node n = (case n of Latency_node _ \<Rightarrow> True | Jitter_node _ \<Rightarrow> True | _ \<Rightarrow> False)"

lemma network_wires_length: "length (network_wires labels) = 20 + 10 * length labels"
proof -
  have "length (concat (map (\<lambda>l. branch_wires d (Some l)) ls)) = 5 * length ls" for d ls
    by (induction ls) (simp_all add: branch_wires_def Let_def)
  then show ?thesis by (simp add: network_wires_def path_wires_def branch_wires_def [of _ None] Let_def)
qed

lemma delay_nodes_length: "length (filter delay_node (network_nodes labels)) = 4 * (length labels + 1)"
proof -
  have "length (filter delay_node (concat (map (\<lambda>l. branch_nodes (Branch d (Some l))) ls))) = 2 * length ls" for d ls
    by (induction ls) (simp_all add: branch_nodes_def delay_node_def)
  then show ?thesis by (simp add: network_nodes_def path_nodes_def branch_nodes_def [of "Branch _ None"] delay_node_def Let_def)
qed

section \<open>Queues within their capacity\<close>

definition fits :: "delay_queue \<Rightarrow> bool" where
  "fits q \<longleftrightarrow> length (dq_packets q) \<le> dq_capacity q"

definition app_within :: "app \<Rightarrow> bool" where
  "app_within x = (case x of LatencyApp _ q \<Rightarrow> fits q | JitterApp _ _ _ q \<Rightarrow> fits q | _ \<Rightarrow> True)"

named_theorems queue_within \<open>operations on a delay queue that return keep it within its capacity\<close>

lemma enqueue_delay_within [queue_within]: "enqueue_delay t q = Inr q' \<Longrightarrow> fits q'"
  by (auto simp: enqueue_delay_def fits_def dq_full_def split: if_splits)

lemma enqueue_packet_within [queue_within]: "enqueue_packet p q = Inr q' \<Longrightarrow> fits q'"
  by (auto simp: enqueue_packet_def fits_def dq_full_def split: if_splits)

lemma dequeue_packet_within [queue_within]: "dequeue_packet q = Inr (p, q') \<Longrightarrow> fits q \<Longrightarrow> fits q'"
  by (auto simp: dequeue_packet_def fits_def split: list.splits delayed_packet.splits)

lemma pull_cond_within [queue_within]: "pull_cond tm q = Inr (go, q') \<Longrightarrow> fits q \<Longrightarrow> fits q'"
  by (auto simp: pull_cond_def need_tx_def peek_def fits_def bindR_eq_Inr split: if_splits list.splits delayed_packet.splits)

lemma pull_body_within:
  assumes "pull_body tm (go, q, out, w) = Inr (go', q', out', w')" and "fits q"
  shows "fits q'"
proof -
  obtain p q1 where "dequeue_packet q = Inr (p, q1)" "pull_cond tm q1 = Inr (go', q')"
    using assms(1) by (auto simp: pull_body_def bindR_eq_Inr)
  with assms(2) show ?thesis by (blast intro: pull_cond_within dequeue_packet_within)
qed

lemma delay_pull_within:
  assumes "delay_pull tm q a s = Inr (q', s')" and "fits q"
  shows "fits q'"
proof -
  obtain j go q1 go' out w where r: "pull_cond tm q = Inr (go, q1)"
    "loopR fst (pull_body tm) (go, q1, io_links s j, io_world s) = Inr (go', q', out, w)"
    using assms(1) by (auto simp: delay_pull_def pull_loop_def unwrap_eq_Inr bindR_eq_Inr)
  let ?I = "\<lambda>(go, q, out, w). fits q"
  have "?I (go', q', out, w) \<and> \<not> fst (go', q', out, w)"
  proof (rule loopR_inv [OF r(2)])
    fix x y assume "?I x" "pull_body tm x = Inr y"
    then show "?I y" using pull_body_within by (cases x; cases y) auto
  qed (use pull_cond_within [OF r(1) assms(2)] in simp)
  then show ?thesis by simp
qed

lemma latency_push_within:
  assumes "latency_push ms tm q a s = Inr (q', s')" and "fits q"
  shows "fits q'"
proof -
  obtain inp q1 inp' where r: "fits q1" "latency_enqueue inp q1 = Inr (inp', q')"
    using assms by (auto simp: latency_push_def bindR_eq_Inr Let_def split: if_splits dest: queue_within)
  let ?I = "\<lambda>(inp, q). fits q"
  have "?I (inp', q') \<and> \<not> (\<lambda>(inp, q). \<not> empty inp \<and> \<not> dq_full q) (inp', q')"
    by (rule loopR_inv [OF r(2) [unfolded latency_enqueue_def]]) (use r(1) in \<open>auto simp: bindR_eq_Inr dest: queue_within\<close>)
  then show ?thesis by simp
qed

lemma jitter_body_within:
  assumes "jitter_body us st re tm (inp, out, w, q, rng) = Inr (inp', out', w', q', rng')" and "fits q"
  shows "fits q'"
  using assms
  by (auto simp: jitter_body_def Let_def bindR_eq_Inr case_prod_unfold split: if_splits dest: queue_within)

lemma jitter_push_within:
  assumes "jitter_push us st re tm q rng a s = Inr (q', rng', s')" and "fits q"
  shows "fits q'"
proof -
  obtain i j inp out w where r: "loopR (\<lambda>(inp, out, w, q, rng). \<not> empty inp \<and> \<not> dq_full q) (jitter_body us st re tm)
      (io_links s i, io_links s j, io_world s, q, rng) = Inr (inp, out, w, q', rng')"
    using assms(1) by (auto simp: jitter_push_def bindR_eq_Inr)
  let ?I = "\<lambda>(inp, out, w, q, rng). fits q"
  have "?I (inp, out, w, q', rng') \<and> \<not> (\<lambda>(inp, out, w, q, rng). \<not> empty inp \<and> \<not> dq_full q) (inp, out, w, q', rng')"
  proof (rule loopR_inv [OF r])
    fix x y assume "?I x" "jitter_body us st re tm x = Inr y"
    then show "?I y" using jitter_body_within by (cases x; cases y) auto
  qed (use assms(2) in simp)
  then show ?thesis by simp
qed

text \<open>The contract of a callback: a queue that is within its capacity stays so.\<close>

locale queue_keeping =
  fixes cb :: "'n os \<Rightarrow> app \<Rightarrow> ports \<Rightarrow> 'n sys \<Rightarrow> (app \<times> 'n sys) res"
  assumes cb_within: "cb os x a s = Inr (x', s') \<Longrightarrow> app_within x \<Longrightarrow> app_within x'"
begin

lemma callback_within:
  assumes "callback (cb os) n (e, s) = Inr (e', s')" and "\<forall>(n, a) \<in> set (app_table e). app_within (as_app a) \<and> keyed (as_ports a)"
  shows "\<forall>(n, a) \<in> set (app_table e'). app_within (as_app a) \<and> keyed (as_ports a)"
proof -
  obtain a x where a: "map_of (app_table e) n = Some a" "cb os (as_app a) (as_ports a) s = Inr (x, s')"
    "app_table e' = AList.update n (a\<lparr>as_app := x\<rparr>) (app_table e)"
    using assms(1) by (auto simp: callback_def bindR_eq_Inr unwrap_eq_Inr)
  have "y \<in> set (AList.update k v al) \<Longrightarrow> y = (k, v) \<or> y \<in> set al" for y :: "string \<times> app_state" and k v al
    by (induction al) (auto split: if_splits)
  moreover have "app_within x" "keyed (as_ports a)" using cb_within [OF a(2)] assms(2) map_of_SomeD [OF a(1)] by auto
  ultimately show ?thesis using assms(2) unfolding a(3) by fastforce
qed

lemma callbacks_within:
  assumes "foldR (callback (cb os)) ns (e, s) = Inr (e', s')" and "\<forall>(n, a) \<in> set (app_table e). app_within (as_app a) \<and> keyed (as_ports a)"
  shows "\<forall>(n, a) \<in> set (app_table e'). app_within (as_app a) \<and> keyed (as_ports a)"
proof -
  let ?P = "\<lambda>(e, s). \<forall>(n, a) \<in> set (app_table e). app_within (as_app a) \<and> keyed (as_ports a)"
  have "?P (e', s')"
  proof (rule foldR_inv [OF assms(1), where P = ?P])
    fix n x y assume "?P x" "callback (cb os) n x = Inr y"
    then show "?P y" using callback_within [of os n] by (cases x; cases y) simp
  qed (use assms(2) in simp)
  then show ?thesis by simp
qed

end

interpretation pullw: queue_keeping app_pull
proof unfold_locales
  fix os :: "'n os" and x a s x' and s' :: "'n sys"
  assume "app_pull os x a s = Inr (x', s')" "app_within x"
  then show "app_within x'"
    by (cases x) (auto simp: app_pull_def app_within_def bindR_eq_Inr Let_def case_prod_unfold dest: delay_pull_within)
qed

interpretation pushw: queue_keeping app_push
proof unfold_locales
  fix os :: "'n os" and x a s x' and s' :: "'n sys"
  assume "app_push os x a s = Inr (x', s')" "app_within x"
  then show "app_within x'"
    by (cases x) (auto simp: app_push_def app_within_def bindR_eq_Inr Let_def case_prod_unfold dest: latency_push_within jitter_push_within)
qed

interpretation wi: app_property "\<lambda>_ _. True" "\<lambda>_ _ x. app_within x"
  by unfold_locales (auto simp: app_new_def bindR_eq_Inr dq_new_def app_within_def fits_def split: conf.splits)

lemma breathe_within:
  assumes "breathe os (e, s) = Inr (e', s')" and "\<forall>(n, a) \<in> set (app_table e). app_within (as_app a) \<and> keyed (as_ports a)"
  shows "\<forall>(n, a) \<in> set (app_table e'). app_within (as_app a) \<and> keyed (as_ports a)"
proof -
  obtain t s1 where i: "instant_now s = (t, s1)" by (cases "instant_now s")
  obtain e2 s2 s3 where f: "foldR (callback (app_pull os)) (inhale e) (e, s1\<lparr>MONOTONIC_NOW := Some t\<rparr>) = Inr (e2, s2)"
    "foldR (callback (app_push os)) (exhale e2) (e2, s2) = Inr (e', s3)"
    using assms(1) by (auto simp: breathe_def i Let_def bindR_eq_Inr)
  show ?thesis by (rule pushw.callbacks_within [OF f(2) pullw.callbacks_within [OF f(1) assms(2)]])
qed

text \<open>In every reachable state, whatever was configured and however full the queues are.\<close>

lemma reachable_within:
  assumes "reachable os st" and "reads_fit os"
  shows "sane_with (\<lambda>_ _. True) (\<lambda>_ _ x. app_within x) (fst st) (snd st)"
  using assms(1)
proof (induction rule: reachable.induct)
  case (start s)
  then show ?case by (simp add: sane_with_def links_typed_def initial_engine_def io_ok_def)
next
  case (configured e s c ho st)
  then show ?case using wi.configure_sane [of os ho c e s] by (cases st) simp
next
  case (breathed e s st)
  obtain e' s' where st: "st = (e', s')" by (cases st)
  have "sound e' (sys_io s')" using reachable_sound [OF reachable.breathed [OF breathed.hyps] assms(2)] by (simp add: st)
  then have "\<forall>h. link_ok (io_links (sys_io s') h)" by (auto simp: sound_def accounted_def io_ok_def)
  moreover have "\<forall>(n, a) \<in> set (app_table e'). app_within (as_app a) \<and> keyed (as_ports a)"
    using breathe_within [OF breathed.hyps(2) [unfolded st]] breathed.IH by (simp add: sane_with_def)
  ultimately show ?case by (auto simp: st sane_with_def links_typed_def link_type_def)
next
  case (paced e s s' pause)
  then show ?case by (simp add: sane_with_def links_typed_def pace_breathing_io)
next
  case (outside e s s')
  then show ?case by (simp add: sane_with_def links_typed_def)
qed

section \<open>A specification in effect\<close>

text \<open>
  The states of a program that runs the network of a specification: the specification was applied, in any state, and since then the engine has only breathed
  and paused. Whatever breath returned is one of them, however full queues and pool were.
\<close>

inductive running :: "'n os \<Rightarrow> string \<Rightarrow> string \<Rightarrow> string \<Rightarrow> string \<Rightarrow> synthetic_network \<Rightarrow> engine \<times> 'n sys \<Rightarrow> bool"
  for os oi ii ingress egress spec where
  applied: "reachable os (e, s) \<Longrightarrow> hash_order ho \<Longrightarrow> configure_synthetic_network oi ii ingress egress spec new_config = Inr c \<Longrightarrow>
    configure os ho c (e, s) = Inr st \<Longrightarrow> running os oi ii ingress egress spec st"
| breathed: "running os oi ii ingress egress spec (e, s) \<Longrightarrow> breathe os (e, s) = Inr st \<Longrightarrow> running os oi ii ingress egress spec st"
| outside: "running os oi ii ingress egress spec (e, s) \<Longrightarrow> sys_io s' = sys_io s \<Longrightarrow> running os oi ii ingress egress spec (e, s')"

lemma running_network:
  assumes "running os oi ii ingress egress spec st" and ok: "ifname_ok oi" "ifname_ok ii" "oi \<noteq> ii"
    and "opens os oi ii ingress egress" and "sanitize_labels spec = Inr ()" and "losses_are_numbers spec" and "reads_fit os"
  shows "reachable os st \<and> runs_spec oi ii (profiles ingress egress) spec (fst st)"
  using assms(1)
proof (induction rule: running.induct)
  case (applied e s ho c st)
  obtain c' where c': "configure_synthetic_network oi ii ingress egress spec new_config = Inr c'"
      "net_rep oi ii (profiles ingress egress) spec
        (network_nodes (map sf_label (sn_flows spec)), network_wires (map sf_label (sn_flows spec))) c'"
      "config_ok c'" "can_start os c'"
    by (rule realisable [OF assms(6,7) ok assms(5)])
  have c: "c' = c" using c'(1) applied.hyps(3) by simp
  obtain e' s' where st: "st = (e', s')" by (cases st)
  have es: "engine_ok e" "accounted e (sys_io s)" using reachable_sound [OF applied.hyps(1) assms(8)] by (simp_all add: sound_def)
  from configure_ok [OF es c'(3,4) applied.hyps(2)] applied.hyps(4) have
    e': "accounted e' (sys_io s')" "fst ` set (link_table e') = set (cfg_links c)"
      "\<And>n. map_option as_conf (map_of (app_table e') n) = map_of (cfg_apps c) n"
    by (auto simp: c st)
  have "runs_spec oi ii (profiles ingress egress) spec e'"
    using configured_runs_network [OF ok c'(2) [unfolded c] e'(2,3,1)] e'(3) rep_conf [OF ok c'(2)] by (simp add: runs_spec_def c)
  with reachable.configured [OF applied.hyps(1) c'(3,4) applied.hyps(2)] applied.hyps(4) show ?case by (simp add: c st)
next
  case (breathed e s st)
  obtain e' s' where st: "st = (e', s')" by (cases st)
  have r: "reachable os st" using reachable.breathed breathed by blast
  have "sound e (sys_io s)" using reachable_sound [OF conjunct1 [OF breathed.IH] assms(8)] by simp
  from breathe_keeps [OF breathed.hyps(2) [unfolded st] assms(8) this] breathed.IH runs_spec_same r show ?case by (fastforce simp: st)
next
  case (outside e s s')
  then show ?case using reachable.outside by fastforce
qed

section \<open>What it can hold\<close>

lemma links_hold_at_most:
  assumes "runs_network oi ii labels e" and "engine_ok e" and "\<forall>h. link_ok (io_links i h)"
  shows "links_held (link_table e) i \<le> LINK_MAX_PACKETS * (20 + 10 * length labels)"
proof -
  let ?D = "wire_text oi ii ` set (network_wires labels)"
  have keys: "distinct (map fst (link_table e))" "fst ` set (link_table e) = ?D"
    using assms(1,2) by (simp_all add: engine_ok_def tables_ok_def runs_network_def)
  have "n \<in> ?D" if "(n, h) \<in> set (link_table e)" for n h using that keys(2) by force
  then have "links_held (link_table e) i \<le> LINK_MAX_PACKETS * card ?D"
    unfolding links_held_def by (intro sum_list_keys [OF keys(1)]) (use assms(3) contents_bound in simp_all)
  also have "card ?D \<le> 20 + 10 * length labels"
    using card_image_le [of "set (network_wires labels)" "wire_text oi ii"] card_length [of "network_wires labels"] network_wires_length [of labels]
    by simp
  finally show ?thesis by simp
qed

lemma queue_holds_at_most: "fits q \<Longrightarrow> held_in_queue (dq_packets q) \<le> dq_capacity q"
proof -
  have "length (packets_in ds) \<le> length ds" for ds by (induction ds rule: packets_in.induct) simp_all
  then show "fits q \<Longrightarrow> held_in_queue (dq_packets q) \<le> dq_capacity q"
    unfolding held_packets_in fits_def using le_trans by blast
qed

lemma apps_hold_at_most:
  assumes "runs_spec oi ii profile spec e" and "engine_ok e" and "accounted e i" and "sane_with (\<lambda>_ _. True) (\<lambda>_ _ x. app_within x) e s"
  shows "apps_held (apps_view e) \<le> 400000 * (length (sn_flows spec) + 1)"
proof -
  let ?labels = "map sf_label (sn_flows spec)"
  let ?D = "node_name oi ii ` set (filter delay_node (network_nodes ?labels))"
  have keys: "distinct (map fst (app_table e))" using assms(2) by (simp add: engine_ok_def tables_ok_def)
  have "app_held (as_app a) \<le> (if x \<in> ?D then 100000 else 0)" if a: "(x, a) \<in> set (app_table e)" for x a
  proof -
    have m: "map_of (app_table e) x = Some a" using keys a by simp
    obtain n where n: "n \<in> set (network_nodes ?labels)" "x = node_name oi ii n" "as_conf a = node_conf oi ii profile spec n"
      by (rule network_app [OF assms(1) m])
    have matches: "app_matches (as_conf a) (as_app a)" using assms(3) a by (fastforce simp: accounted_def apps_view_def)
    have fit: "app_within (as_app a)" using wi.saneD(3) [OF assms(4) a] by simp
    show ?thesis
    proof (cases "delay_node n")
      case True
      then have "x \<in> ?D" using n(1,2) by auto
      moreover have "app_held (as_app a) \<le> 100000"
        using True matches fit queue_holds_at_most
        by (cases n; cases "as_app a") (fastforce simp: n(3) delay_node_def app_matches_def app_within_def queue_of_def)+
      ultimately show ?thesis by simp
    next
      case False
      then show ?thesis using matches by (cases n; cases "as_app a") (auto simp: n(3) delay_node_def app_matches_def queue_of_def)
    qed
  qed
  then have "sum_list (map (\<lambda>(x, a). app_held (as_app a)) (app_table e)) \<le> 100000 * card ?D"
    by (intro sum_list_keys [OF keys]) simp_all
  moreover have "apps_held (apps_view e) = sum_list (map (\<lambda>(x, a). app_held (as_app a)) (app_table e))"
    by (simp add: apps_held_def apps_view_def comp_def case_prod_unfold)
  moreover have "card ?D \<le> 4 * (length (sn_flows spec) + 1)"
    using card_image_le [of "set (filter delay_node (network_nodes ?labels))" "node_name oi ii"]
      card_length [of "filter delay_node (network_nodes ?labels)"] delay_nodes_length [of ?labels]
    by (metis (no_types, lifting) List.finite_set le_trans length_map)
  ultimately show ?thesis by linarith
qed

section \<open>Properties\<close>

text \<open>
  C6. The packets that the program holds are bounded by the network it runs: a full link for each of its \<open>20 + 10 k\<close> links and
  100,000 entries in each of its \<open>4 k + 4\<close> delay queues, for a specification with \<open>k\<close> flows. This holds in every state that breaths that return lead to after
  the specification was applied, however full queues and pool were: no room is assumed. Without flows the bound leaves more than the 6142 packets
  that a breath may take, so the pool is never exhausted. With a single flow the bound is beyond the 511,000 packets of
  the pool.
\<close>

theorem packets_bounded:
  assumes "running os outer inner ingress egress spec (e, s)" and "ifname_ok outer" and "ifname_ok inner" and "outer \<noteq> inner"
    and "opens os outer inner ingress egress" and "sanitize_labels spec = Inr ()" and "losses_are_numbers spec" and "reads_fit os"
  shows "in_use (sys_io s) \<le> 1023 * (20 + 10 * length (sn_flows spec)) + 400000 * (length (sn_flows spec) + 1) \<and>
    (sn_flows spec = [] \<longrightarrow> in_use (sys_io s) + 6142 \<le> 511000)"
proof -
  have r: "reachable os (e, s)" "runs_spec outer inner (profiles ingress egress) spec e" using running_network [OF assms] by simp_all
  have s: "engine_ok e" "accounted e (sys_io s)" "sane_with (\<lambda>_ _. True) (\<lambda>_ _ x. app_within x) e s"
    using reachable_sound [OF r(1) assms(8)] reachable_within [OF r(1) assms(8)] by (simp_all add: sound_def)
  have "in_use (sys_io s) = held e (sys_io s)" using s(2) in_use_eq by (auto simp: accounted_def)
  moreover have "links_held (link_table e) (sys_io s) \<le> 1023 * (20 + 10 * length (sn_flows spec))"
    using links_hold_at_most [OF _ s(1) wi.saneD(1) [OF s(3)], of outer inner "map sf_label (sn_flows spec)"] r(2)
    by (simp add: runs_spec_def LINK_MAX_PACKETS_def LINK_RING_SIZE_def)
  moreover note apps_hold_at_most [OF r(2) s]
  ultimately show ?thesis by (auto simp: held_def)
qed

text \<open>The network of the example without its flow, after a breath with a frame waiting.\<close>

theorem packets_bounded_witness:
  "\<exists>c e s e' s'. configure_synthetic_network ''eth0'' ''eth1'' ''in'' ''out'' (usage_spec\<lparr>sn_flows := []\<rparr>) new_config = Inr c \<and>
    configure demo_os (\<lambda>_ xs. xs) c (initial_engine, demo_sys) = Inr (e, s) \<and>
    breathe demo_os (e, s\<lparr>sys_net := ([replicate 60 0], [])\<rparr>) = Inr (e', s') \<and> in_use (sys_io s') + 6142 \<le> 511000"
proof -
  let ?spec = "usage_spec\<lparr>sn_flows := []\<rparr>"
  have spec: "sanitize_labels ?spec = Inr ()" "losses_are_numbers ?spec"
    using usage_spec_ok(4) by (auto simp: sanitize_labels_def losses_are_numbers_def)
  have links: "\<forall>h. io_links (sys_io demo_sys) h = new_link" "pool_ok (io_world (sys_io demo_sys)) 0"
    by (simp_all add: demo_sys_def initial_pool_ok)
  have names: "''eth0'' \<noteq> ''eth1''" by simp
  obtain c e s where n: "configure_synthetic_network ''eth0'' ''eth1'' ''in'' ''out'' ?spec new_config = Inr c"
    "configure demo_os (\<lambda>_ xs. xs) c (initial_engine, demo_sys) = Inr (e, s)"
    "\<And>net. operating demo_os (\<lambda>_. whole_frame) ''eth0'' ''eth1'' ''in'' ''out'' (e, s\<lparr>sys_net := net\<rparr>)"
    "\<And>net. whole_inbox net \<Longrightarrow> at_ease demo_os whole_inbox (\<lambda>_. whole_frame) ''eth0'' ''eth1'' e (s\<lparr>sys_net := net\<rparr>)"
    by (rule new_network_at_ease [OF usage_spec_ok(2,3) names demo_opens spec demo_start(5) links, of whole_inbox "\<lambda>_. whole_frame"])
      (use demo_socket_works that in blast)+
  let ?s = "s\<lparr>sys_net := ([replicate 60 0], [])\<rparr>"
  have "operable (\<lambda>_. whole_frame) ''eth0'' ''eth1'' (profiles ''in'' ''out'') e ?s"
    using operating_operable [OF n(3) usage_spec_ok(2,3) names demo_opens demo_reads_fit] by simp
  from breathe_operable [OF usage_spec_ok(2,3) names demo_reads_fit this n(4) [OF zero_frame_waits]] obtain e' s' where
    b: "breathe demo_os (e, ?s) = Inr (e', s')" by blast
  have "reachable demo_os (initial_engine, demo_sys)" by (rule reachable.start) (simp add: io_ok_def links new_link_ok)
  then have "running demo_os ''eth0'' ''eth1'' ''in'' ''out'' ?spec (e, s)" by (rule running.applied [OF _ demo_start(5) n(1,2)])
  then have "running demo_os ''eth0'' ''eth1'' ''in'' ''out'' ?spec (e, ?s)" by (rule running.outside) simp
  from packets_bounded [OF running.breathed [OF this b] usage_spec_ok(2,3) names demo_opens spec demo_reads_fit] n(1,2) b
  show ?thesis by auto
qed

end
