(* ===== verification/Pacing.thy ===== *)
theory Pacing
  imports Reachable
begin

text \<open>
  The regulation of the breathe loop in \<^verbatim>\<open>rush/src/engine.rs\<close>: \<^verbatim>\<open>pace_breathing\<close> sleeps longer and longer while no
  packet is freed, up to 100 microseconds, and backs off fast when traffic returns.
\<close>

section \<open>Pauses\<close>

lemma MAXSLEEP_unat: "unat MAXSLEEP = 100"
  by (simp add: MAXSLEEP_def)

lemma unat_sleep_step:
  assumes "SLEEP s \<le> MAXSLEEP"
  shows "unat (min (SLEEP s + 1) MAXSLEEP) = min (unat (SLEEP s) + 1) 100"
proof -
  have "unat (SLEEP s) \<le> 100" using assms by (simp add: word_le_nat_alt MAXSLEEP_unat)
  then have "unat (SLEEP s + 1) = unat (SLEEP s) + 1" by (simp add: unat_word_ariths)
  then show ?thesis by (auto simp: min_def word_le_nat_alt MAXSLEEP_unat)
qed

lemma pace_idle:
  assumes "LASTFREES s = frees (STATS (io_world (sys_io s)))" and "SLEEP s \<le> MAXSLEEP" and "pace_breathing s = (s', d)"
  shows "d = Some (SLEEP s')" "SLEEP s' \<le> MAXSLEEP" "unat (SLEEP s') = min (unat (SLEEP s) + 1) 100"
  using assms unat_sleep_step [OF assms(2)] by (auto simp: pace_breathing_def Let_def)

lemma pace_busy:
  assumes "LASTFREES s \<noteq> frees (STATS (io_world (sys_io s)))" and "SLEEP s \<le> MAXSLEEP" and "pace_breathing s = (s', d)"
  shows "d = None" "SLEEP s' \<le> MAXSLEEP" "unat (SLEEP s') = unat (SLEEP s) div 2"
  using assms by (auto simp: pace_breathing_def Let_def word_le_nat_alt MAXSLEEP_unat unat_div)

lemma pace_remembers: "pace_breathing s = (s', d) \<Longrightarrow> LASTFREES s' = frees (STATS (io_world (sys_io s)))"
  by (auto simp: pace_breathing_def Let_def split: if_splits)

text \<open>Breaths leave the variables of the regulation alone.\<close>

definition pacing :: "'n sys \<Rightarrow> u64 \<times> u64" where
  "pacing s = (SLEEP s, LASTFREES s)"

lemma pacing_updates [simp]:
  "pacing (s\<lparr>sys_io := i\<rparr>) = pacing s" "pacing (s\<lparr>sys_rng := r\<rparr>) = pacing s" "pacing (s\<lparr>sys_net := n\<rparr>) = pacing s"
  "pacing (s\<lparr>sys_files := f\<rparr>) = pacing s" "pacing (s\<lparr>sys_clock := c\<rparr>) = pacing s" "pacing (s\<lparr>MONOTONIC_NOW := t\<rparr>) = pacing s"
  by (simp_all add: pacing_def)

lemma pacing_now [simp]: "pacing (snd (now s)) = pacing s"
  by (simp add: now_def instant_now_def split: option.splits)

lemma callbacks_pacing:
  "app_pull os x a s = Inr (y, s') \<Longrightarrow> pacing s' = pacing s"
  "app_push os x a s = Inr (y, s') \<Longrightarrow> pacing s' = pacing s"
  by (cases x; auto simp: app_pull_def bindR_eq_Inr Let_def case_prod_unfold)
    (cases x; auto simp: app_push_def bindR_eq_Inr Let_def case_prod_unfold)

lemma foldR_callback_pacing:
  assumes "foldR (callback f) names (e, s) = Inr (e', s')" and "\<And>x a s y s'. f x a s = Inr (y, s') \<Longrightarrow> pacing s' = pacing s"
  shows "pacing s' = pacing s"
  using assms(1)
proof (induction names arbitrary: e s)
  case (Cons name names)
  obtain e1 s1 where c: "callback f name (e, s) = Inr (e1, s1)" "foldR (callback f) names (e1, s1) = Inr (e', s')"
    using Cons.prems by (auto simp: bindR_eq_Inr)
  obtain a :: app_state and x where "f (as_app a) (as_ports a) s = Inr (x, s1)" using c(1) by (auto simp: callback_def bindR_eq_Inr)
  from assms(2) [OF this] Cons.IH [OF c(2)] show ?case by simp
qed simp

lemma breathe_pacing:
  assumes "breathe os (e, s) = Inr (e', s')"
  shows "pacing s' = pacing s"
proof -
  obtain t s1 where i: "instant_now s = (t, s1)" by (cases "instant_now s")
  obtain e2 s2 s3 where f: "foldR (callback (app_pull os)) (inhale e) (e, s1\<lparr>MONOTONIC_NOW := Some t\<rparr>) = Inr (e2, s2)"
    "foldR (callback (app_push os)) (exhale e2) (e2, s2) = Inr (e', s3)" "s' = add_breath s3"
    using assms by (auto simp: breathe_def i Let_def bindR_eq_Inr)
  have "pacing s1 = pacing s" using i by (auto simp: instant_now_def)
  then show ?thesis
    using foldR_callback_pacing [OF f(1) callbacks_pacing(1)] foldR_callback_pacing [OF f(2) callbacks_pacing(2)]
    by (simp add: f(3) add_breath_def Let_def)
qed

section \<open>Turns of the breathe loop\<close>

text \<open>
  \<open>paced os st fs ps st'\<close>: the body of the loop of \<^verbatim>\<open>main\<close>, \<^verbatim>\<open>pace_breathing(); breathe();\<close> and the test of \<^verbatim>\<open>done\<close>, was run from \<open>st\<close> to
  \<open>st'\<close>; \<open>fs\<close> are the numbers of packets freed since the program started, as the statistics of the freelist had them at each turn, and \<open>ps\<close> the
  pauses that were made.
\<close>

inductive paced :: "'n os \<Rightarrow> engine \<times> 'n sys \<Rightarrow> u64 list \<Rightarrow> u64 option list \<Rightarrow> engine \<times> 'n sys \<Rightarrow> bool" for os st where
  none: "paced os st [] [] st"
| turn: "paced os st fs ps (e, s) \<Longrightarrow> pace_breathing s = (s1, d) \<Longrightarrow> breathe os (e, s1) = Inr (e', s2) \<Longrightarrow> pacing s' = pacing s2 \<Longrightarrow>
    paced os st (fs @ [frees (STATS (io_world (sys_io s)))]) (ps @ [d]) (e', s')"

text \<open>The loop is such a run.\<close>

lemma breathe_until_paced:
  assumes "breathe_until os (Some stop) None (e, s) = Inr (e', s')" and "\<And>s. pacing (snd (stop s)) = pacing s"
  shows "\<exists>e0 s0 fs ps. breathe os (e, s) = Inr (e0, s0) \<and> paced os (e0, snd (stop s0)) fs ps (e', s')"
proof -
  define check where "check = (\<lambda>s. let (b, s) = stop s in (\<not> b, s))"
  let ?body = "\<lambda>(_, e, s). let (s, _) = pace_breathing s in
     bindR (breathe os (e, s)) (\<lambda>(e, s). let (go, s) = check s in Inr (go, e, s))"
  obtain e0 s0 where b: "breathe os (e, s) = Inr (e0, s0)" using assms(1) by (auto simp: breathe_until_def bindR_eq_Inr)
  have snd_check: "snd (check s) = snd (stop s)" for s by (simp add: check_def Let_def case_prod_unfold)
  obtain go s3 where c: "check s0 = (go, s3)" by (cases "check s0")
  then have s3: "s3 = snd (stop s0)" using snd_check [of s0] by simp
  obtain go4 where l: "loopR fst ?body (go, e0, s3) = Inr (go4, e', s')"
    using assms(1) b c unfolding breathe_until_def check_def by (auto simp: bindR_eq_Inr Let_def)
  let ?I = "\<lambda>(go, st). \<exists>fs ps. paced os (e0, s3) fs ps st"
  have "?I (go4, e', s') \<and> \<not> fst (go4, e', s')"
  proof (rule loopR_inv [OF l])
    show "?I (go, e0, s3)" using paced.none [of os "(e0, s3)"] by auto
    fix x y assume x: "?I x" "?body x = Inr y"
    obtain g e s where xt: "x = (g, e, s)" by (cases x)
    obtain s1 d where p: "pace_breathing s = (s1, d)" by (cases "pace_breathing s")
    obtain e2 s2 where b: "breathe os (e, s1) = Inr (e2, s2)" using x(2) by (auto simp: xt p bindR_eq_Inr)
    obtain go s4 where c: "check s2 = (go, s4)" by (cases "check s2")
    have y: "y = (go, e2, s4)" using x(2) by (simp add: xt p b c)
    have "pacing s4 = pacing s2" using assms(2) [of s2] snd_check [of s2] by (simp add: c)
    moreover obtain fs ps where "paced os (e0, s3) fs ps (e, s)" using x(1) by (auto simp: xt)
    ultimately show "?I y" using paced.turn [OF _ p b] unfolding y by blast
  qed
  with b s3 show ?thesis by auto
qed

text \<open>
  The length of the next pause, from the numbers of freed packets: \<open>f\<close> is the number before, \<open>d\<close> the length so far.
\<close>

fun sleep_after :: "u64 \<Rightarrow> nat \<Rightarrow> u64 list \<Rightarrow> nat" where
  "sleep_after f d [] = d"
| "sleep_after f d (c # cs) = sleep_after c (if c = f then min (d + 1) 100 else d div 2) cs"

lemma sleep_after_append: "sleep_after f d (cs @ ds) = sleep_after (last (f # cs)) (sleep_after f d cs) ds"
  by (induction cs arbitrary: f d) simp_all

text \<open>\<open>(f # fs) ! k\<close> is the number of freed packets at the turn before turn \<open>k\<close>.\<close>

definition idle_turn :: "u64 \<Rightarrow> u64 list \<Rightarrow> nat \<Rightarrow> bool" where
  "idle_turn f fs k \<longleftrightarrow> fs ! k = (f # fs) ! k"

lemma sleep_after_take:
  assumes "k < length fs"
  shows "sleep_after f d (take (Suc k) fs) =
    (if idle_turn f fs k then min (sleep_after f d (take k fs) + 1) 100 else sleep_after f d (take k fs) div 2)"
proof -
  have "last (f # take k fs) = (f # fs) ! k" using assms by (cases k) (auto simp: take_Suc_conv_app_nth)
  then show ?thesis using assms by (simp add: take_Suc_conv_app_nth sleep_after_append idle_turn_def)
qed

lemma sleep_after_idle:
  assumes "i + m \<le> length fs" and "\<And>j. i \<le> j \<Longrightarrow> j < i + m \<Longrightarrow> idle_turn f fs j" and "sleep_after f d (take i fs) \<le> 100"
  shows "sleep_after f d (take (i + m) fs) = min (sleep_after f d (take i fs) + m) 100"
  using assms by (induction m) (simp_all add: sleep_after_take)

lemma sleep_after_busy:
  assumes "i + m \<le> length fs" and "\<And>j. i \<le> j \<Longrightarrow> j < i + m \<Longrightarrow> \<not> idle_turn f fs j"
  shows "sleep_after f d (take (i + m) fs) = sleep_after f d (take i fs) div 2 ^ m"
  using assms by (induction m) (simp_all add: sleep_after_take div_mult2_eq [symmetric] mult.commute)

lemma sleep_after_bounded: "d \<le> 100 \<Longrightarrow> sleep_after f d fs \<le> 100"
  by (induction fs arbitrary: f d) simp_all

lemma paced_sleeps:
  assumes "paced os (e, s) fs ps (e', s')" and "SLEEP s \<le> MAXSLEEP"
  shows "length ps = length fs \<and> SLEEP s' \<le> MAXSLEEP \<and> LASTFREES s' = last (LASTFREES s # fs) \<and>
    unat (SLEEP s') = sleep_after (LASTFREES s) (unat (SLEEP s)) fs \<and>
    (\<forall>k < length fs. map_option unat (ps ! k) = (if idle_turn (LASTFREES s) fs k
       then Some (sleep_after (LASTFREES s) (unat (SLEEP s)) (take (Suc k) fs)) else None))"
  using assms(1)
proof (induction "(e', s')" arbitrary: e' s' rule: paced.induct)
  case none
  then show ?case using assms(2) by simp
next
  case (turn fs ps e1 s1 s2 d e' s3 s')
  let ?f = "LASTFREES s" and ?c = "frees (STATS (io_world (sys_io s1)))"
  note IH = turn.hyps(2)
  have keep: "SLEEP s' = SLEEP s2" "LASTFREES s' = LASTFREES s2"
    using turn.hyps(5) breathe_pacing [OF turn.hyps(4)] by (simp_all add: pacing_def)
  have last: "(?f # fs) ! length fs = LASTFREES s1" using IH by (cases fs rule: rev_cases) (simp_all add: nth_append)
  have old: "(fs @ [?c]) ! k = fs ! k" "(?f # fs @ [?c]) ! k = (?f # fs) ! k" "take (Suc k) (fs @ [?c]) = take (Suc k) fs"
    if k: "k < length fs" for k
  proof -
    show "(fs @ [?c]) ! k = fs ! k" "take (Suc k) (fs @ [?c]) = take (Suc k) fs" using k by (simp_all add: nth_append take_append)
    show "(?f # fs @ [?c]) ! k = (?f # fs) ! k" using k by (cases k) (simp_all add: nth_append)
  qed
  have now: "idle_turn ?f (fs @ [?c]) (length fs) \<longleftrightarrow> LASTFREES s1 = ?c"
    using last by (auto simp: idle_turn_def nth_append nth_Cons')
  have step: "sleep_after ?f (unat (SLEEP s)) (fs @ [?c]) =
      (if LASTFREES s1 = ?c then min (unat (SLEEP s1) + 1) 100 else unat (SLEEP s1) div 2)"
    using IH by (simp add: sleep_after_append eq_commute)
  have new: "SLEEP s2 \<le> MAXSLEEP \<and> unat (SLEEP s2) = sleep_after ?f (unat (SLEEP s)) (fs @ [?c]) \<and>
      map_option unat d = (if LASTFREES s1 = ?c then Some (unat (SLEEP s2)) else None)"
    using pace_idle [OF _ _ turn.hyps(3)] pace_busy [OF _ _ turn.hyps(3)] IH unfolding step by (cases "LASTFREES s1 = ?c") auto
  show ?case
    using IH new keep now pace_remembers [OF turn.hyps(3)]
    by (auto simp: less_Suc_eq nth_append idle_turn_def old)
qed

section \<open>Properties\<close>

text \<open>
  C39. How the engine sleeps, over any run of its loop, from the numbers of packets freed (\<open>fs\<close>) that the statistics show at each turn: it
  pauses before a breath if and only if no packet was freed since the turn before. A pause is between 1 and 100 microseconds long;
  in a row of turns without freed packets each pause is a microsecond longer than the last, up to that limit; after seven or
  more turns with freed packets in a row the next pause is one of a single microsecond.
\<close>

theorem pauses_adapt:
  assumes "paced os (e, s) fs ps (e', s')" and "SLEEP s \<le> MAXSLEEP"
  defines "prev \<equiv> \<lambda>k. (LASTFREES s # fs) ! k"
  shows "length ps = length fs \<and> SLEEP s' \<le> MAXSLEEP \<and>
    (\<forall>k < length fs. ps ! k = None \<longleftrightarrow> fs ! k \<noteq> prev k) \<and>
    (\<forall>k < length fs. \<forall>d. ps ! k = Some d \<longrightarrow> 1 \<le> d \<and> d \<le> 100) \<and>
    (\<forall>i m d. i + m < length fs \<longrightarrow> (\<forall>j. i \<le> j \<and> j \<le> i + m \<longrightarrow> fs ! j = prev j) \<longrightarrow> ps ! i = Some d \<longrightarrow>
      ps ! (i + m) = Some (of_nat (min (unat d + m) 100))) \<and>
    (\<forall>i m. 7 \<le> m \<longrightarrow> i + m < length fs \<longrightarrow> (\<forall>j. i \<le> j \<and> j < i + m \<longrightarrow> fs ! j \<noteq> prev j) \<longrightarrow> fs ! (i + m) = prev (i + m) \<longrightarrow>
      ps ! (i + m) = Some 1)"
proof -
  let ?f = "LASTFREES s" and ?S = "\<lambda>k. sleep_after (LASTFREES s) (unat (SLEEP s)) (take k fs)"
  have len: "length ps = length fs" and b: "SLEEP s' \<le> MAXSLEEP" using paced_sleeps [OF assms(1,2)] by blast+
  have ps: "map_option unat (ps ! k) = (if idle_turn ?f fs k then Some (?S (Suc k)) else None)" if "k < length fs" for k
    using paced_sleeps [OF assms(1,2)] that by blast
  have idle: "idle_turn ?f fs k \<longleftrightarrow> fs ! k = prev k" for k by (simp add: idle_turn_def prev_def)
  have bound: "?S k \<le> 100" for k
    using assms(2) by (intro sleep_after_bounded) (simp add: word_le_nat_alt MAXSLEEP_unat)
  have pause: "unat d = ?S (Suc k) \<and> fs ! k = prev k" if "ps ! k = Some d" "k < length fs" for k d
    using ps [OF that(2)] that(1) by (auto simp: idle split: if_splits)
  have paused: "ps ! k = Some (of_nat (?S (Suc k)))" if h: "fs ! k = prev k" "k < length fs" for k
  proof -
    obtain d where d: "ps ! k = Some d" using ps [OF h(2)] h(1) by (auto simp: idle)
    with pause [OF d h(2)] show ?thesis by (metis of_nat_unat ucast_id)
  qed
  show ?thesis
  proof (intro conjI allI impI)
    show "length ps = length fs" "SLEEP s' \<le> MAXSLEEP" by (rule len b)+
  next
    fix k assume k: "k < length fs"
    then show "(ps ! k = None) = (fs ! k \<noteq> prev k)" using ps [OF k] by (cases "ps ! k") (auto simp: idle split: if_splits)
    fix d assume "ps ! k = Some d"
    from pause [OF this k] sleep_after_take [OF k, of ?f "unat (SLEEP s)"] bound [of "Suc k"] have "1 \<le> unat d \<and> unat d \<le> 100"
      by (auto simp: idle)
    then show "1 \<le> d" "d \<le> 100" by (simp_all add: word_le_nat_alt)
  next
    fix i m d assume h: "i + m < length fs" "\<forall>j. i \<le> j \<and> j \<le> i + m \<longrightarrow> fs ! j = prev j" "ps ! i = Some d"
    have "?S (Suc i + m) = min (?S (Suc i) + m) 100"
      by (rule sleep_after_idle) (use h bound in \<open>auto simp: idle\<close>)
    moreover have "unat d = ?S (Suc i)" using pause [OF h(3)] h(1) by simp
    ultimately show "ps ! (i + m) = Some (of_nat (min (unat d + m) 100))" using paused [of "i + m"] h by simp
  next
    fix i m assume h: "7 \<le> m" "i + m < length fs" "\<forall>j. i \<le> j \<and> j < i + m \<longrightarrow> fs ! j \<noteq> prev j" "fs ! (i + m) = prev (i + m)"
    have "?S (i + m) = ?S i div 2 ^ m" by (rule sleep_after_busy) (use h in \<open>auto simp: idle\<close>)
    moreover have "(2 :: nat) ^ 7 \<le> 2 ^ m" using h(1) by (intro power_increasing) simp_all
    ultimately have "?S (i + m) = 0" using bound [of i] by simp
    with sleep_after_take [OF h(2), of ?f "unat (SLEEP s)"] h(4) have "?S (Suc (i + m)) = 1" by (simp add: idle)
    with paused [OF h(4,2)] show "ps ! (i + m) = Some 1" by simp
  qed
qed

text \<open>A pause of 40 microseconds so far, and packets that were freed just before; then nothing happens.\<close>

definition demo_pause :: "(u8 list list \<times> u8 list list) sys" where
  "demo_pause = demo_sys\<lparr>LASTFREES := 7, SLEEP := 40\<rparr>"

lemma demo_paced: "\<exists>s'. paced demo_os (initial_engine, demo_pause) [0, 0, 0] [None, Some 21, Some 22] (initial_engine, s')"
proof -
  define t where "t s = add_breath (snd (instant_now (fst (pace_breathing s)))\<lparr>MONOTONIC_NOW := Some (fst (instant_now (fst (pace_breathing s))))\<rparr>)"
    for s :: "(u8 list list \<times> u8 list list) sys"
  have turn: "paced demo_os (initial_engine, demo_pause) (fs @ [frees (STATS (io_world (sys_io s)))]) (ps @ [snd (pace_breathing s)])
      (initial_engine, t s)"
    if "paced demo_os (initial_engine, demo_pause) fs ps (initial_engine, s)" for fs ps s
    by (rule paced.turn [OF that, of "fst (pace_breathing s)" _ _ "t s"])
      (simp_all add: breathe_def initial_engine_def t_def Let_def case_prod_unfold)
  have "paced demo_os (initial_engine, demo_pause) ((([] @ [0]) @ [0]) @ [0]) ((([] @ [None]) @ [Some 21]) @ [Some 22])
      (initial_engine, t (t (t demo_pause)))"
    using turn [OF turn [OF turn [OF paced.none]]]
    by (simp add: t_def demo_pause_def demo_sys_def pace_breathing_def instant_now_def add_breath_def initial_world_def MAXSLEEP_def Let_def)
  then show ?thesis by auto
qed

theorem pauses_adapt_witness:
  "\<exists>ps s'. paced demo_os (initial_engine, demo_pause) [0, 0, 0] ps (initial_engine, s') \<and> ps ! 0 = None \<and>
    (\<exists>d. ps ! 1 = Some d \<and> ps ! 2 = Some (of_nat (min (unat d + 1) 100)))"
proof -
  obtain s' where p: "paced demo_os (initial_engine, demo_pause) [0, 0, 0] [None, Some 21, Some 22] (initial_engine, s')"
    using demo_paced by blast
  have "SLEEP demo_pause \<le> MAXSLEEP" "LASTFREES demo_pause = 7" by (simp_all add: demo_pause_def demo_sys_def MAXSLEEP_def)
  note a = pauses_adapt [OF p this(1), unfolded this(2)]
  have "[None, Some 21, Some 22] ! 0 = (None :: u64 option)" using a by simp
  moreover have "i + m < 3 \<longrightarrow> (\<forall>j. i \<le> j \<and> j \<le> i + m \<longrightarrow> [0, 0, 0] ! j = [7, 0, 0, 0 :: u64] ! j) \<longrightarrow> [None, Some 21, Some 22] ! i = Some d \<longrightarrow>
      [None, Some 21, Some 22] ! (i + m) = Some (of_nat (min (unat d + m) 100) :: u64)" for i m and d :: u64
    using a by simp
  moreover have "(1 :: nat) + 1 = 2" "\<forall>j. 1 \<le> j \<and> j \<le> 1 + 1 \<longrightarrow> [0, 0, 0] ! j = [7, 0, 0, 0 :: u64] ! j"
    by (auto simp: le_Suc_eq numeral_2_eq_2)
  ultimately have "[None, Some 21, Some 22] ! 0 = (None :: u64 option)"
    "[None, Some 21, Some 22] ! 2 = Some (of_nat (min (unat (21 :: u64) + 1) 100) :: u64)" "[None, Some 21, Some 22] ! 1 = Some (21 :: u64)"
    by (metis one_add_one nth_Cons_0 nth_Cons_Suc One_nat_def numeral_2_eq_2 lessI numeral_3_eq_3)+
  with p show ?thesis by blast
qed

end
