(* ===== verification/Memory.thy ===== *)
theory Memory
  imports Rawsocket Config
begin

text \<open>
  \<^verbatim>\<open>rush/src/memory.rs\<close>: memory for packets that devices can access. It is cut from huge pages, which are mapped at
  their physical address tagged with two bits. The files and system calls are a parameter, a record of functions on the
  state of the operating system.
\<close>

section \<open>System calls\<close>

text \<open>
  \<open>mos_mount\<close> is \<^verbatim>\<open>mount\<close> of the huge page file system, with \<^verbatim>\<open>MS_REMOUNT\<close> or without; \<open>mos_open\<close> opens for reading and
  writing, creating the file, or for reading only; \<open>mos_mmap\<close> maps a file anywhere, or at a fixed address; \<open>mos_pread\<close> reads
  eight bytes at an offset.
\<close>

record 'n mem_os =
  mos_meminfo :: "'n \<Rightarrow> string option"
  mos_getpid :: "'n \<Rightarrow> nat"
  mos_mkdir :: "string \<Rightarrow> 'n \<Rightarrow> 'n"
  mos_mount :: "bool \<Rightarrow> string \<Rightarrow> 'n \<Rightarrow> int \<times> 'n"
  mos_open :: "bool \<Rightarrow> string \<Rightarrow> 'n \<Rightarrow> int \<times> 'n"
  mos_ftruncate :: "int \<Rightarrow> u64 \<Rightarrow> 'n \<Rightarrow> int \<times> 'n"
  mos_mmap :: "u64 option \<Rightarrow> u64 \<Rightarrow> int \<Rightarrow> 'n \<Rightarrow> u64 \<times> 'n"
  mos_mlock :: "u64 \<Rightarrow> u64 \<Rightarrow> 'n \<Rightarrow> int \<times> 'n"
  mos_munmap :: "u64 \<Rightarrow> u64 \<Rightarrow> 'n \<Rightarrow> 'n"
  mos_unlink :: "string \<Rightarrow> 'n \<Rightarrow> 'n"
  mos_close :: "int \<Rightarrow> 'n \<Rightarrow> 'n"
  mos_pread :: "int \<Rightarrow> u64 \<Rightarrow> 'n \<Rightarrow> int \<times> u64 \<times> 'n"

definition MAP_FAILED :: u64 where "MAP_FAILED = - 1"

section \<open>Huge pages\<close>

definition TAG :: u64 where "TAG = 0x500000000000"

definition virtual_to_physical :: "u64 \<Rightarrow> u64 res" where
  "virtual_to_physical virt_addr =
     (if virt_addr AND 0x500000000000 = 0x500000000000 then Inr (virt_addr XOR 0x500000000000)
      else Inl (Assertion_failed ''DMA address tag check failed''))"

definition resolve_physical :: "'n mem_os \<Rightarrow> u64 \<Rightarrow> 'n \<Rightarrow> (u64 \<times> 'n) res" where
  "resolve_physical os ptr net =
     (let pagesize = 4096;
          virtpage = ptr div pagesize
      in bindR (cstr ''/proc/self/pagemap'') (\<lambda>pagemap.
         let (pagemapfd, net) = mos_open os False pagemap net in
         if pagemapfd < 0 then Inl (Assertion_failed ''Failed to open /proc/self/pagemap'')
         else let (r, data, net) = mos_pread os pagemapfd (virtpage * 8) net in
         if r \<noteq> 8 then Inl (Assertion_failed ''pread'')
         else let net = mos_close os pagemapfd net in
         if data AND push_bit 63 1 = 0 then Inl (Assertion_failed ''page not present'')
         else let physpage = data AND 0xFFFFFFFFFFFFF in Inr (physpage * pagesize, net)))"

definition ensure_hugetlbfs :: "'n mem_os \<Rightarrow> 'n \<Rightarrow> 'n res" where
  "ensure_hugetlbfs os net =
     bindR (cstr ''/var/run/rush/hugetlbfs'') (\<lambda>target.
     bindR (cstr ''/var/run/rush'') (\<lambda>parent.
     let net = mos_mkdir os parent net;
         net = mos_mkdir os target net;
         (r, net) = mos_mount os True target net
     in if r \<noteq> 0
        then let (r, net) = mos_mount os False target net in
             if r = 0 then Inr net else Inl (Assertion_failed ''failed to (re)mount /var/run/rush/hugetlbfs'')
        else Inr net))"

text \<open>
  The first mapping is checked, the second, at the tagged address, is not.
\<close>

definition allocate_huge_page :: "'n mem_os \<Rightarrow> u64 \<Rightarrow> 'n \<Rightarrow> (u64 \<times> 'n) res" where
  "allocate_huge_page os sz net =
     bindR (ensure_hugetlbfs os net) (\<lambda>net.
     bindR (cstr (''/var/run/rush/hugetlbfs/alloc.'' @ dec_string (mos_getpid os net))) (\<lambda>tmpfile.
     let (fd, net) = mos_open os True tmpfile net in
     if fd < 0 then Inl (Assertion_failed ''create hugetlb'')
     else let (r, net) = mos_ftruncate os fd sz net in
     if r \<noteq> 0 then Inl (Assertion_failed ''ftruncate'')
     else let (tmpptr, net) = mos_mmap os None sz fd net in
     if tmpptr = MAP_FAILED then Inl (Assertion_failed ''mmap hugetlb'')
     else let (r, net) = mos_mlock os tmpptr sz net in
     if r \<noteq> 0 then Inl (Assertion_failed ''mlock'')
     else bindR (resolve_physical os tmpptr net) (\<lambda>(phys, net).
       let virt = phys OR TAG;
           (ptr, net) = mos_mmap os (Some virt) sz fd net;
           net = mos_unlink os tmpfile net;
           net = mos_munmap os tmpptr sz net;
           net = mos_close os fd net
       in Inr (ptr, net))))"

section \<open>The size of a huge page\<close>

text \<open>
  The expression \<^verbatim>\<open>Hugepagesize: +([0-9]+) kB\<close> at the start of a string, and at the leftmost position where it matches. The
  repetitions are followed by a character outside their class, so the greedy match is the only one at a position.
\<close>

definition match_hugepagesize :: "string \<Rightarrow> string option" where
  "match_hugepagesize s =
     Option.bind (match_lit ''Hugepagesize: '' s) (\<lambda>s.
     let s = skip_spaces s; ds = takeWhile digit s in
     if ds = [] then None else Option.bind (match_lit '' kB'' (dropWhile digit s)) (\<lambda>_. Some ds))"

fun find_hugepagesize :: "string \<Rightarrow> string option" where
  "find_hugepagesize [] = match_hugepagesize []"
| "find_hugepagesize (c # s) = (case match_hugepagesize (c # s) of Some d \<Rightarrow> Some d | None \<Rightarrow> find_hugepagesize s)"

text \<open>\<^verbatim>\<open>str::parse::<usize>().unwrap()\<close> of a string of digits.\<close>

definition parse_usize :: "string \<Rightarrow> u64 res" where
  "parse_usize ds =
     (let n = dec_value ds in if n < 2 ^ 64 then Inr (of_nat n) else Inl Unwrap_err)"

definition get_huge_page_size :: "'n mem_os \<Rightarrow> 'n \<Rightarrow> u64 res" where
  "get_huge_page_size os net =
     (case mos_meminfo os net of
        None \<Rightarrow> Inl Unwrap_err
      | Some meminfo \<Rightarrow>
          (case find_hugepagesize meminfo of
             Some cap \<Rightarrow> bindR (parse_usize cap) (\<lambda>n. Inr (n * 1024))
           | None \<Rightarrow> Inl (Assertion_failed ''Failed to get hugepage size'')))"

section \<open>Chunks\<close>

record chunk =
  ch_pointer :: u64
  ch_size :: u64
  ch_used :: u64

record 'n mem =
  CHUNKS :: "chunk list"
  HUGE_PAGE_SIZE :: "u64 option"
  mem_net :: 'n

definition huge_page_size :: "'n mem_os \<Rightarrow> 'n mem \<Rightarrow> (u64 \<times> 'n mem) res" where
  "huge_page_size os m =
     (case HUGE_PAGE_SIZE m of
        Some sz \<Rightarrow> Inr (sz, m)
      | None \<Rightarrow> bindR (get_huge_page_size os (mem_net m)) (\<lambda>sz. Inr (sz, m\<lparr>HUGE_PAGE_SIZE := Some sz\<rparr>)))"

definition allocate_hugetlb_chunk :: "'n mem_os \<Rightarrow> 'n mem \<Rightarrow> (u64 \<times> 'n mem) res" where
  "allocate_hugetlb_chunk os m =
     (case bindR (huge_page_size os m) (\<lambda>(sz, m).
         bindR (allocate_huge_page os sz (mem_net m)) (\<lambda>(ptr, net). Inr (ptr, m\<lparr>mem_net := net\<rparr>))) of
        Inr r \<Rightarrow> Inr r
      | Inl _ \<Rightarrow> Inl (Assertion_failed ''Failed to allocate a huge page for DMA''))"

definition allocate_next_chunk :: "'n mem_os \<Rightarrow> 'n mem \<Rightarrow> 'n mem res" where
  "allocate_next_chunk os m =
     bindR (allocate_hugetlb_chunk os m) (\<lambda>(ptr, m).
     bindR (huge_page_size os m) (\<lambda>(sz, m).
     Inr (m\<lparr>CHUNKS := CHUNKS m @ [\<lparr>ch_pointer = ptr, ch_size = sz, ch_used = 0\<rparr>]\<rparr>)))"

text \<open>\<open>last_chunk\<close> is \<^verbatim>\<open>CHUNKS.last_mut().unwrap()\<close>; what is done to the chunk is done to the last of the list.\<close>

definition last_chunk :: "'n mem \<Rightarrow> chunk res" where
  "last_chunk m = (if CHUNKS m = [] then Inl Unwrap_none else Inr (last (CHUNKS m)))"

definition set_used :: "u64 \<Rightarrow> 'n mem \<Rightarrow> 'n mem" where
  "set_used u m = m\<lparr>CHUNKS := butlast (CHUNKS m) @ [last (CHUNKS m)\<lparr>ch_used := u\<rparr>]\<rparr>"

definition dma_alloc :: "'n mem_os \<Rightarrow> u64 \<Rightarrow> u64 \<Rightarrow> 'n mem \<Rightarrow> (u64 \<times> 'n mem) res" where
  "dma_alloc os bytes alignment m =
     bindR (huge_page_size os m) (\<lambda>(sz, m).
     if \<not> bytes \<le> sz then Inl (Assertion_failed ''bytes <= huge_page_size()'')
     else bindR (if CHUNKS m = [] then allocate_next_chunk os m else Inr m) (\<lambda>m.
     bindR (last_chunk m) (\<lambda>chunk.
     bindR (align (ch_used chunk) alignment) (\<lambda>used.
     let m = set_used used m in
     bindR (if ch_size chunk < used + bytes then allocate_next_chunk os m else Inr m) (\<lambda>m.
     bindR (last_chunk m) (\<lambda>chunk.
     let offset = ch_used chunk in
     Inr (ch_pointer chunk + offset, set_used (offset + bytes) m)))))))"


section \<open>Reading the size of a huge page\<close>

lemma parse_usize_dec: "n < 2 ^ 64 \<Longrightarrow> parse_usize (dec_string n) = Inr (of_nat n)"
  by (simp add: parse_usize_def dec_value_dec_string)

lemma match_hugepagesize_dec:
  "match_hugepagesize (''Hugepagesize: '' @ replicate k space @ dec_string n @ '' kB'' @ post) = Some (dec_string n)"
proof -
  have hd: "dec_string n = c # cs \<Longrightarrow> c \<noteq> space" for c cs using dec_string_digits [of n] by (auto simp: digit_def)
  have "skip_spaces (replicate k space @ dec_string n @ '' kB'' @ post) = dec_string n @ '' kB'' @ post"
    using hd dec_string_nonempty [of n] unfolding skip_spaces_def by (cases "dec_string n") (simp_all add: dropWhile_append)
  moreover have "takeWhile digit (dec_string n @ '' kB'' @ post) = dec_string n"
    "dropWhile digit (dec_string n @ '' kB'' @ post) = '' kB'' @ post"
    using dec_string_digits [of n] by (simp_all add: takeWhile_append2 dropWhile_append2 digit_def)
  ultimately show ?thesis
    by (simp add: match_hugepagesize_def match_lit_def Let_def dec_string_nonempty)
qed

text \<open>The text before has no occurrence of the name.\<close>

definition no_name_in :: "string \<Rightarrow> string \<Rightarrow> bool" where
  "no_name_in pre rest \<longleftrightarrow> (\<forall>k < length pre. match_lit ''Hugepagesize: '' (drop k (pre @ rest)) = None)"

lemma find_hugepagesize_skip:
  assumes "no_name_in pre rest" and "match_hugepagesize rest = Some d"
  shows "find_hugepagesize (pre @ rest) = Some d"
  using assms(1)
proof (induction pre)
  case Nil
  then show ?case using assms(2) by (cases rest) simp_all
next
  case (Cons c pre)
  have "match_hugepagesize ((c # pre) @ rest) = None"
    using Cons.prems unfolding no_name_in_def match_hugepagesize_def by (auto dest!: spec [of _ 0])
  moreover have "no_name_in pre rest"
    unfolding no_name_in_def
  proof (intro allI impI)
    fix k assume "k < length pre"
    then show "match_lit ''Hugepagesize: '' (drop k (pre @ rest)) = None"
      using Cons.prems unfolding no_name_in_def by (auto dest!: spec [of _ "Suc k"])
  qed
  ultimately show ?case using Cons.IH by simp
qed

section \<open>Tagged addresses\<close>

lemma TAG_bits: "bit TAG n \<longleftrightarrow> n = 44 \<or> n = 46"
proof (cases "n < 64")
  case True
  have "list_all (\<lambda>n. bit TAG n \<longleftrightarrow> n = 44 \<or> n = 46) [0..<64]" by code_simp
  with True show ?thesis by (simp only: list_all_iff set_upt atLeastLessThan_iff Ball_def) simp
next
  case False
  then show ?thesis using bit_imp_le_length [of TAG n] by auto
qed

lemma small_no_tag:
  assumes "unat (x :: u64) < 2 ^ 44"
  shows "x AND TAG = 0"
proof -
  have "n < 44" if "bit x n" for n
  proof (rule ccontr)
    assume "\<not> n < 44"
    then have "(2 :: nat) ^ 44 \<le> 2 ^ n" by (intro power_increasing) simp_all
    with assms have "unat x div 2 ^ n = 0" by simp
    moreover have "bit (unat x) n" using that by (simp add: bit_unsigned_iff)
    ultimately show False by (simp add: bit_iff_odd)
  qed
  then show ?thesis by (intro bit_word_eqI) (force simp: bit_and_iff TAG_bits)
qed

lemma tag_plus: "unat x < 2 ^ 44 \<Longrightarrow> x + TAG = x OR TAG"
  using small_no_tag [of x] by (simp add: disjunctive_add_eq_or)

lemma virtual_to_physical_tagged:
  assumes "unat x < 2 ^ 44"
  shows "virtual_to_physical (x OR TAG) = Inr x"
proof -
  have "(x OR TAG) AND TAG = TAG" by (rule bit_word_eqI) (auto simp: bit_simps)
  moreover have "(x OR TAG) XOR TAG = x"
  proof (rule bit_word_eqI)
    fix n
    have "\<not> (bit x n \<and> bit TAG n)" using small_no_tag [OF assms] by (metis bit_and_iff bit_0_eq bot_apply bot_bool_def)
    then show "bit ((x OR TAG) XOR TAG) n = bit x n" by (auto simp: bit_simps)
  qed
  ultimately show ?thesis by (simp add: virtual_to_physical_def TAG_def [symmetric])
qed

text \<open>The tag consists of the bits 44 and 46.\<close>

lemma bit_TAG: "bit TAG n \<longleftrightarrow> n = 44 \<or> n = 46"
proof -
  have "TAG = push_bit 44 1 OR push_bit 46 1" by (simp add: TAG_def)
  then have "bit TAG n = bit (push_bit 44 1 OR push_bit 46 1 :: u64) n" by simp
  then show ?thesis by (auto simp only: bit_or_iff bit_push_bit_iff bit_1_iff possible_bit_word) simp_all
qed

lemma virtual_to_physical_refuses:
  "virtual_to_physical a = Inl (Assertion_failed ''DMA address tag check failed'') \<longleftrightarrow> \<not> (bit a 44 \<and> bit a 46)"
proof -
  have "a AND TAG = TAG \<longleftrightarrow> bit a 44 \<and> bit a 46"
  proof
    assume h: "a AND TAG = TAG"
    have "bit (a AND TAG) 44" "bit (a AND TAG) 46" unfolding h by (simp_all add: bit_TAG)
    then show "bit a 44 \<and> bit a 46" by (simp add: bit_and_iff)
  qed (auto intro!: bit_word_eqI simp: bit_and_iff bit_TAG)
  then show ?thesis by (simp add: virtual_to_physical_def TAG_def)
qed

lemma tagged_offset:
  assumes "unat phys + unat ofs < 2 ^ 44"
  shows "virtual_to_physical ((phys OR TAG) + ofs) = Inr (phys + ofs)" "unat ((phys OR TAG) + ofs) = unat TAG + unat phys + unat ofs"
proof -
  have sum: "unat (phys + ofs) = unat phys + unat ofs" using assms by (simp add: unat_word_ariths)
  have "(phys OR TAG) + ofs = phys + TAG + ofs" using assms tag_plus [of phys] by simp
  also have "\<dots> = (phys + ofs) + TAG" by simp
  finally have eq: "(phys OR TAG) + ofs = (phys + ofs) + TAG" .
  also have "\<dots> = (phys + ofs) OR TAG" using assms sum by (intro tag_plus) simp
  finally have "(phys OR TAG) + ofs = (phys + ofs) OR TAG" .
  with virtual_to_physical_tagged [of "phys + ofs"] assms sum show "virtual_to_physical ((phys OR TAG) + ofs) = Inr (phys + ofs)" by simp
  show "unat ((phys OR TAG) + ofs) = unat TAG + unat phys + unat ofs"
    unfolding eq using assms sum by (simp add: unat_word_ariths TAG_def)
qed

section \<open>The kernel's page tables\<close>

text \<open>
  What is relied on of the kernel. In a state \<open>n\<close>, \<open>phys n a\<close> is the physical address of the byte at the virtual address \<open>a\<close>, and
  \<open>backing n fd\<close> the physical page behind the file that \<open>fd\<close> is open on (\<open>None\<close> for a descriptor that is not open). \<^verbatim>\<open>open\<close> gives a
  new descriptor. \<^verbatim>\<open>mmap\<close> with \<^verbatim>\<open>MAP_SHARED\<close> makes the page of the file visible from the address on, which is the one asked for with
  \<^verbatim>\<open>MAP_FIXED\<close> (and else one outside of the tagged addresses, at the start of a page); physical memory is below 16 TiB. \<^verbatim>\<open>/proc/self/pagemap\<close>
  holds at \<open>8 k\<close> the physical page number of the virtual page \<open>k\<close>. Nothing else moves pages.
\<close>

definition fresh_descriptors :: "'n mem_os \<Rightarrow> ('n \<Rightarrow> u64 \<Rightarrow> u64) \<Rightarrow> ('n \<Rightarrow> int \<Rightarrow> u64 option) \<Rightarrow> bool" where
  "fresh_descriptors os phys backing \<longleftrightarrow>
     (\<forall>w path n fd n'. mos_open os w path n = (fd, n') \<longrightarrow> 0 \<le> fd \<longrightarrow>
       backing n fd = None \<and> backing n' fd \<noteq> None \<and> phys n' = phys n \<and> (\<forall>f. f \<noteq> fd \<longrightarrow> backing n' f = backing n f)) \<and>
     (\<forall>fd n f. phys (mos_close os fd n) = phys n \<and> (f \<noteq> fd \<longrightarrow> backing (mos_close os fd n) f = backing n f)) \<and>
     (\<forall>fd sz n r n'. mos_ftruncate os fd sz n = (r, n') \<longrightarrow> backing n fd \<noteq> None \<longrightarrow> backing n' fd \<noteq> None)"

definition maps_shared :: "'n mem_os \<Rightarrow> ('n \<Rightarrow> u64 \<Rightarrow> u64) \<Rightarrow> ('n \<Rightarrow> int \<Rightarrow> u64 option) \<Rightarrow> bool" where
  "maps_shared os phys backing \<longleftrightarrow>
     (\<forall>place sz fd n p n' page. mos_mmap os place sz fd n = (p, n') \<longrightarrow> p \<noteq> MAP_FAILED \<longrightarrow> backing n fd = Some page \<longrightarrow>
       backing n' = backing n \<and> page mod 4096 = 0 \<and> unat page + unat sz \<le> 2 ^ 44 \<and>
       (\<forall>ofs. ofs < sz \<longrightarrow> phys n' (p + ofs) = page + ofs) \<and>
       (case place of Some a \<Rightarrow> p = a
        | None \<Rightarrow> p mod 4096 = 0 \<and> (unat p + unat sz \<le> unat TAG \<or> unat TAG + 2 ^ 44 \<le> unat p \<and> unat p + unat sz < 2 ^ 64))) \<and>
     (\<forall>p sz n a. backing (mos_munmap os p sz n) = backing n \<and>
       (unat a < unat p \<or> unat p + unat sz \<le> unat a \<longrightarrow> phys (mos_munmap os p sz n) a = phys n a)) \<and>
     (\<forall>p sz n r n'. mos_mlock os p sz n = (r, n') \<longrightarrow> phys n' = phys n \<and> backing n' = backing n) \<and>
     (\<forall>path n. phys (mos_unlink os path n) = phys n \<and> backing (mos_unlink os path n) = backing n)"

definition pagemap_true :: "'n mem_os \<Rightarrow> ('n \<Rightarrow> u64 \<Rightarrow> u64) \<Rightarrow> ('n \<Rightarrow> int \<Rightarrow> u64 option) \<Rightarrow> bool" where
  "pagemap_true os phys backing \<longleftrightarrow>
     (\<forall>n fd n1 a data n2 r ofs. mos_pread os fd ofs n1 = (r, data, n2) \<longrightarrow> phys n2 = phys n1 \<and> backing n2 = backing n1 \<and>
       (mos_open os False ''/proc/self/pagemap'' n = (fd, n1) \<longrightarrow> ofs = a div 4096 * 8 \<longrightarrow> a mod 4096 = 0 \<longrightarrow> r = 8 \<longrightarrow>
         data AND push_bit 63 1 \<noteq> 0 \<longrightarrow> data AND 0xFFFFFFFFFFFFF = phys n1 a div 4096))"

definition kernel_maps :: "'n mem_os \<Rightarrow> ('n \<Rightarrow> u64 \<Rightarrow> u64) \<Rightarrow> ('n \<Rightarrow> int \<Rightarrow> u64 option) \<Rightarrow> bool" where
  "kernel_maps os phys backing \<longleftrightarrow> fresh_descriptors os phys backing \<and> maps_shared os phys backing \<and> pagemap_true os phys backing"

section \<open>Blocks\<close>

type_synonym block = "u64 \<times> u64 \<times> u64"

text \<open>A block \<open>(p, n, al)\<close> has \<open>n\<close> bytes at the address \<open>p\<close> and was requested with the alignment \<open>al\<close>.\<close>

definition inside :: "block \<Rightarrow> chunk \<Rightarrow> u64 \<Rightarrow> bool" where
  "inside b c k = (case b of (p, n, al) \<Rightarrow> unat (ch_pointer c) \<le> unat p \<and> unat p + unat n \<le> unat (ch_pointer c) + unat k)"

definition disjoint :: "block \<Rightarrow> block \<Rightarrow> bool" where
  "disjoint b b' = (case (b, b') of ((p, n, _), (p', n', _)) \<Rightarrow> unat p + unat n \<le> unat p' \<or> unat p' + unat n' \<le> unat p)"

definition aligned :: "block \<Rightarrow> bool" where
  "aligned b = (case b of (p, n, al) \<Rightarrow> unat al dvd unat p)"

definition apart :: "chunk \<Rightarrow> chunk \<Rightarrow> bool" where
  "apart c d \<longleftrightarrow> unat (ch_pointer c) + unat (ch_size c) \<le> unat (ch_pointer d) \<or>
     unat (ch_pointer d) + unat (ch_size d) \<le> unat (ch_pointer c)"

text \<open>What the kernel gives: pages of a sensible size, aligned to it, within the address space.\<close>

definition page_ok :: "chunk \<Rightarrow> bool" where
  "page_ok c \<longleftrightarrow> 0 < ch_size c \<and> 3 * unat (ch_size c) < 2 ^ 64 \<and> unat (ch_size c) dvd unat (ch_pointer c) \<and>
     unat (ch_pointer c) + unat (ch_size c) < 2 ^ 64"

text \<open>The chunks that are new are pages that no other chunk overlaps.\<close>

definition pages_fresh :: "'n mem \<Rightarrow> 'n mem \<Rightarrow> bool" where
  "pages_fresh m m' \<longleftrightarrow> (\<forall>c \<in> set (drop (length (CHUNKS m)) (CHUNKS m')). page_ok c \<and> (\<forall>d \<in> set (CHUNKS m). apart d c))"

inductive dma_history :: "'n mem_os \<Rightarrow> block list \<Rightarrow> 'n mem \<Rightarrow> bool" for os where
  none: "CHUNKS m = [] \<Longrightarrow> HUGE_PAGE_SIZE m = None \<Longrightarrow> dma_history os [] m"
| alloc: "dma_history os bs m \<Longrightarrow> dma_alloc os n al m = Inr (p, m') \<Longrightarrow> pages_fresh m m' \<Longrightarrow>
    \<forall>sz. HUGE_PAGE_SIZE m' = Some sz \<longrightarrow> unat al dvd unat sz \<Longrightarrow> dma_history os ((p, n, al) # bs) m'"
| outside: "dma_history os bs m \<Longrightarrow> dma_history os bs (m\<lparr>mem_net := net\<rparr>)"

text \<open>The invariant: the blocks lie in chunks, those of the last chunk below its fill mark.\<close>

definition dma_ok :: "block list \<Rightarrow> 'n mem \<Rightarrow> bool" where
  "dma_ok bs m \<longleftrightarrow>
     (\<forall>c \<in> set (CHUNKS m). HUGE_PAGE_SIZE m = Some (ch_size c) \<and> page_ok c) \<and>
     sorted_wrt apart (CHUNKS m) \<and>
     (CHUNKS m \<noteq> [] \<longrightarrow> ch_used (last (CHUNKS m)) \<le> ch_size (last (CHUNKS m))) \<and>
     (\<forall>b \<in> set bs. (\<exists>c \<in> set (butlast (CHUNKS m)). inside b c (ch_size c)) \<or>
        CHUNKS m \<noteq> [] \<and> inside b (last (CHUNKS m)) (ch_used (last (CHUNKS m)))) \<and>
     sorted_wrt disjoint bs \<and> (\<forall>b \<in> set bs. aligned b)"

lemma guard_eq_Inr: "(if b then Inl e else r) = Inr y \<longleftrightarrow> \<not> b \<and> r = Inr y"
  by simp

lemma last_chunk_inv: "last_chunk m = Inr c \<longleftrightarrow> CHUNKS m \<noteq> [] \<and> c = last (CHUNKS m)"
  by (auto simp: last_chunk_def)

lemma huge_page_size_inv:
  assumes "huge_page_size os m = Inr (sz, m')"
  shows "HUGE_PAGE_SIZE m' = Some sz" "CHUNKS m' = CHUNKS m" "HUGE_PAGE_SIZE m = Some h \<Longrightarrow> h = sz"
  using assms by (auto simp: huge_page_size_def bindR_eq_Inr split: option.splits)

lemma allocate_next_chunk_inv:
  assumes "allocate_next_chunk os m = Inr m'"
  obtains ptr sz where "CHUNKS m' = CHUNKS m @ [\<lparr>ch_pointer = ptr, ch_size = sz, ch_used = 0\<rparr>]" "HUGE_PAGE_SIZE m' = Some sz"
    "\<forall>h. HUGE_PAGE_SIZE m = Some h \<longrightarrow> h = sz"
proof -
  obtain ptr m1 sz m2 where r: "allocate_hugetlb_chunk os m = Inr (ptr, m1)" "huge_page_size os m1 = Inr (sz, m2)"
    "m' = m2\<lparr>CHUNKS := CHUNKS m2 @ [\<lparr>ch_pointer = ptr, ch_size = sz, ch_used = 0\<rparr>]\<rparr>"
    using assms by (auto simp: allocate_next_chunk_def bindR_eq_Inr)
  obtain h m0 net where h: "huge_page_size os m = Inr (h, m0)" "m1 = m0\<lparr>mem_net := net\<rparr>"
    using r(1) by (auto simp: allocate_hugetlb_chunk_def bindR_eq_Inr split: sum.splits)
  note a = huge_page_size_inv [OF h(1)] and b = huge_page_size_inv [OF r(2)]
  show thesis
    by (rule that [of ptr sz]) (use a b in \<open>auto simp: h(2) r(3)\<close>)
qed

text \<open>An allocation from the current chunk, and one from a new chunk.\<close>

lemma dma_alloc_inv:
  assumes "dma_alloc os n al m = Inr (p, m')" and "dma_ok bs m"
  obtains
    (same) c u where "CHUNKS m \<noteq> []" "c = last (CHUNKS m)" "align (ch_used c) al = Inr u" "u + n \<le> ch_size c" "p = ch_pointer c + u"
      "CHUNKS m' = butlast (CHUNKS m) @ [c\<lparr>ch_used := u + n\<rparr>]" "HUGE_PAGE_SIZE m' = Some (ch_size c)" "n \<le> ch_size c"
  | (fresh) c cs where "map ch_pointer cs = map ch_pointer (CHUNKS m)" "map ch_size cs = map ch_size (CHUNKS m)"
      "CHUNKS m' = cs @ [c\<lparr>ch_used := n\<rparr>]" "n \<le> ch_size c" "p = ch_pointer c" "HUGE_PAGE_SIZE m' = Some (ch_size c)"
      "\<forall>d \<in> set (CHUNKS m). ch_size d = ch_size c"
proof -
  obtain sz m1 m2 u m3 where
    r: "huge_page_size os m = Inr (sz, m1)" "n \<le> sz" "(if CHUNKS m1 = [] then allocate_next_chunk os m1 else Inr m1) = Inr m2"
      "CHUNKS m2 \<noteq> []" "align (ch_used (last (CHUNKS m2))) al = Inr u"
      "(if ch_size (last (CHUNKS m2)) < u + n then allocate_next_chunk os (set_used u m2) else Inr (set_used u m2)) = Inr m3"
      "CHUNKS m3 \<noteq> []" "p = ch_pointer (last (CHUNKS m3)) + ch_used (last (CHUNKS m3))"
      "m' = set_used (ch_used (last (CHUNKS m3)) + n) m3"
    using assms(1) by (auto simp: dma_alloc_def last_chunk_inv guard_eq_Inr bindR_eq_Inr Let_def)
  note h = huge_page_size_inv [OF r(1)]
  show thesis
  proof (cases "CHUNKS m = []")
    case True
    with r(3) h(2) have "allocate_next_chunk os m1 = Inr m2" by simp
    then obtain ptr where m2: "CHUNKS m2 = [\<lparr>ch_pointer = ptr, ch_size = sz, ch_used = 0\<rparr>]" "HUGE_PAGE_SIZE m2 = Some sz"
      by (rule allocate_next_chunk_inv) (use h True in auto)
    have u: "u = 0" using r(5) m2 by (auto simp: align_def split: if_splits)
    have m3: "m3 = set_used 0 m2" using r(2,6) m2 by (simp add: u leD)
    show ?thesis
      by (rule fresh [of "[]" "\<lparr>ch_pointer = ptr, ch_size = sz, ch_used = 0\<rparr>"])
        (use True r(2,8,9) m2 in \<open>simp_all add: m3 set_used_def\<close>)
  next
    case False
    then have m2: "m2 = m1" "CHUNKS m2 = CHUNKS m" using r(3) h(2) by simp_all
    have all: "\<forall>c \<in> set (CHUNKS m). ch_size c = sz" using assms(2) h(3) by (auto simp: dma_ok_def)
    then have sz: "ch_size (last (CHUNKS m)) = sz" using False by simp
    show ?thesis
    proof (cases "sz < u + n")
      case True
      then have "allocate_next_chunk os (set_used u m2) = Inr m3" using r(6) m2(2) sz by simp
      then obtain ptr where m3: "CHUNKS m3 = CHUNKS (set_used u m2) @ [\<lparr>ch_pointer = ptr, ch_size = sz, ch_used = 0\<rparr>]"
        "HUGE_PAGE_SIZE m3 = Some sz"
        by (rule allocate_next_chunk_inv) (use h(1) m2(1) in \<open>auto simp: set_used_def\<close>)
      have "map f (CHUNKS (set_used u m2)) = map f (CHUNKS m)" if "\<And>c. f (c\<lparr>ch_used := u\<rparr>) = f c" for f :: "chunk \<Rightarrow> u64"
        using that append_butlast_last_id [OF False] by (simp add: set_used_def m2(2)) (metis list.simps(8,9) map_append)
      with all r(2,8,9) m3 show ?thesis
        by (intro fresh [of "CHUNKS (set_used u m2)" "\<lparr>ch_pointer = ptr, ch_size = sz, ch_used = 0\<rparr>"]) (simp_all add: set_used_def butlast_append)
    next
      case no: False
      then have m3: "m3 = set_used u m1" using r(6) m2 sz by simp
      show ?thesis
        by (rule same [OF False refl])
          (use no r(2,5,8,9) m2 h(1) sz in \<open>simp_all add: m3 set_used_def not_less\<close>)
    qed
  qed
qed


lemma inside_apart:
  "inside b c (ch_size c) \<Longrightarrow> inside b' d (ch_size d) \<Longrightarrow> apart c d \<Longrightarrow> disjoint b' b"
  by (auto simp: inside_def disjoint_def apart_def split: prod.splits)

lemma inside_mono: "inside b c k \<Longrightarrow> k \<le> k' \<Longrightarrow> inside b c k'"
  by (auto simp: inside_def word_le_nat_alt split: prod.splits)

lemma apart_cong:
  "ch_pointer c = ch_pointer c' \<Longrightarrow> ch_size c = ch_size c' \<Longrightarrow> apart c d = apart c' d"
  "ch_pointer c = ch_pointer c' \<Longrightarrow> ch_size c = ch_size c' \<Longrightarrow> apart d c = apart d c'"
  by (simp_all add: apart_def)

text \<open>A block cut from the current chunk.\<close>

lemma cut_block:
  assumes "page_ok c" and "ch_used c \<le> ch_size c" and "unat al dvd unat (ch_size c)" and "align (ch_used c) al = Inr u"
    and "u + n \<le> ch_size c" and "n \<le> ch_size c"
  shows "inside (ch_pointer c + u, n, al) c (u + n)" "aligned (ch_pointer c + u, n, al)" "ch_used c \<le> u"
    and "unat (ch_pointer c + u) = unat (ch_pointer c) + unat u"
proof -
  have pg: "0 < unat (ch_size c)" "3 * unat (ch_size c) < 2 ^ 64" "unat (ch_size c) dvd unat (ch_pointer c)"
    "unat (ch_pointer c) + unat (ch_size c) < 2 ^ 64"
    using assms(1) by (auto simp: page_ok_def unat_gt_0)
  have al: "unat al \<le> unat (ch_size c)" by (rule dvd_imp_le [OF assms(3) pg(1)])
  have us: "unat (ch_used c) \<le> unat (ch_size c)" "unat n \<le> unat (ch_size c)"
    using assms(2,6) by (simp_all add: word_le_nat_alt)
  have "unat (ch_used c) + unat al < 2 ^ 64" using us al pg(2) by linarith
  note a = unat_align [OF assms(4) this]
  have "unat u + unat n < 2 ^ 64" using a(3) us al pg(2) by linarith
  then have un: "unat (u + n) = unat u + unat n" by (simp add: unat_word_ariths)
  then have u: "unat u + unat n \<le> unat (ch_size c)" using assms(5) by (simp add: word_le_nat_alt)
  with pg(4) have pu: "unat (ch_pointer c + u) = unat (ch_pointer c) + unat u" by (simp add: unat_word_ariths)
  show "unat (ch_pointer c + u) = unat (ch_pointer c) + unat u" by (rule pu)
  show "inside (ch_pointer c + u, n, al) c (u + n)" by (simp add: inside_def pu un)
  show "aligned (ch_pointer c + u, n, al)"
    using a(1) dvd_trans [OF assms(3) pg(3)] by (simp add: aligned_def pu)
  show "ch_used c \<le> u" using a(2) by (simp add: word_le_nat_alt)
qed

lemma dma_alloc_same_ok:
  assumes "dma_ok bs m" and "CHUNKS m = cs @ [c]" and "align (ch_used c) al = Inr u" and "u + n \<le> ch_size c" and "n \<le> ch_size c"
    and "CHUNKS m' = cs @ [c\<lparr>ch_used := u + n\<rparr>]" and "HUGE_PAGE_SIZE m' = Some (ch_size c)" and "unat al dvd unat (ch_size c)"
  shows "dma_ok ((ch_pointer c + u, n, al) # bs) m'"
proof -
  have ok: "page_ok c" "ch_used c \<le> ch_size c" "\<forall>d \<in> set cs. ch_size d = ch_size c \<and> page_ok d \<and> apart d c" "sorted_wrt apart cs"
    "\<forall>b \<in> set bs. (\<exists>d \<in> set cs. inside b d (ch_size d)) \<or> inside b c (ch_used c)" "sorted_wrt disjoint bs" "\<forall>b \<in> set bs. aligned b"
    using assms(1,2) by (auto simp: dma_ok_def sorted_wrt_append)
  note cut = cut_block [OF ok(1,2) assms(8,3-5)]
  have "disjoint (ch_pointer c + u, n, al) b" if "b \<in> set bs" for b
  proof (cases "\<exists>d \<in> set cs. inside b d (ch_size d)")
    case True
    then show ?thesis using inside_apart [OF _ inside_mono [OF cut(1) assms(4)]] ok(3) by blast
  next
    case False
    then have "inside b c (ch_used c)" using ok(5) that by blast
    with cut(3,4) show ?thesis by (auto simp: inside_def disjoint_def word_le_nat_alt split: prod.splits)
  qed
  moreover have "inside b c (u + n)" if "inside b c (ch_used c)" for b
  proof -
    have "u \<le> u + n" using cut(1,4) by (auto simp: inside_def word_le_nat_alt)
    with inside_mono [OF that] cut(3) show ?thesis by (meson order_trans)
  qed
  ultimately show ?thesis
    using ok cut assms(4) unfolding dma_ok_def assms(6,7)
    by (auto simp: sorted_wrt_append apart_cong(2) [of "c\<lparr>ch_used := u + n\<rparr>" c] page_ok_def inside_def)
qed


text \<open>A block at the start of a new chunk.\<close>

lemma dma_alloc_fresh_ok:
  assumes "dma_ok bs m" and ptrs: "map ch_pointer cs = map ch_pointer (CHUNKS m)" and szs: "map ch_size cs = map ch_size (CHUNKS m)"
    and "CHUNKS m' = cs @ [c\<lparr>ch_used := n\<rparr>]" and "n \<le> ch_size c" and "HUGE_PAGE_SIZE m' = Some (ch_size c)"
    and "\<forall>d \<in> set (CHUNKS m). ch_size d = ch_size c" and "page_ok c" and "\<forall>d \<in> set (CHUNKS m). apart d c"
    and "unat al dvd unat (ch_size c)"
  shows "dma_ok ((ch_pointer c, n, al) # bs) m'"
proof -
  have len: "length cs = length (CHUNKS m)" using map_eq_imp_length_eq [OF ptrs] .
  have nth: "ch_pointer (cs ! i) = ch_pointer (CHUNKS m ! i)" "ch_size (cs ! i) = ch_size (CHUNKS m ! i)" if "i < length cs" for i
    using that len arg_cong [OF ptrs, of "\<lambda>xs. xs ! i"] arg_cong [OF szs, of "\<lambda>xs. xs ! i"] by simp_all
  have ok: "\<forall>d \<in> set (CHUNKS m). page_ok d" "sorted_wrt apart (CHUNKS m)" "sorted_wrt disjoint bs" "\<forall>b \<in> set bs. aligned b"
    using assms(1) by (simp_all add: dma_ok_def)
  have old: "\<exists>d \<in> set (CHUNKS m). ch_pointer d = ch_pointer d' \<and> ch_size d = ch_size d'" if "d' \<in> set cs" for d'
    using that nth len by (metis in_set_conv_nth)
  have cs: "\<forall>d \<in> set cs. ch_size d = ch_size c \<and> page_ok d \<and> apart d c"
    using old assms(7,9) ok(1) by (fastforce simp: page_ok_def apart_def)
  have pairs: "sorted_wrt apart cs"
    using ok(2) nth len by (auto simp: sorted_wrt_iff_nth_less apart_def)
  have blocks: "\<exists>d \<in> set cs. inside b d (ch_size d)" if "b \<in> set bs" for b
  proof -
    have "(\<exists>d \<in> set (butlast (CHUNKS m)). inside b d (ch_size d)) \<or>
        CHUNKS m \<noteq> [] \<and> inside b (last (CHUNKS m)) (ch_used (last (CHUNKS m)))"
      and "CHUNKS m \<noteq> [] \<Longrightarrow> ch_used (last (CHUNKS m)) \<le> ch_size (last (CHUNKS m))"
      using assms(1) that by (auto simp: dma_ok_def)
    then obtain d where d: "d \<in> set (CHUNKS m)" "inside b d (ch_size d)"
      using inside_mono in_set_butlastD by (metis last_in_set)
    then obtain i where "i < length cs" "CHUNKS m ! i = d" using len by (metis in_set_conv_nth)
    with d(2) nth [of i] show ?thesis by (intro bexI [of _ "cs ! i"]) (simp_all add: inside_def)
  qed
  have here: "inside (ch_pointer c, n, al) c n" by (simp add: inside_def)
  have "disjoint (ch_pointer c, n, al) b" if "b \<in> set bs" for b
    using blocks [OF that] inside_apart [OF _ inside_mono [OF here assms(5)]] cs by blast
  moreover have "aligned (ch_pointer c, n, al)"
    using assms(8,10) by (auto simp: page_ok_def aligned_def intro: dvd_trans)
  ultimately show ?thesis
    using ok cs pairs blocks here assms(5,8) unfolding dma_ok_def assms(4,6)
    by (auto simp: sorted_wrt_append apart_cong(2) [of "c\<lparr>ch_used := n\<rparr>" c] page_ok_def inside_def)
qed

lemma dma_history_ok: "dma_history os bs m \<Longrightarrow> dma_ok bs m"
proof (induction rule: dma_history.induct)
  case (alloc bs m n al p m')
  from alloc.hyps(2) alloc.IH show ?case
  proof (cases rule: dma_alloc_inv)
    case (same c u)
    have chunks: "CHUNKS m = butlast (CHUNKS m) @ [c]" using same(1,2) by simp
    from dma_alloc_same_ok [OF alloc.IH chunks same(3,4,8,6,7)] alloc.hyps(4) same(5,7) show ?thesis by simp
  next
    case (fresh c cs)
    have "length cs = length (CHUNKS m)" using map_eq_imp_length_eq [OF fresh(1)] .
    then have "page_ok (c\<lparr>ch_used := n\<rparr>)" "\<forall>d \<in> set (CHUNKS m). apart d (c\<lparr>ch_used := n\<rparr>)"
      using alloc.hyps(3) by (simp_all add: pages_fresh_def fresh(3))
    then have "page_ok c" "\<forall>d \<in> set (CHUNKS m). apart d c" by (simp_all add: page_ok_def apart_def)
    with dma_alloc_fresh_ok [OF alloc.IH fresh(1-4,6,7)] alloc.hyps(4) fresh(5,6) show ?thesis by simp
  qed
qed (auto simp: dma_ok_def)


section \<open>What the allocator promises\<close>

text \<open>
  C37. The blocks that \<^verbatim>\<open>dma_alloc\<close> ever hands out, whatever their sizes and alignments, do not overlap, are aligned as requested (for
  alignments that divide the page size), and each lies within one huge page, provided that the kernel gives pages that
  are aligned to their size and that no other chunk overlaps (\<open>dma_history\<close>).
\<close>

theorem dma_blocks_disjoint:
  assumes "dma_history os bs m"
  shows "sorted_wrt disjoint bs \<and> (\<forall>b \<in> set bs. aligned b \<and> (\<exists>c \<in> set (CHUNKS m). inside b c (ch_size c)))"
proof -
  have ok: "dma_ok bs m" by (rule dma_history_ok [OF assms])
  have "\<exists>c \<in> set (CHUNKS m). inside b c (ch_size c)" if "b \<in> set bs" for b
  proof (cases "\<exists>c \<in> set (butlast (CHUNKS m)). inside b c (ch_size c)")
    case True
    then show ?thesis by (meson in_set_butlastD)
  next
    case False
    then have "CHUNKS m \<noteq> []" "inside b (last (CHUNKS m)) (ch_used (last (CHUNKS m)))" "ch_used (last (CHUNKS m)) \<le> ch_size (last (CHUNKS m))"
      using ok that by (auto simp: dma_ok_def)
    then show ?thesis using inside_mono last_in_set by blast
  qed
  with ok show ?thesis by (simp add: dma_ok_def)
qed

text \<open>A machine with pages of 2 MB, whose physical addresses are given out one after the other.\<close>

definition demo_mem_os :: "nat mem_os" where
  "demo_mem_os =
     \<lparr>mos_meminfo = (\<lambda>_. Some ''HugePages_Free: 1 Hugepagesize:    2048 kB''), mos_getpid = (\<lambda>_. 1), mos_mkdir = (\<lambda>_ net. net),
      mos_mount = (\<lambda>_ _ net. (0, net)), mos_open = (\<lambda>_ _ net. (3, net)), mos_ftruncate = (\<lambda>_ _ net. (0, net)),
      mos_mmap = (\<lambda>a _ _ net. (case a of Some a \<Rightarrow> a | None \<Rightarrow> 0x7f0000000000, net)), mos_mlock = (\<lambda>_ _ net. (0, net)),
      mos_munmap = (\<lambda>_ _ net. net), mos_unlink = (\<lambda>_ net. net), mos_close = (\<lambda>_ net. net),
      mos_pread = (\<lambda>_ _ net. (8, push_bit 63 1 OR of_nat (512 * net), Suc net))\<rparr>"

definition demo_mem :: "nat mem" where
  "demo_mem = \<lparr>CHUNKS = [], HUGE_PAGE_SIZE = None, mem_net = 2\<rparr>"

definition demo_mem2 :: "u64 \<Rightarrow> nat mem" where
  "demo_mem2 u = \<lparr>CHUNKS = [\<lparr>ch_pointer = 0x500000400000, ch_size = 0x200000, ch_used = u\<rparr>],
     HUGE_PAGE_SIZE = Some 0x200000, mem_net = 3\<rparr>"

lemma demo_page_size: "get_huge_page_size demo_mem_os net = Inr 0x200000"
proof -
  have "find_hugepagesize ''HugePages_Free: 1 Hugepagesize:    2048 kB'' = Some ''2048''"
    by (simp add: match_hugepagesize_def match_lit_def skip_spaces_def digit_def)
  then show ?thesis by (simp add: get_huge_page_size_def demo_mem_os_def parse_usize_def dec_value_def)
qed

lemma demo_page: "allocate_huge_page demo_mem_os sz 2 = Inr (0x500000400000, 3)"
  by (simp add: allocate_huge_page_def ensure_hugetlbfs_def resolve_physical_def demo_mem_os_def cstr_def
      MAP_FAILED_def TAG_def Let_def dec_string_no_nul)

lemma demo_allocs:
  "dma_alloc demo_mem_os 100 64 demo_mem = Inr (0x500000400000, demo_mem2 100)"
  "dma_alloc demo_mem_os 60 64 (demo_mem2 100) = Inr (0x500000400080, demo_mem2 188)"
  by (simp_all add: dma_alloc_def demo_mem_def demo_mem2_def huge_page_size_def demo_page_size demo_page allocate_next_chunk_def
      allocate_hugetlb_chunk_def last_chunk_def set_used_def align_def)


theorem dma_blocks_disjoint_witness:
  "disjoint (0x500000400080, 60, 64) (0x500000400000, 100, 64) \<and> aligned (0x500000400080, 60, 64)"
proof -
  have "dma_history demo_mem_os [] demo_mem" by (rule dma_history.none) (simp_all add: demo_mem_def)
  then have "dma_history demo_mem_os [(0x500000400000, 100, 64)] (demo_mem2 100)"
    by (rule dma_history.alloc [OF _ demo_allocs(1)]) (simp_all add: pages_fresh_def page_ok_def demo_mem_def demo_mem2_def)
  then have "dma_history demo_mem_os [(0x500000400080, 60, 64), (0x500000400000, 100, 64)] (demo_mem2 188)"
    by (rule dma_history.alloc [OF _ demo_allocs(2)]) (simp_all add: pages_fresh_def demo_mem2_def)
  from dma_blocks_disjoint [OF this] show ?thesis by simp
qed

lemma resolve_physical_true:
  assumes "kernel_maps os phys backing" and "resolve_physical os ptr n = Inr (p, n')" and "ptr mod 4096 = 0" and "phys n ptr mod 4096 = 0"
  shows "p = phys n ptr" "phys n' = phys n" "backing n f \<noteq> None \<Longrightarrow> backing n' f = backing n f"
proof -
  obtain fd n1 data n2 where r: "mos_open os False ''/proc/self/pagemap'' n = (fd, n1)" "0 \<le> fd"
    "mos_pread os fd (ptr div 4096 * 8) n1 = (8, data, n2)" "data AND push_bit 63 1 \<noteq> 0"
    "p = (data AND 0xFFFFFFFFFFFFF) * 4096" "n' = mos_close os fd n2"
    using assms(2)
    by (auto simp: resolve_physical_def bindR_eq_Inr guard_eq_Inr cstr_def Let_def case_prod_unfold prod_eq_iff not_less)
  note k = assms(1) [unfolded kernel_maps_def]
  have o: "backing n fd = None" "phys n1 = phys n" "f \<noteq> fd \<Longrightarrow> backing n1 f = backing n f" for f
    using k r(1,2) unfolding fresh_descriptors_def by blast+
  have m: "phys n2 = phys n1" "backing n2 = backing n1" using k r(3) unfolding pagemap_true_def by blast+
  have d: "data AND 0xFFFFFFFFFFFFF = phys n1 ptr div 4096"
    using conjunct2 [OF conjunct2 [OF k]] r(1,3,4) assms(3) unfolding pagemap_true_def by metis
  have c: "phys n' = phys n2" "f \<noteq> fd \<Longrightarrow> backing n' f = backing n2 f" for f
    using k unfolding r(6) fresh_descriptors_def by blast+
  show "p = phys n ptr" using div_mult_mod_eq [of "phys n ptr" 4096] assms(4) by (simp add: r(5) d o(2))
  show "phys n' = phys n" by (simp add: c m o)
  show "backing n' f = backing n f" if "backing n f \<noteq> None" using that o(1,3) c(2) m(2) by metis
qed

text \<open>The steps of \<^verbatim>\<open>allocate_huge_page\<close> when it returns: the page behind the file is mapped twice, first anywhere and then at its tagged address.\<close>

lemma allocate_huge_page_maps:
  assumes "kernel_maps os phys backing" and "allocate_huge_page os sz net = Inr (ptr, net')" and "ptr \<noteq> MAP_FAILED" and "0 < sz"
  obtains page where "ptr = page OR TAG" "unat page + unat sz \<le> 2 ^ 44" "\<And>ofs. ofs < sz \<Longrightarrow> phys net' (ptr + ofs) = page + ofs"
proof -
  obtain tmpfile n0 fd n1 n2 tmp n3 n4 p n5 n6 where r: "mos_open os True tmpfile n0 = (fd, n1)" "0 \<le> fd" "mos_ftruncate os fd sz n1 = (0, n2)"
    "mos_mmap os None sz fd n2 = (tmp, n3)" "tmp \<noteq> MAP_FAILED" "mos_mlock os tmp sz n3 = (0, n4)"
    "resolve_physical os tmp n4 = Inr (p, n5)" "mos_mmap os (Some (p OR TAG)) sz fd n5 = (ptr, n6)"
    "net' = mos_close os fd (mos_munmap os tmp sz (mos_unlink os tmpfile n6))"
    using assms(2)
    by (auto simp: allocate_huge_page_def bindR_eq_Inr guard_eq_Inr Let_def case_prod_unfold prod_eq_iff not_less)
  note k = assms(1) [unfolded kernel_maps_def]
  have "backing n1 fd \<noteq> None" using k r(1,2) unfolding fresh_descriptors_def by blast
  then have "backing n2 fd \<noteq> None" using k r(3) unfolding fresh_descriptors_def by blast
  then obtain page where b: "backing n2 fd = Some page" by blast
  have shared: "backing n3 = backing n2" "page mod 4096 = 0" "unat page + unat sz \<le> 2 ^ 44" "\<And>ofs. ofs < sz \<Longrightarrow> phys n3 (tmp + ofs) = page + ofs"
      "tmp mod 4096 = 0" "unat tmp + unat sz \<le> unat TAG \<or> unat TAG + 2 ^ 44 \<le> unat tmp \<and> unat tmp + unat sz < 2 ^ 64"
    using k r(4,5) b unfolding maps_shared_def by fastforce+
  have l: "phys n4 = phys n3" "backing n4 = backing n3" using k r(6) unfolding maps_shared_def by blast+
  have tmp: "phys n4 tmp = page" using shared(4) [OF assms(4)] l by simp
  have n5: "p = page" "backing n5 fd = Some page"
    using resolve_physical_true(1) [OF assms(1) r(7) shared(5)] resolve_physical_true(3) [OF assms(1) r(7) shared(5), of fd]
      shared(1,2) l(2) b
    by (simp_all add: tmp)
  have fixed: "ptr = page OR TAG" "\<And>ofs. ofs < sz \<Longrightarrow> phys n6 (ptr + ofs) = page + ofs"
    using k r(8) n5 assms(3) unfolding maps_shared_def by fastforce+
  have "phys net' (ptr + ofs) = page + ofs" if o: "ofs < sz" for ofs
  proof -
    have "unat page + unat ofs < 2 ^ 44" using shared(3) o by (simp add: word_less_nat_alt)
    then have a: "unat (ptr + ofs) = unat TAG + unat page + unat ofs" "unat page + unat ofs < 2 ^ 44" using tagged_offset(2) fixed(1) by simp_all
    have "unat (ptr + ofs) < unat tmp \<or> unat tmp + unat sz \<le> unat (ptr + ofs)" using shared(6) a by linarith
    then show ?thesis using k fixed(2) [OF o] unfolding r(9) fresh_descriptors_def maps_shared_def by metis
  qed
  then show ?thesis by (rule that [OF fixed(1) shared(3)])
qed

text \<open>
  C38. A huge page is mapped so that its addresses need no table to be resolved: for every byte of a page that \<^verbatim>\<open>allocate_huge_page\<close> has
  mapped, \<^verbatim>\<open>virtual_to_physical\<close> of its address gives the physical address that the page tables of the kernel have for it when the function
  has returned. An address is refused if and only if one of the two bits of the tag is missing. The kernel is relied on for shared
  mappings, \<^verbatim>\<open>MAP_FIXED\<close>, a true \<^verbatim>\<open>/proc/self/pagemap\<close> and physical memory that ends below 16 TiB (\<open>kernel_maps\<close>).
\<close>

theorem dma_addresses_resolve:
  assumes "kernel_maps os phys backing" and "allocate_huge_page os sz net = Inr (ptr, net')" and "ptr \<noteq> MAP_FAILED"
  shows "(\<forall>ofs. ofs < sz \<longrightarrow> virtual_to_physical (ptr + ofs) = Inr (phys net' (ptr + ofs))) \<and>
    (\<forall>a. virtual_to_physical a = Inl (Assertion_failed ''DMA address tag check failed'') \<longleftrightarrow> \<not> (bit a 44 \<and> bit a 46))"
proof -
  have "virtual_to_physical (ptr + ofs) = Inr (phys net' (ptr + ofs))" if o: "ofs < sz" for ofs
  proof -
    have "0 < sz" using o by (simp add: word_less_nat_alt)
    from allocate_huge_page_maps [OF assms this] obtain page where
      m: "ptr = page OR TAG" "unat page + unat sz \<le> 2 ^ 44" "phys net' (ptr + ofs) = page + ofs"
      using o by metis
    have "unat page + unat ofs < 2 ^ 44" using m(2) o by (simp add: word_less_nat_alt)
    from tagged_offset(1) [OF this] show ?thesis by (simp add: m(3)) (simp add: m(1))
  qed
  with virtual_to_physical_refuses show ?thesis by blast
qed

text \<open>
  A machine with one huge page, at the physical address \<open>0x400000\<close>. Its state is the page table and the number of descriptors that have
  been opened.
\<close>

definition paging_os :: "((u64 \<Rightarrow> u64) \<times> int) mem_os" where
  "paging_os =
     \<lparr>mos_meminfo = (\<lambda>_. None), mos_getpid = (\<lambda>_. 1), mos_mkdir = (\<lambda>_ n. n), mos_mount = (\<lambda>_ _ n. (0, n)),
      mos_open = (\<lambda>_ _ (m, k). (if 0 \<le> k then k else - 1, m, k + 1)), mos_ftruncate = (\<lambda>_ _ n. (0, n)),
      mos_mmap = (\<lambda>a sz _ (m, k).
        let p = (case a of Some a \<Rightarrow> a | None \<Rightarrow> 0x7f0000000000)
        in if sz \<le> 0x200000 then (p, \<lambda>x. if x - p < sz then 0x400000 + (x - p) else m x, k) else (MAP_FAILED, m, k)),
      mos_mlock = (\<lambda>_ _ n. (0, n)), mos_munmap = (\<lambda>p sz (m, k). (\<lambda>x. if p \<le> x \<and> x - p < sz then 0 else m x, k)),
      mos_unlink = (\<lambda>_ n. n), mos_close = (\<lambda>_ n. n),
      mos_pread = (\<lambda>_ ofs (m, k). (8, push_bit 63 1 OR drop_bit 12 (m (ofs div 8 * 4096)), m, k))\<rparr>"

definition paging_backing :: "(u64 \<Rightarrow> u64) \<times> int \<Rightarrow> int \<Rightarrow> u64 option" where
  "paging_backing n fd = (if 0 \<le> fd \<and> fd < snd n then Some 0x400000 else None)"

lemma page_number_back:
  fixes a :: u64
  assumes "a mod 4096 = 0"
  shows "a div 4096 * 8 div 8 * 4096 = a"
proof -
  have "unat (a div 4096) * 8 < 2 ^ 64" using unat_u64_lt [of a] by (simp add: unat_div del: unat_u64_lt)
  then have "a div 4096 * 8 div 8 = a div 4096" by (intro word_div_mult) (simp_all add: word_less_nat_alt)
  then show ?thesis using div_mult_mod_eq [of a 4096] assms by simp
qed

lemma page_number_masked: "(0x8000000000000000 OR drop_bit 12 (x :: u64)) AND 0xFFFFFFFFFFFFF = x div 4096"
proof -
  have "(0x8000000000000000 :: u64) = push_bit 63 1" by simp
  moreover
  have "(push_bit 63 1 OR drop_bit 12 x) AND mask 52 = drop_bit 12 x"
  proof (rule bit_word_eqI)
    fix n assume "n < LENGTH(64)"
    have "bit x (12 + n) \<Longrightarrow> n < 52" using bit_imp_le_length [of x "12 + n"] by simp
    then show "bit ((push_bit 63 1 OR drop_bit 12 x) AND mask 52) n = bit (drop_bit 12 x) n"
      by (auto simp only: bit_and_iff bit_or_iff bit_push_bit_iff bit_1_iff bit_drop_bit_eq bit_mask_iff possible_bit_word comp_apply) simp_all
  qed
  moreover have "drop_bit 12 x = x div 4096" by (simp add: drop_bit_eq_div)
  moreover have "(0xFFFFFFFFFFFFF :: u64) = mask 52" by (simp add: mask_eq_exp_minus_1)
  ultimately show ?thesis by simp
qed

lemma paging_kernel: "kernel_maps paging_os fst paging_backing"
proof -
  have "fresh_descriptors paging_os fst paging_backing"
    by (auto simp: fresh_descriptors_def paging_os_def paging_backing_def split: if_splits)
  moreover have "maps_shared paging_os fst paging_backing"
    by (auto simp: maps_shared_def paging_os_def paging_backing_def TAG_def Let_def word_le_nat_alt word_less_nat_alt unat_sub
        split: if_splits option.splits)
  moreover have "pagemap_true paging_os fst paging_backing"
    by (auto simp: pagemap_true_def paging_os_def paging_backing_def page_number_masked page_number_back)
  ultimately show ?thesis by (simp add: kernel_maps_def)
qed

theorem dma_addresses_resolve_witness:
  "\<exists>net'. allocate_huge_page paging_os 0x200000 (\<lambda>_. 0, 3) = Inr (0x500000400000, net') \<and> fst net' 0x500000400010 = 0x400010 \<and>
    virtual_to_physical 0x500000400010 = Inr (fst net' 0x500000400010)"
proof -
  obtain net' where n: "allocate_huge_page paging_os 0x200000 (\<lambda>_. 0, 3) = Inr (0x500000400000, net')" "fst net' 0x500000400010 = 0x400010"
    by (simp add: allocate_huge_page_def ensure_hugetlbfs_def resolve_physical_def paging_os_def cstr_def MAP_FAILED_def TAG_def Let_def
        dec_string_no_nul)
  have "(0x500000400000 :: u64) \<noteq> MAP_FAILED" "(0x10 :: u64) < 0x200000" by (simp_all add: MAP_FAILED_def)
  with dma_addresses_resolve [OF paging_kernel n(1)] have "virtual_to_physical (0x500000400000 + 0x10) = Inr (fst net' (0x500000400000 + 0x10))"
    by blast
  with n show ?thesis by auto
qed

text \<open>
  The size of a huge page is read from \<^verbatim>\<open>/proc/meminfo\<close>: whatever comes before and after, the number of kilobytes that is printed
  there is the number of kilobytes of a page, for every size below \<open>2\<^sup>5\<^sup>4\<close> kilobytes.
\<close>

theorem huge_page_size_read:
  assumes "mos_meminfo os net = Some (pre @ ''Hugepagesize: '' @ replicate k space @ dec_string n @ '' kB'' @ post)"
    and "no_name_in pre (''Hugepagesize: '' @ replicate k space @ dec_string n @ '' kB'' @ post)" and "n < 2 ^ 54"
  shows "\<exists>sz. get_huge_page_size os net = Inr sz \<and> unat sz = 1024 * n"
proof -
  have "get_huge_page_size os net = Inr (of_nat n * 1024)"
    using find_hugepagesize_skip [OF assms(2) match_hugepagesize_dec] assms(1,3)
    by (simp add: get_huge_page_size_def parse_usize_dec)
  moreover have "unat (of_nat n * 1024 :: u64) = 1024 * n"
    using assms(3) by (simp add: unat_word_ariths unat_of_nat)
  ultimately show ?thesis by blast
qed

theorem huge_page_size_read_witness: "\<exists>sz. get_huge_page_size demo_mem_os 0 = Inr sz \<and> unat sz = 1024 * 2048"
proof (rule huge_page_size_read [of demo_mem_os 0 "''HugePages_Free: 1 ''" "Suc (Suc (Suc 0))" 2048 "[]"])
  have d: "dec_string 2048 = ''2048''"
    by (simp add: dec_string.simps digit_char_def char_of_eq_iff)
  show "mos_meminfo demo_mem_os 0 =
      Some (''HugePages_Free: 1 '' @ ''Hugepagesize: '' @ replicate (Suc (Suc (Suc 0))) space @ dec_string 2048 @ '' kB'' @ [])"
    unfolding d by (simp add: demo_mem_os_def)
  show "no_name_in ''HugePages_Free: 1 '' (''Hugepagesize: '' @ replicate (Suc (Suc (Suc 0))) space @ dec_string 2048 @ '' kB'' @ [])"
    unfolding d by code_simp
qed simp

end
