(* ===== verification/Selftests.thy ===== *)
theory Selftests
  imports Configure Tcp
begin

text \<open>
  The self-tests of the sources, run in the model: what \<^verbatim>\<open>cargo test\<close> checks of the library is proved of the definitions, for every
  outcome of the random number generator where a test draws from it. Tests that only print return what they print.
\<close>

definition ensure :: "bool \<Rightarrow> string \<Rightarrow> unit res" where
  [simp]: "ensure b msg = (if b then Inr () else Inl (Assertion_failed msg))"

section \<open>Checksums\<close>

definition checksum_case :: "u8 list \<Rightarrow> nat \<Rightarrow> unit res" where
  "checksum_case bytes l =
     bindR (checksum_rust bytes l) (\<lambda>n.
     bindR (ipsum bytes l 0) (\<lambda>m. ensure (m = n) ''left == right''))"

definition checksum_cases :: "u8 list list" where
  "checksum_cases =
     [[0xff, 0xff, 0xff, 0xff, 0xff],
      [0, 0, 0, 0, 0],
      [42, 41, 40, 39, 38, 37, 36, 35, 34, 33, 32, 31, 30, 29, 28],
      [],
      [1, 2, 3, 4, 5, 6, 7, 8, 9, 10, 11, 12, 13, 14, 15, 16,
       1, 2, 3, 4, 5, 6, 7, 8, 9, 10, 11, 12, 13, 14, 15, 16,
       1, 2, 3, 4, 5, 6, 7, 8, 9, 10, 11, 12, 13, 14, 15, 16,
       1, 2, 3, 4, 5, 6, 7, 8, 9, 10, 11, 12, 13, 14, 15]]"

definition selftest_checksum :: "unit res" where
  "selftest_checksum = foldR (\<lambda>bytes _. foldR (\<lambda>l _. checksum_case bytes l) [0..<Suc (length bytes)] ()) checksum_cases ()"

definition carry_case :: "nat \<Rightarrow> u8 list" where
  "carry_case l = (foldl (\<lambda>bytes i. bytes[i := 0xff]) (replicate l 0) [0..<l - 1])[l - 1 := 0x01]"

definition selftest_checksum_carry :: "unit res" where
  "selftest_checksum_carry = foldR (\<lambda>l _. checksum_case (carry_case l) l) [2..<64] ()"

definition selftest_checksum_random :: "(nat \<Rightarrow> 'n \<Rightarrow> int \<times> u8 list \<times> 'n) \<Rightarrow> 'n \<Rightarrow> 'n res" where
  "selftest_checksum_random getrandom =
     foldR (\<lambda>i. foldR (\<lambda>l net.
       bindR (random_bytes getrandom (replicate l 0) l net) (\<lambda>(bytes, net).
       bindR (checksum_rust bytes l) (\<lambda>r.
       bindR (ipsum bytes l 0) (\<lambda>n.
       bindR (ensure (r = n) ''mismatch'') (\<lambda>_. Inr net))))) [0..<1501]) [1..<33]"

lemma checksum_case_passes: "l \<le> length bytes \<Longrightarrow> l < 2 ^ 48 \<Longrightarrow> checksum_case bytes l = Inr ()"
  by (simp add: checksum_case_def checksum_rust_correct ipsum_correct)

lemma foldR_all: "(\<And>x. x \<in> set xs \<Longrightarrow> f x s = Inr s) \<Longrightarrow> foldR f xs s = Inr s"
  by (induction xs) simp_all

lemma foldR_returns:
  assumes "\<And>x s. x \<in> set xs \<Longrightarrow> \<exists>s'. f x s = Inr s'"
  shows "\<exists>s'. foldR f xs s = Inr s'"
  using assms
proof (induction xs arbitrary: s)
  case (Cons x xs)
  obtain s1 where "f x s = Inr s1" using Cons.prems [of x s] by auto
  then show ?case using Cons.IH [of s1] Cons.prems by auto
qed simp

lemma length_carry_case [simp]: "length (carry_case l) = l"
proof -
  have "length (foldl (\<lambda>bytes i. bytes[i := v]) bs is) = length bs" for bs :: "u8 list" and v "is"
    by (induction "is" arbitrary: bs) simp_all
  then show ?thesis by (simp add: carry_case_def)
qed

lemma selftest_checksum_passes: "selftest_checksum = Inr ()" "selftest_checksum_carry = Inr ()"
proof -
  have "\<forall>bytes \<in> set checksum_cases. length bytes < 2 ^ 48" by (simp add: checksum_cases_def)
  then show "selftest_checksum = Inr ()"
    unfolding selftest_checksum_def by (intro foldR_all checksum_case_passes) auto
  show "selftest_checksum_carry = Inr ()"
    unfolding selftest_checksum_carry_def by (intro foldR_all checksum_case_passes) auto
qed

lemma selftest_checksum_random_passes:
  assumes "\<And>n net. \<exists>bytes net'. getrandom n net = (int n, bytes, net') \<and> length bytes = n"
  shows "\<exists>net'. selftest_checksum_random getrandom net = Inr net'"
proof -
  have "\<exists>net'. bindR (random_bytes getrandom (replicate l 0) l net) (\<lambda>(bytes, net). bindR (checksum_rust bytes l) (\<lambda>r.
      bindR (ipsum bytes l 0) (\<lambda>n. bindR (ensure (r = n) ''mismatch'') (\<lambda>_. Inr net)))) = Inr net'" if l: "l < 1501" for l net
  proof -
    obtain bytes net' where g: "getrandom l net = (int l, bytes, net')" "length bytes = l" using assms by blast
    then show ?thesis using l by (simp add: random_bytes_def checksum_rust_correct ipsum_correct)
  qed
  then show ?thesis unfolding selftest_checksum_random_def by (intro foldR_returns) auto
qed

section \<open>TCP headers\<close>

definition tcp_case :: "u8 list" where
  "tcp_case =
     [0x52, 0x54, 0x00, 0x02, 0x02, 0x02, 0x52, 0x54, 0x00, 0x01, 0x01, 0x01, 0x08, 0x00, 0x45, 0x00,
      0x00, 0x34, 0x59, 0x1a, 0x40, 0x00, 0x40, 0x06, 0x00, 0x00, 0xc0, 0xa8, 0x14, 0xa9, 0x6b, 0x15,
      0xf0, 0xb4, 0xde, 0x0b, 0x01, 0xbb, 0xe7, 0xdb, 0x57, 0xbc, 0x91, 0xcd, 0x18, 0x32, 0x80, 0x10,
      0x05, 0x9f, 0x00, 0x00, 0x00, 0x00, 0x01, 0x01, 0x08, 0x0a, 0x06, 0x0c, 0x5c, 0xbd, 0xfa, 0x4a,
      0xe1, 0x65]"

definition selftest_tcp :: "unit res" where
  "selftest_tcp =
     (let ip_base = ethernet_size;
          tcp_base = ip_base + ipv4_size;
          payload_base = tcp_base + tcp_size;
          p = tcp_case
      in bindR (from_mem ipv4_size p ip_base) (\<lambda>_.
         let ip = header_ref ipv4_size ipv4_of_bytes p ip_base in
         bindR (from_mem tcp_size p tcp_base) (\<lambda>_.
         let tcp = header_ref tcp_size tcp_of_bytes p tcp_base;
             payload_length = length p - payload_base
         in bindR (pseudo_checksum ip 6 (of_nat (tcp_size + payload_length))) (\<lambda>pseudo.
         bindR (tcp_checksum_compute (drop payload_base p) (of_nat payload_length) (NOT pseudo) tcp) (\<lambda>tcp.
         bindR (ensure (tcp_checksum tcp = htons 0x382a) ''Wrong TCP checksum'') (\<lambda>_.
         bindR (ensure (data_offset tcp = 8) ''tcp.data_offset() == 8'') (\<lambda>_.
         bindR (ensure (tcp_hdr_size tcp = 32) ''tcp.size() == 32'') (\<lambda>_.
         let tcp = set_data_offset 0 tcp in
         bindR (ensure (tcp_hdr_size tcp = 20) ''tcp.size() == 20'') (\<lambda>_.
         bindR (ensure (seq tcp = 3889911740) ''tcp.seq() == 3889911740'') (\<lambda>_.
         let tcp = set_seq 42 tcp in
         ensure (seq tcp = 42) ''tcp.seq() == 42''))))))))))"

lemma tcp_case_pseudo:
  "pseudo_checksum (header_ref ipv4_size ipv4_of_bytes tcp_case 14) 6 32 =
   Inr (rfc1071 [0xc0, 0xa8, 0x14, 0xa9, 0x6b, 0x15, 0xf0, 0xb4, 0, 6, 0, 32] 0)"
proof -
  have "wr16 (htons 32) = [0, 32]" by (simp add: wr16_def htons_def swap_bytes16_def)
  then have "pseudo_header (header_ref ipv4_size ipv4_of_bytes tcp_case 14) 6 32 =
      [0xc0, 0xa8, 0x14, 0xa9, 0x6b, 0x15, 0xf0, 0xb4, 0, 6, 0, 32]"
    by (simp add: pseudo_header_def header_ref_def header_slice_def ipv4_of_bytes_def ipv4_size_def wr32_rd32 tcp_case_def)
  then show ?thesis by (simp add: pseudo_checksum_def ipsum_correct)
qed

lemma tcp_case_checksum:
  "tcp_checksum_compute (drop 54 tcp_case) 12 (NOT (rfc1071 [0xc0, 0xa8, 0x14, 0xa9, 0x6b, 0x15, 0xf0, 0xb4, 0, 6, 0, 32] 0))
     (header_ref tcp_size tcp_of_bytes tcp_case 34) =
   Inr (tcp_set_checksum (htons 0x382a) (header_ref tcp_size tcp_of_bytes tcp_case 34))"
proof -
  let ?h = "header_ref tcp_size tcp_of_bytes tcp_case 34"
  have "tcp_checksum ?h = 0" by (simp add: header_ref_def header_slice_def tcp_of_bytes_def tcp_size_def rd16_def tcp_case_def)
  then have h: "tcp_set_checksum 0 ?h = ?h" by (simp add: tcp_set_checksum_def)
  let ?a = "[0xc0, 0xa8, 0x14, 0xa9, 0x6b, 0x15, 0xf0, 0xb4, 0, 6, 0, 32] :: u8 list"
  let ?b = "take 20 (drop 34 tcp_case)" and ?c = "drop 54 tcp_case"
  have len: "length tcp_case = 66" by (simp add: tcp_case_def)
  then have "tcp_bytes ?h = ?b"
    by (simp add: header_ref_def header_slice_def tcp_bytes_of_bytes tcp_size_def)
  then have head: "ipsum (tcp_bytes ?h) tcp_size v = Inr (rfc1071 ?b v)" for v using len by (simp add: ipsum_correct tcp_size_def)
  have "ipsum ?c 12 (NOT (rfc1071 ?b (NOT (rfc1071 ?a 0)))) = Inr (rfc1071 (?a @ ?b @ ?c) 0)"
    using len by (simp add: ipsum_correct rfc1071_chain)
  also have "rfc1071 (?a @ ?b @ ?c) 0 = 0x382a" by (simp add: tcp_case_def rfc1071_def ones_sum_def)
  finally show ?thesis by (simp only: tcp_checksum_compute_def Let_def h head bindR_simps unat_numeral) simp
qed

lemma selftest_tcp_passes: "selftest_tcp = Inr ()"
proof -
  let ?h = "tcp_set_checksum (htons 0x382a) (header_ref tcp_size tcp_of_bytes tcp_case 34)"
  have "tcp_checksum ?h = htons 0x382a" "data_offset ?h = 8" "tcp_hdr_size ?h = 32" "tcp_hdr_size (set_data_offset 0 ?h) = 20"
    "seq (set_data_offset 0 ?h) = 3889911740" "seq (set_seq 42 (set_data_offset 0 ?h)) = 42"
    by (simp_all add: tcp_set_checksum_def data_offset_def tcp_hdr_size_def set_data_offset_def seq_def set_seq_def
        header_ref_def header_slice_def tcp_of_bytes_def tcp_size_def rd16_def rd32_def tcp_case_def ntohs_def htons_def swap_bytes16_def
        ntohl_def htonl_def swap_bytes32_def)
  moreover have "length tcp_case = 66" by (simp add: tcp_case_def)
  ultimately show ?thesis
    using tcp_case_pseudo tcp_case_checksum
    by (simp add: selftest_tcp_def Let_def from_mem_def ethernet_size_def ipv4_size_def tcp_size_def)
qed

section \<open>Ethernet and IPv4 headers\<close>

definition selftest_ethernet :: "((string \<times> string \<times> u16) \<times> (string \<times> string \<times> u16) \<times> nat) res" where
  "selftest_ethernet =
     (let eth = ethernet_default in
      bindR (pton ''42:42:42:42:42:42'') (\<lambda>src.
      let eth = set_ethertype TYPE_IPV4 (set_src src eth);
          mem = replicate 20 1
      in bindR (from_mem ethernet_size mem 0) (\<lambda>_.
      let eth2 = header_ref ethernet_size ethernet_of_bytes mem 0 in
      bindR (pton ''01:02:03:04:05:06'') (\<lambda>dst.
      let eth2 = set_ethertype TYPE_IPV4 (set_dst dst eth2);
          eth = eth_swap (set_dst (eth_dst eth2) eth)
      in Inr ((ntop (eth_dst eth), ntop (eth_src eth), ethertype eth), (ntop (eth_dst eth2), ntop (eth_src eth2), ethertype eth2),
              ethernet_size)))))"

lemma twenty_ones: "replicate 20 (1 :: u8) = [1, 1, 1, 1, 1, 1, 1, 1, 1, 1, 1, 1, 1, 1, 1, 1, 1, 1, 1, 1]"
  by (simp add: numeral_eq_Suc)

lemma mac_texts:
  "pton ''42:42:42:42:42:42'' = Inr [0x42, 0x42, 0x42, 0x42, 0x42, 0x42]" "pton ''01:02:03:04:05:06'' = Inr [1, 2, 3, 4, 5, 6]"
  "ntop [0x42, 0x42, 0x42, 0x42, 0x42, 0x42] = ''42:42:42:42:42:42''" "ntop [1, 2, 3, 4, 5, 6] = ''1:2:3:4:5:6''"
  "ntop [1, 1, 1, 1, 1, 1] = ''1:1:1:1:1:1''"
  by code_simp+

lemma selftest_ethernet_prints:
  "selftest_ethernet = Inr ((''42:42:42:42:42:42'', ''1:2:3:4:5:6'', 0x800), (''1:2:3:4:5:6'', ''1:1:1:1:1:1'', 0x800), 14)"
proof -
  have "header_ref ethernet_size ethernet_of_bytes (replicate 20 1) 0 =
      \<lparr>eth_dst = [1, 1, 1, 1, 1, 1], eth_src = [1, 1, 1, 1, 1, 1], ethertype_raw = 0x101\<rparr>"
    unfolding twenty_ones by (simp add: header_ref_def header_slice_def ethernet_of_bytes_def ethernet_size_def rd16_def)
  moreover have "copy x y 6 = y" if "length x = 6" "length y = 6" for x y :: "u8 list" using that by (simp add: copy_def)
  moreover have "from_mem ethernet_size (replicate 20 1) 0 = Inr ()" by (simp add: from_mem_def ethernet_size_def)
  moreover have "ntohs (htons TYPE_IPV4) = 0x800" by (simp add: TYPE_IPV4_def)
  ultimately show ?thesis
    by (simp add: selftest_ethernet_def Let_def mac_texts ethernet_default_def set_src_def set_dst_def set_ethertype_def eth_swap_def
        ethertype_def) (simp add: ethernet_size_def)
qed

definition selftest_ipv4 ::
  "((string \<times> string \<times> u8) \<times> (string \<times> string \<times> u8) \<times> nat \<times> (u16 \<times> u16 \<times> u16) \<times> u16 \<times> u8 list \<times> (u16 \<times> bool) \<times> u16) res" where
  "selftest_ipv4 =
     (let ip = ipv4_new in
      bindR (ip_pton ''127.1.2.3'') (\<lambda>src.
      let ip = set_protocol PROTOCOL_UDP (ip_set_src src ip);
          mem = replicate 20 1
      in bindR (from_mem ipv4_size mem 0) (\<lambda>_.
      let ip2 = header_ref ipv4_size ipv4_of_bytes mem 0 in
      bindR (ip_pton ''127.4.5.6'') (\<lambda>dst.
      let ip2 = set_protocol PROTOCOL_TCP (ip_set_dst dst ip2);
          ip = ip_swap (ip_set_dst (ip_dst ip2) ip);
          line1 = (ip_ntop (ip_dst ip), ip_ntop (ip_src ip), ip_protocol ip);
          line2 = (ip_ntop (ip_dst ip2), ip_ntop (ip_src ip2), ip_protocol ip2);
          line4 = (ntohs (ihl_v_tos_raw ip), version ip, ihl ip);
          line5 = total_length ip;
          ip = set_protocol PROTOCOL_TCP (set_ttl 64 (set_flags 2 (set_id 23757 (set_total_length 60 ipv4_new))))
      in bindR (ip_pton ''127.0.0.1'') (\<lambda>src.
      let ip = ip_set_src src ip in
      bindR (ip_pton ''127.0.0.1'') (\<lambda>dst.
      let ip = ip_set_dst dst ip in
      bindR (ip_checksum_compute ip) (\<lambda>ip.
      bindR (checksum_ok ip) (\<lambda>ok.
      bindR (pseudo_checksum ip PROTOCOL_TCP (20 + 20)) (\<lambda>pseudo.
      Inr (line1, line2, ipv4_size, line4, line5, ipv4_bytes ip, (ip_checksum ip, ok), NOT pseudo))))))))))"

lemma ip_texts:
  "ip_pton ''127.1.2.3'' = Inr 0x0302017f" "ip_ntop 0x0302017f = ''127.1.2.3''"
  "ip_pton ''127.4.5.6'' = Inr 0x0605047f" "ip_ntop 0x0605047f = ''127.4.5.6''"
  "ip_pton ''127.0.0.1'' = Inr 0x0100007f" "ip_ntop 0x01010101 = ''1.1.1.1''"
proof -
  note print = ip_ntop_def Let_def octet_def ntohl_def swap_bytes32_def dec_string.simps digit_char_def char_of_def bit_0
  show p: "ip_ntop 0x0302017f = ''127.1.2.3''" "ip_ntop 0x0605047f = ''127.4.5.6''" "ip_ntop 0x01010101 = ''1.1.1.1''"
    by (simp_all add: print)
  have "ip_ntop 0x0100007f = ''127.0.0.1''" by (simp add: print)
  with p show "ip_pton ''127.1.2.3'' = Inr 0x0302017f" "ip_pton ''127.4.5.6'' = Inr 0x0605047f" "ip_pton ''127.0.0.1'' = Inr 0x0100007f"
    using ip_address_roundtrip [of "0x0302017f"] ip_address_roundtrip [of "0x0605047f"] ip_address_roundtrip [of "0x0100007f"] by simp_all
qed

lemma ipv4_new_fields:
  "ipv4_new =
   \<lparr>ihl_v_tos_raw = 0x45, ip_total_length_raw = 0x1400, ip_id_raw = 0, frag_off_raw = 0, ip_ttl = 0, ip_protocol = 0, ip_checksum = 0,
    ip_src = 0, ip_dst = 0\<rparr>"
  by (simp add: ipv4_new_def ipv4_default_def set_version_def set_ihl_def set_total_length_def ipv4_size_def htons_def swap_bytes16_def Let_def)

text \<open>The header of the second half of the test, its checksum \<open>0xdfec\<close> in network byte order.\<close>

abbreviation ip_case :: "u16 \<Rightarrow> ipv4" where
  "ip_case c \<equiv> \<lparr>ihl_v_tos_raw = 0x45, ip_total_length_raw = 0x3c00, ip_id_raw = 0xcd5c, frag_off_raw = 0x40, ip_ttl = 64,
     ip_protocol = 6, ip_checksum = c, ip_src = 0x0100007f, ip_dst = 0x0100007f\<rparr>"

lemma ip_case_bytes: "ipv4_bytes (ip_case c) = [0x45, 0, 0, 60, 0x5c, 0xcd, 0x40, 0, 64, 6] @ wr16 c @ [127, 0, 0, 1, 127, 0, 0, 1]"
  by (simp add: ipv4_bytes_def wr16_def wr32_def)

lemma ip_case_checksums:
  "ip_checksum_compute (ip_case 0) = Inr (ip_case 0xecdf)" "checksum_ok (ip_case 0xecdf) = Inr True"
  "pseudo_checksum (ip_case 0xecdf) 6 40 = Inr (NOT 0xfe30)"
  by (simp_all add: ip_checksum_compute_def checksum_ok_def pseudo_checksum_def pseudo_header_def ip_set_checksum_def ip_case_bytes ipsum_correct
      ipv4_size_def wr16_def wr32_def rfc1071_def ones_sum_def htons_def swap_bytes16_def)

lemma selftest_ipv4_prints:
  "selftest_ipv4 =
   Inr ((''127.1.2.3'', ''127.4.5.6'', 17), (''127.4.5.6'', ''1.1.1.1'', 6), 20, (0x4500, 4, 5), 20,
     [0x45, 0, 0, 60, 0x5c, 0xcd, 0x40, 0, 64, 6, 0xdf, 0xec, 127, 0, 0, 1, 127, 0, 0, 1], (0xecdf, True), 0xfe30)"
proof -
  have mem: "header_ref ipv4_size ipv4_of_bytes (replicate 20 1) 0 =
      \<lparr>ihl_v_tos_raw = 0x101, ip_total_length_raw = 0x101, ip_id_raw = 0x101, frag_off_raw = 0x101, ip_ttl = 1, ip_protocol = 1,
       ip_checksum = 0x101, ip_src = 0x01010101, ip_dst = 0x01010101\<rparr>"
    unfolding twenty_ones by (simp add: header_ref_def header_slice_def ipv4_of_bytes_def ipv4_size_def rd16_def rd32_def)
  have new: "ip_set_dst 0x0100007f (ip_set_src 0x0100007f
      (set_protocol PROTOCOL_TCP (set_ttl 64 (set_flags 2 (set_id 23757 (set_total_length 60 ipv4_new)))))) = ip_case 0"
    by (simp add: ipv4_new_fields set_protocol_def PROTOCOL_TCP_def set_ttl_def set_flags_def set_id_def set_total_length_def ip_set_src_def
        ip_set_dst_def htons_def swap_bytes16_def)
  have wr: "wr16 0xecdf = [0xdf, 0xec]" by (simp add: wr16_def)
  show ?thesis
    unfolding selftest_ipv4_def Let_def ip_texts bindR_simps mem new ip_case_checksums
    by (simp add: from_mem_def ipv4_size_def ip_swap_def ip_set_src_def PROTOCOL_UDP_def ip_set_dst_def set_protocol_def PROTOCOL_TCP_def ip_case_bytes wr ip_case_checksums)
      (simp add: ip_texts ipv4_new_fields version_def ihl_def total_length_def ntohs_def swap_bytes16_def)
qed

section \<open>Packets and links\<close>

definition selftest_alloc :: "world \<Rightarrow> (u16 \<times> u8 \<times> world) res" where
  "selftest_alloc w =
     bindR (allocate w) (\<lambda>(p, w).
     let p = p\<lparr>p_length := 1, p_data := (p_data p)[0 := 42]\<rparr>;
         len = p_length p; byte = p_data p ! 0
     in bindR (free p w) (\<lambda>w. Inr (len, byte, w)))"

definition link_send :: "nat \<Rightarrow> link \<times> world \<Rightarrow> (link \<times> world) res" where
  "link_send n = (\<lambda>(r, w).
     bindR (allocate w) (\<lambda>(p, w). transmit r (p\<lparr>p_length := of_nat n, p_data := (p_data p)[n - 1 := 42]\<rparr>) w))"

definition link_check :: "nat \<times> link \<times> world \<Rightarrow> (nat \<times> link \<times> world) res" where
  "link_check = (\<lambda>(n, r, w).
     let n = n + 1 in
     bindR (receive r) (\<lambda>(p, r).
     bindR (ensure (\<not> (p_length p \<noteq> of_nat n \<or> p_data p ! (n - 1) \<noteq> 42)) ''Corrupt packet!'') (\<lambda>_.
     bindR (free p w) (\<lambda>w. Inr (n, r, w)))))"

definition selftest_link :: "world \<Rightarrow> (nat \<times> link \<times> world) res" where
  "selftest_link w =
     (let r = new_link in
      bindR (ensure (\<not> full r) ''Link should be empty.'') (\<lambda>_.
      bindR (foldR link_send [1..<2001] (r, w)) (\<lambda>(r, w).
      bindR (ensure (\<not> (empty r \<or> \<not> full r)) ''Link should be full.'') (\<lambda>_.
      loopR (\<lambda>(n, r, w). \<not> empty r) link_check (0, r, w)))))"

lemma selftest_alloc_passes:
  assumes "pool_ok w n" and "n < pool_max"
  shows "\<exists>w'. selftest_alloc w = Inr (1, 42, w') \<and> pool_ok w' n"
proof -
  obtain p w1 where p: "allocate w = Inr (p, w1)" "packet_ok p" "pool_ok w1 (Suc n)" using allocate_ok [OF assms] by blast
  let ?p = "p\<lparr>p_length := 1, p_data := (p_data p)[0 := 42]\<rparr>"
  have "packet_ok ?p" "p_data ?p ! 0 = 42" using p(2) by (simp_all add: packet_ok_def PAYLOAD_SIZE_def)
  then show ?thesis using p(1) free_ok [OF p(3), of ?p] freed_pool_ok [OF p(3), of ?p] by (simp add: selftest_alloc_def Let_def)
qed

text \<open>What the test finds on the link: the packets from \<open>n\<close> on, the pool accounting for the rest.\<close>

definition numbered :: "nat \<Rightarrow> nat \<Rightarrow> link \<Rightarrow> world \<Rightarrow> bool" where
  "numbered n k r w \<longleftrightarrow> link_ok r \<and> length (contents r) = k \<and> pool_ok w k \<and>
     (\<forall>i < k. p_length (contents r ! i) = of_nat (Suc (n + i)) \<and> p_data (contents r ! i) ! (n + i) = 42)"

lemma link_send_numbered:
  assumes "numbered 0 (min k LINK_MAX_PACKETS) r w" and "k < PAYLOAD_SIZE"
  shows "\<exists>r' w'. link_send (Suc k) (r, w) = Inr (r', w') \<and> numbered 0 (min (Suc k) LINK_MAX_PACKETS) r' w'"
proof -
  let ?m = "min k LINK_MAX_PACKETS"
  have h: "link_ok r" "length (contents r) = ?m" "pool_ok w ?m"
    and num: "\<And>i. i < ?m \<Longrightarrow> p_length (contents r ! i) = of_nat (Suc i) \<and> p_data (contents r ! i) ! i = 42"
    using assms(1) by (simp_all add: numbered_def)
  have "?m < pool_max" by (simp add: LINK_MAX_PACKETS_def LINK_RING_SIZE_def pool_max_def)
  then obtain p w1 where p: "allocate w = Inr (p, w1)" "packet_ok p" "pool_ok w1 (Suc ?m)" using allocate_ok [OF h(3)] by blast
  let ?p = "p\<lparr>p_length := of_nat (Suc k), p_data := (p_data p)[k := 42]\<rparr>"
  have ok: "packet_ok ?p" "p_data ?p ! k = 42" using p(2) assms(2) by (simp_all add: packet_ok_def)
  from ch.send_ok [OF h(1) ok(1) p(3)] obtain r' w' n' where
    t: "transmit r ?p w1 = Inr (r', w')" "link_ok r'" "contents r' = take LINK_MAX_PACKETS (contents r @ [?p])" "pool_ok w' n'"
      "n' + length (contents r) + 1 = Suc ?m + length (contents r')"
    by blast
  have len: "length (contents r') = min (Suc k) LINK_MAX_PACKETS" by (simp add: t(3) h(2) min_def del: length_contents)
  moreover have "p_length (contents r' ! i) = of_nat (Suc i) \<and> p_data (contents r' ! i) ! i = 42" if "i < min (Suc k) LINK_MAX_PACKETS" for i
  proof (cases "i < ?m")
    case True
    then show ?thesis using num [OF True] h(2) by (simp add: t(3) nth_append del: length_contents)
  next
    case False
    then have "i = k" "k < LINK_MAX_PACKETS" "length (contents r) = k" using that h(2) by (simp_all split: if_splits add: min_def del: length_contents)
    then show ?thesis using ok(2) by (simp add: t(3) nth_append del: length_contents)
  qed
  moreover have "pool_ok w' (min (Suc k) LINK_MAX_PACKETS)" using t(4,5) len h(2) by simp
  ultimately have "numbered 0 (min (Suc k) LINK_MAX_PACKETS) r' w'" using t(2) by (simp add: numbered_def)
  moreover have "link_send (Suc k) (r, w) = Inr (r', w')" using p(1) t(1) by (simp add: link_send_def)
  ultimately show ?thesis by blast
qed

lemma link_sends_numbered:
  assumes "pool_ok w 0" and "k \<le> PAYLOAD_SIZE"
  shows "\<exists>r' w'. foldR link_send [1..<Suc k] (new_link, w) = Inr (r', w') \<and> numbered 0 (min k LINK_MAX_PACKETS) r' w'"
  using assms(2)
proof (induction k)
  case 0
  then show ?case using assms(1) by (simp add: numbered_def new_link_ok del: length_contents)
next
  case (Suc k)
  then obtain r' w' where "foldR link_send [1..<Suc k] (new_link, w) = Inr (r', w')" "numbered 0 (min k LINK_MAX_PACKETS) r' w'" by auto
  with link_send_numbered [of k r' w'] Suc.prems show ?case by (fastforce simp: foldR_append)
qed

lemma link_check_numbered:
  assumes "numbered n (Suc k) r w"
  shows "\<exists>r' w'. link_check (n, r, w) = Inr (Suc n, r', w') \<and> numbered (Suc n) k r' w'"
proof -
  have h: "link_ok r" "length (contents r) = Suc k" "pool_ok w (Suc k)"
    and num: "\<And>i. i < Suc k \<Longrightarrow> p_length (contents r ! i) = of_nat (Suc (n + i)) \<and> p_data (contents r ! i) ! (n + i) = 42"
    using assms by (simp_all add: numbered_def)
  obtain p ps where c: "contents r = p # ps" using h(2) by (cases "contents r") auto
  obtain r' where r: "receive r = Inr (p, r')" "link_ok r'" "contents r' = ps" using ch.recv_first [OF h(1) c] by blast
  have p: "packet_ok p" "p_length p = of_nat (Suc n)" "p_data p ! n = 42"
    using link_okD(5) [OF h(1), of p] num [of 0] by (simp_all add: c)
  have "numbered (Suc n) k r' (freed p w)"
    using r(2) h(2) freed_pool_ok [OF h(3) p(1)] num [of "Suc i" for i] by (auto simp: numbered_def r(3) c simp del: length_contents)
  then show ?thesis using r(1) p free_ok [OF h(3), of p] by (simp add: link_check_def Let_def)
qed

lemma selftest_link_passes:
  assumes "pool_ok w 0"
  shows "\<exists>r w'. selftest_link w = Inr (LINK_MAX_PACKETS, r, w') \<and> pool_ok w' 0"
proof -
  have "(2000 :: nat) \<le> PAYLOAD_SIZE" "min 2000 LINK_MAX_PACKETS = LINK_MAX_PACKETS" "LINK_MAX_PACKETS \<noteq> 0"
    by (simp_all add: PAYLOAD_SIZE_def LINK_MAX_PACKETS_def LINK_RING_SIZE_def)
  with link_sends_numbered [OF assms, of 2000] obtain r w1 where
    s: "foldR link_send [1..<2001] (new_link, w) = Inr (r, w1)" "numbered 0 LINK_MAX_PACKETS r w1"
    by auto
  have full: "\<not> full new_link" "full r" "\<not> empty r"
    using s(2) \<open>LINK_MAX_PACKETS \<noteq> 0\<close> full_iff [OF new_link_ok] full_iff [of r] empty_iff [of r] by (auto simp: numbered_def simp del: length_contents)
  let ?P = "\<lambda>(n, r, w). \<exists>k. n + k = LINK_MAX_PACKETS \<and> numbered n k r w"
  have "\<exists>t. loopR (\<lambda>(n, r, w). \<not> empty r) link_check (0, r, w1) = Inr t \<and> ?P t \<and> \<not> (\<lambda>(n, r, w). \<not> empty r) t"
  proof (rule loopR_rule [where m = "\<lambda>(n, r, w). length (contents r)"])
    show "?P (0, r, w1)" using s(2) by auto
    fix x assume x: "?P x" "(\<lambda>(n, r, w). \<not> empty r) x"
    obtain n r w where xt: "x = (n, r, w)" by (cases x)
    obtain k where k: "n + k = LINK_MAX_PACKETS" "numbered n k r w" using x(1) by (auto simp: xt)
    then have "contents r \<noteq> []" "length (contents r) = k" using x(2) empty_iff [of r] by (auto simp: xt numbered_def)
    then obtain k' where k': "k = Suc k'" by (cases k) auto
    from link_check_numbered [OF k(2) [unfolded k']] obtain r' w' where
      c: "link_check (n, r, w) = Inr (Suc n, r', w')" "numbered (Suc n) k' r' w'" by blast
    moreover have "length (contents r') < length (contents r)" using c(2) k(2) by (simp add: numbered_def k' del: length_contents)
    ultimately show "\<exists>y. link_check x = Inr y \<and> ?P y \<and>
        (case y of (n, r, w) \<Rightarrow> length (contents r)) < (case x of (n, r, w) \<Rightarrow> length (contents r))"
      using k(1) by (intro exI [of _ "(Suc n, r', w')"]) (auto simp: xt k' simp del: length_contents)
  qed
  then obtain n r' w' k where l: "loopR (\<lambda>(n, r, w). \<not> empty r) link_check (0, r, w1) = Inr (n, r', w')" "n + k = LINK_MAX_PACKETS"
    "numbered n k r' w'" "empty r'"
    by auto
  have "k = 0" using l(3,4) empty_iff [of r'] by (auto simp: numbered_def)
  then show ?thesis using s(1) full l by (simp add: selftest_link_def Let_def numbered_def)
qed

section \<open>Configurations\<close>

definition selftest_config :: "conf config res" where
  "selftest_config =
     (let c = new_config;
          c = add_app ''source'' (Source 60) c
      in add_link ''source.output -> sink.input'' c)"

lemma selftest_config_result:
  "selftest_config = Inr \<lparr>cfg_apps = [(''source'', Source 60)], cfg_links = [''source.output -> sink.input'']\<rparr>"
proof -
  have "canonical_link ''source.output -> sink.input'' = Inr ''source.output -> sink.input''" by code_simp
  then show ?thesis by (simp add: selftest_config_def new_config_def add_app_def add_link_def)
qed

end
