(* ===== verification/Spec2Isabelle.thy ===== *)
theory Spec2Isabelle
  imports Isolation Pool_Bound Pacing Memory Selftests
begin

text \<open>
  \<^bold>\<open>A verification of \<^verbatim>\<open>rush\<close>, the packet processing engine of synthetic-network.\<close>

  The program (\<^verbatim>\<open>src/rush/src\<close>) sits between two network interfaces and gives the traffic between them the
  qualities that a specification asks for: rate, loss, latency, jitter, for all traffic and for single flows. It is a
  network of small apps. An app takes packets from its input links and puts packets on its output links; the engine
  calls the apps in turn, breath by breath, and can replace one network by another while it runs. Packets come from a
  freelist and must go back to it.

  \<^bold>\<open>Theories and sources.\<close> A theory imports those that its source calls.

  \<^item> \<open>Prelude\<close>: machine integers, panics as values of \<open>panic\<close>, results \<open>'a res\<close>, loops (\<open>loopR\<close>, \<open>foldR\<close>) and facts on lists and words.
  \<^item> \<open>Lib\<close> (\<^verbatim>\<open>lib.rs\<close>): slices, alignment, byte order, numbers as strings, random bytes.
  \<^item> \<open>Checksum\<close> (\<^verbatim>\<open>checksum.rs\<close>): the reference routine and the two assembly routines, instruction by instruction, with the carry flag.
  \<^item> \<open>Packet\<close> (\<^verbatim>\<open>packet.rs\<close>): packets, the freelist, preallocation, the counters of freed packets. The static variables are the record \<open>world\<close>.
  \<^item> \<open>Link\<close> (\<^verbatim>\<open>link.rs\<close>): the ring buffer; the locale \<open>channel\<close> is what apps rely on.
  \<^item> \<open>Header\<close>, \<open>Checksummed\<close>, \<open>Ethernet\<close>, \<open>Ipv4\<close>, \<open>Tcp\<close>, \<open>Udp\<close> (\<^verbatim>\<open>header.rs\<close>, \<^verbatim>\<open>ethernet.rs\<close>, \<^verbatim>\<open>ipv4.rs\<close>, \<^verbatim>\<open>tcp.rs\<close>, \<^verbatim>\<open>udp.rs\<close>):
    headers as structs laid over the bytes of a packet; the locale \<open>packed_struct\<close> is interpreted for each of them.
  \<^item> \<open>App\<close> (\<^verbatim>\<open>AppState\<close> of \<^verbatim>\<open>engine.rs\<close>): ports, shared links and runtime borrow checks; the locale \<open>packet_app\<close> for apps that handle one
    packet at a time.
  \<^item> \<open>Offload\<close>, \<open>Segmentation\<close> (\<^verbatim>\<open>offload.rs\<close>), \<open>Qos\<close>, \<open>Jitter\<close> (\<^verbatim>\<open>qos.rs\<close>), \<open>Flow\<close> (\<^verbatim>\<open>flow.rs\<close>), \<open>Basic_Apps\<close> (\<^verbatim>\<open>basic_apps.rs\<close>), \<open>Rawsocket\<close>
    (\<^verbatim>\<open>rawsocket_app.rs\<close>): the apps.
  \<^item> \<open>Config\<close> (\<^verbatim>\<open>config.rs\<close>): configurations and link specifications.
  \<^item> \<open>Engine\<close>, \<open>Breathe_Order\<close>, \<open>Configure\<close>, \<open>Conservation\<close>, \<open>Reachable\<close>, \<open>Pacing\<close> (\<^verbatim>\<open>engine.rs\<close>): the definitions are in \<open>Engine\<close>, with
    the records \<open>engine\<close> for \<^verbatim>\<open>EngineState\<close> and \<open>sys\<close> for everything else; the other theories prove what they do (\<open>Pacing\<close>: the pauses between breaths, over
    runs of the breathe loop).
  \<^item> \<open>Callbacks_Return\<close>, \<open>Breath\<close>, \<open>Configured\<close>, \<open>Operating\<close>, \<open>Isolation\<close>, \<open>Pool_Bound\<close> (\<^verbatim>\<open>engine.rs\<close>, \<^verbatim>\<open>synthetic_network.rs\<close> and all apps): total
    correctness of the callbacks, of a breath, and of the program in operation, what it sends, and how many packets it can hold.
  \<^item> \<open>Memory\<close> (\<^verbatim>\<open>memory.rs\<close>): memory from huge pages.
  \<^item> \<open>Selftests\<close> (the \<^verbatim>\<open>selftest\<close> modules of \<^verbatim>\<open>checksum.rs\<close>, \<^verbatim>\<open>tcp.rs\<close>, \<^verbatim>\<open>ethernet.rs\<close>, \<^verbatim>\<open>ipv4.rs\<close>, \<^verbatim>\<open>link.rs\<close>, \<^verbatim>\<open>packet.rs\<close> and \<^verbatim>\<open>config.rs\<close>): the unit tests of the
    library, which pass on the definitions.
  \<^item> \<open>Synthetic_Network\<close>, \<open>Network_Wiring\<close> (\<^verbatim>\<open>synthetic_network.rs\<close>): the program: specifications, their translation to configurations, and
    one turn of the loop of \<^verbatim>\<open>main\<close>.

  \<^bold>\<open>What is shown.\<close>

  \<^item> \<^emph>\<open>Data structures.\<close> A link is a bounded queue over every history of its operations; the freelist neither loses nor duplicates packets, and is
    exhausted at 511,000; the checksum routines compute the checksum of RFC 1071 and agree with each other and with the reference.
  \<^item> \<^emph>\<open>Apps.\<close> What each callback forwards, in which order, and when: segmentation of TCP packets into valid segments, completion of
    checksums, routing by flow, loss by draw, the token bucket and its bound on what reaches the output over all times and traffic, delay queues as queues of time-stamped packets,
    jitter that keeps the order unless asked otherwise.
  \<^item> \<^emph>\<open>Engine.\<close> The breathe order runs exactly the apps that packets can reach; \<^verbatim>\<open>configure\<close> makes tables, ports and order match the new
    configuration and keeps the state of what stays; every callback of every app conserves packets (locales \<open>conserving\<close> and \<open>app_callback\<close>),
    so in every reachable state all packets in use are on links or in queues (rule induction over \<open>reachable\<close>).
  \<^item> \<^emph>\<open>Program.\<close> The translation of a specification refines an abstract network of nodes and wires; from any running network it is applied
    without a panic and without a leak, all of its apps are scheduled, and a turn of the loop of \<^verbatim>\<open>main\<close> is a run of the engine from exactly the network that the file
    asks for, which stays within the reachable states and panics only where that run does.
  \<^item> \<^emph>\<open>Progress.\<close> Every callback of every app returns (locale \<open>returning\<close>, which extends \<open>app_callback\<close>), hence every breath of a network whose
    ports are linked (rule induction over \<open>operating\<close>, with what reconfiguration keeps of all apps as the locale \<open>app_property\<close>): the program panics only on a broken
    socket, a runt frame, a delay queue that is nearly full, or a pool with less than 6142 free packets. These bounds come from the code: one push may put two entries per packet of
    a full link into a delay queue, an interface may read a link full of frames, and TSD may fill its output beyond the packets it frees. The relation \<open>operating\<close> has
    only breaths made at ease, that is with this room; \<open>reachable\<close> and \<open>running\<close> have every breath that returns. What links
    and queues can hold together is bounded in all of the latter (\<open>Pool_Bound\<close>, locale \<open>queue_keeping\<close>): without flows the pool always suffices, with one flow the bound is beyond it.
  \<^item> \<^emph>\<open>Frames.\<close> Every link has a type, a predicate on the frames it carries, given by the app that it leaves (\<open>name_type\<close>), and every callback keeps to it
    (\<open>flows_typed\<close>). So an interface writes only frames that the other one has read, segmented and with checksums filled in, in every state that the
    program gets into (\<open>Isolation\<close>).
  \<^item> \<^emph>\<open>Errors.\<close> Where the code panics or reads out of bounds: a delay queue with one free slot, packets shorter than their headers, an app that a link to
    itself starves, MAC addresses with small bytes.

  \<^bold>\<open>Modelling decisions.\<close> Release builds wrap around on integer overflow, and so do the words here. A loop that does not end has the value
  \<open>Inl Diverged\<close> (no fuel is used anywhere), so a theorem that gives an \<open>Inr\<close> also says that the loops end. Shared links
  (\<^verbatim>\<open>Rc<RefCell<Link>>\<close>) are numbers into a store, so that aliasing and double borrows are visible. Hash maps are association
  lists in the order of their iteration, and where that order can matter it is a parameter (\<open>hash_order\<close>). Instants are
  natural numbers of nanoseconds. Floating point numbers are exact rationals with \<open>NaN\<close> and infinity, rounded where the source multiplies; there is no negative zero,
  and configurations are compared by structure, where the source compares how they print. Lengths of slices are natural numbers, and a length beyond the slice is an
  access out of bounds (the assembly routines compare lengths as signed numbers, which differs from \<open>2\<^sup>6\<^sup>3\<close> on only). A socket that cannot be bound is not closed
  again before the panic.

  \<^bold>\<open>Parameters.\<close> System calls are records of functions on the state of the operating system (\<open>os\<close> in \<open>Rawsocket\<close>, \<open>mem_os\<close> in
  \<open>Memory\<close>); what is relied on is stated where it is used: \<open>os_works\<close>, \<open>socket_works\<close>, \<open>reads_fit\<close>, \<open>opens\<close>, \<open>pages_fresh\<close> (with alignments that divide the page size, \<open>dma_history\<close>),
  \<open>kernel_maps\<close>. The random number generator is the
  sequence of its draws, the clock the sequence of its readings, the JSON file a function from paths to specifications or errors, and the flag of the
  signal handler the predicate \<open>stop\<close>.

  \<^bold>\<open>Not modelled.\<close> The benchmarks, and the unit tests that measure times or rates or define apps of their own; the rates that \<^verbatim>\<open>report_load\<close> prints in floating point; JSON syntax and signal registration; the
  dead branch of \<^verbatim>\<open>preallocate_step\<close> that would allocate packets by \<^verbatim>\<open>dma_alloc\<close>; big-endian targets; names beyond ASCII; \<^verbatim>\<open>Drop for
  Packet\<close>, which panics when a packet is dropped without being freed, as by conservation none is; the web frontend and the scripts around the engine.
\<close>

section \<open>The program as a whole\<close>

text \<open>
  C5. From any running network, a specification that passes \<^verbatim>\<open>sanitize_labels\<close> is put into effect: if the sockets and the profile
  files can be opened, translating and applying it panics nowhere and leaks no packet, and from then on every
  app of the new network runs in every breath: its interfaces and delay queues are pulled from, and all of its apps
  push, each once.
\<close>

theorem every_app_breathes:
  assumes "engine_ok e" and "accounted e (sys_io s)" and "sanitize_labels spec = Inr ()" and "losses_are_numbers spec"
    and "ifname_ok outer" and "ifname_ok inner" and "outer \<noteq> inner" and "opens os outer inner ingress egress" and "hash_order ho"
  shows "\<exists>c e' s'. configure_synthetic_network outer inner ingress egress spec new_config = Inr c \<and>
    configure os ho c (e, s) = Inr (e', s') \<and> engine_ok e' \<and> accounted e' (sys_io s') \<and>
    distinct (inhale e') \<and> distinct (exhale e') \<and>
    set (inhale e') = node_name outer inner ` {n \<in> set (network_nodes (map sf_label (sn_flows spec))). pull_node n} \<and>
    set (exhale e') = node_name outer inner ` set (network_nodes (map sf_label (sn_flows spec)))"
proof -
  have labels: "labels_ok (map sf_label (sn_flows spec))" using assms(3) sanitize_labels_iff by simp
  obtain c where c: "configure_synthetic_network outer inner ingress egress spec new_config = Inr c"
      "net_rep outer inner (profiles ingress egress) spec
        (network_nodes (map sf_label (sn_flows spec)), network_wires (map sf_label (sn_flows spec))) c"
      "config_ok c" "can_start os c"
    by (rule realisable [OF assms(3-8)])
  from configure_ok [OF assms(1,2) c(3,4) assms(9)] obtain e' s' where
    e': "configure os ho c (e, s) = Inr (e', s')" "engine_ok e'" "accounted e' (sys_io s')"
      "fst ` set (link_table e') = set (cfg_links c)"
      "\<And>n. map_option as_conf (map_of (app_table e') n) = map_of (cfg_apps c) n" "compute_breathe_order ho e' = Inr e'"
    by blast
  have "runs_network outer inner (map sf_label (sn_flows spec)) e'"
    by (rule configured_runs_network [OF assms(5-7) c(2) e'(4,5,3)])
  from runs_network_order [OF assms(5-7) labels this _ assms(9) _ e'(6)] e'(2) c(1) e' show ?thesis
    by (auto simp: engine_ok_def tables_ok_def)
qed

theorem every_app_breathes_witness:
  "\<exists>c e' s'. configure_synthetic_network ''eth0'' ''eth1'' ''in'' ''out'' usage_spec new_config = Inr c \<and>
    configure demo_os (\<lambda>_ xs. rev xs) c (initial_engine, demo_sys) = Inr (e', s') \<and>
    ''eth0'' \<in> set (inhale e') \<and> ''rate_ingress_http'' \<in> set (exhale e')"
proof -
  have h: "hash_order (\<lambda>_ xs. rev xs)" by (simp add: hash_order_def)
  have nodes: "Interface Outer \<in> {n \<in> set (network_nodes (map sf_label (sn_flows usage_spec))). pull_node n}"
    "Rate_node (Branch Src (Some ''http'')) \<in> set (network_nodes (map sf_label (sn_flows usage_spec)))"
    by (simp_all add: usage_spec_def network_nodes_def path_nodes_def branch_nodes_def pull_node_def)
  from every_app_breathes [OF demo_start(1,2) usage_spec_ok(1,4,2,3) _ demo_opens h]
    imageI [OF nodes(1), of "node_name ''eth0'' ''eth1''"] imageI [OF nodes(2), of "node_name ''eth0'' ''eth1''"]
  show ?thesis by auto
qed


text \<open>
  C4. One turn of the endless loop of \<^verbatim>\<open>main\<close>, on a specification file of any content. A file that cannot be read or whose labels are
  refused leaves the network as it is; any other is translated and applied to the running network, and neither can panic. Then the
  engine runs from exactly that network until the signal: the turn panics if and only if this run of the engine does, with the same panic; otherwise it ends in the state
  that the engine leaves, with the load report appended, and that is again a state that configurations and breaths lead to, in which all packets are accounted for.
  The loader of the file gives numbers as loss ratios, as JSON has no others; the sockets and profile files can be opened.
\<close>

theorem main_turn_reachable:
  assumes "reachable os (e, s)" and "reads_fit os" and "\<And>path spec. load path = Inr spec \<Longrightarrow> losses_are_numbers spec"
    and "ifname_ok outer" and "ifname_ok inner" and "outer \<noteq> inner" and "opens os outer inner ingress egress" and "hash_order ho"
    and "\<And>s. sys_io (snd (stop s)) = sys_io s"
  shows "\<exists>e1 s1.
    (\<forall>spec. load specpath = Inr spec \<and> sanitize_labels spec = Inr () \<longrightarrow>
      (\<exists>c. configure_synthetic_network outer inner ingress egress spec new_config = Inr c \<and> configure os ho c (e, s) = Inr (e1, s1))) \<and>
    ((\<nexists>spec. load specpath = Inr spec \<and> sanitize_labels spec = Inr ()) \<longrightarrow> (e1, s1) = (e, s)) \<and> reachable os (e1, s1) \<and>
    (case engine_main os (Some (default_options\<lparr>opt_done := Some stop\<rparr>)) (l, e1, s1) of
      Inl p \<Rightarrow> main_turn os ho load stop (outer, inner, specpath, ingress, egress) (l, e, s) = Inl p
    | Inr (out, l2, e2, s2) \<Rightarrow> (case report_load l2 s2 of (line, l3, s3) \<Rightarrow>
        main_turn os ho load stop (outer, inner, specpath, ingress, egress) (l, e, s) =
          Inr (out @ (case line of None \<Rightarrow> [] | Some x \<Rightarrow> [Load x]), l3, e2, s3) \<and>
        reachable os (e2, s3) \<and> accounted e2 (sys_io s3)))"
proof -
  let ?conf = "case try_read_qos_spec load specpath of
        None \<Rightarrow> Inr (e, s)
      | Some spec \<Rightarrow>
          bindR (configure_synthetic_network outer inner ingress egress spec new_config) (\<lambda>c. configure os ho c (e, s))"
  have usable: "try_read_qos_spec load specpath = Some spec \<longleftrightarrow> load specpath = Inr spec \<and> sanitize_labels spec = Inr ()" for spec
    by (auto simp: try_read_qos_spec_def read_qos_spec_def split: sum.splits)
  obtain e1 s1 where 1: "?conf = Inr (e1, s1)" "reachable os (e1, s1)"
  proof (cases "try_read_qos_spec load specpath")
    case None
    with that assms(1) show ?thesis by simp
  next
    case (Some spec)
    note spec = Some [unfolded usable]
    have ok: "engine_ok e" "accounted e (sys_io s)"
      using reachable_sound [OF assms(1,2)] by (simp_all add: sound_def)
    obtain c where c: "configure_synthetic_network outer inner ingress egress spec new_config = Inr c" "config_ok c" "can_start os c"
      by (rule realisable [OF conjunct2 [OF spec] assms(3) [OF conjunct1 [OF spec]] assms(4-7)])
    obtain e1 s1 where r: "configure os ho c (e, s) = Inr (e1, s1)"
      using configure_ok [OF ok c(2,3) assms(8)] by blast
    have "reachable os (e1, s1)" by (rule reachable.configured [OF assms(1) c(2,3) assms(8) r])
    then show ?thesis by (rule that [rotated]) (simp add: Some c(1) r)
  qed
  have applied: "\<exists>c. configure_synthetic_network outer inner ingress egress spec new_config = Inr c \<and> configure os ho c (e, s) = Inr (e1, s1)"
    if "load specpath = Inr spec \<and> sanitize_labels spec = Inr ()" for spec
    using 1(1) that [folded usable] by (auto simp: bindR_eq_Inr)
  have kept: "(e1, s1) = (e, s)" if "\<nexists>spec. load specpath = Inr spec \<and> sanitize_labels spec = Inr ()"
  proof -
    have "try_read_qos_spec load specpath = None" using that usable by (cases "try_read_qos_spec load specpath") auto
    with 1(1) show ?thesis by simp
  qed
  let ?opts = "default_options\<lparr>opt_done := Some stop\<rparr>"
  have turn: "main_turn os ho load stop (outer, inner, specpath, ingress, egress) (l, e, s) =
      bindR (engine_main os (Some ?opts) (l, e1, s1)) (\<lambda>(out, l, e, s).
        let (line, l, s) = report_load l s in Inr (out @ (case line of None \<Rightarrow> [] | Some x \<Rightarrow> [Load x]), l, e, s))"
    by (simp add: main_turn_def 1(1))
  have ends: "reachable os (e2, s3) \<and> accounted e2 (sys_io s3)"
    if h: "engine_main os (Some ?opts) (l, e1, s1) = Inr (out, l2, e2, s2)" "report_load l2 s2 = (line, l3, s3)" for out l2 e2 s2 line l3 s3
  proof -
    have "reachable os (e2, s2)" by (rule engine_main_reachable [OF h(1) 1(2)]) (use assms(9) in simp)
    then have "reachable os (e2, s3)" by (rule reachable.outside) (rule report_load_io [OF h(2)])
    with reachable_sound [OF this assms(2)] show ?thesis by (simp add: sound_def)
  qed
  show ?thesis
    by (intro exI [of _ e1] exI [of _ s1] conjI allI impI; (rule applied kept 1(2); assumption)?)
      (auto simp: turn ends split: sum.split prod.split)
qed

definition demo_load :: load_state where
  "demo_load = \<lparr>LASTLOADREPORT = None, REPORTEDFREES = 0, REPORTEDFREEBITS = 0, REPORTEDFREEBYTES = 0, REPORTEDBREATHS = 0\<rparr>"

text \<open>Interfaces on which a frame of 60 zeros is always waiting. The first turn of the program applies the specification of the example and returns.\<close>

definition busy_os :: "(u8 list list \<times> u8 list list) os" where
  "busy_os = demo_os\<lparr>os_select_read := \<lambda>_ net. (1, 0, net), os_read := \<lambda>_ n net. (int (min n 60), replicate (min n 60) 0, net)\<rparr>"

lemma busy_os_ok:
  "opens busy_os ''eth0'' ''eth1'' ''in'' ''out''" "reads_fit busy_os" "socket_works busy_os (\<lambda>_. True) whole_frame W sock"
  using zero_frame_waits
  by (auto simp: opens_def open_raw_socket_def open_flowtop_map_def cstr_def busy_os_def demo_os_def Let_def reads_fit_def socket_works_def
      whole_inbox_def PAYLOAD_SIZE_def min_def)

lemma busy_breath:
  assumes "configure_synthetic_network ''eth0'' ''eth1'' ''in'' ''out'' usage_spec new_config = Inr c"
    and "configure busy_os (\<lambda>_ xs. xs) c (initial_engine, demo_sys) = Inr (e, s)"
  shows "\<exists>e' s'. breathe busy_os (e, s) = Inr (e', s')"
proof -
  have links: "\<forall>h. io_links (sys_io demo_sys) h = new_link" "pool_ok (io_world (sys_io demo_sys)) 0"
    by (simp_all add: demo_sys_def initial_pool_ok)
  have names: "''eth0'' \<noteq> ''eth1''" by simp
  obtain c' e' s' where n: "configure_synthetic_network ''eth0'' ''eth1'' ''in'' ''out'' usage_spec new_config = Inr c'"
    "configure busy_os (\<lambda>_ xs. xs) c' (initial_engine, demo_sys) = Inr (e', s')"
    "\<And>net. operating busy_os (\<lambda>_. whole_frame) ''eth0'' ''eth1'' ''in'' ''out'' (e', s'\<lparr>sys_net := net\<rparr>)"
    "\<And>net. at_ease busy_os (\<lambda>_. True) (\<lambda>_. whole_frame) ''eth0'' ''eth1'' e' (s'\<lparr>sys_net := net\<rparr>)"
    by (rule new_network_at_ease [OF usage_spec_ok(2,3) names busy_os_ok(1) usage_spec_ok(1,4) demo_start(5) links,
          of "\<lambda>_. True" "\<lambda>_. whole_frame"]) (use busy_os_ok(3) that in blast)+
  have eq: "e' = e" "s' = s" using n(1,2) assms by simp_all
  have ok: "operating busy_os (\<lambda>_. whole_frame) ''eth0'' ''eth1'' ''in'' ''out'' (e, s)"
    "at_ease busy_os (\<lambda>_. True) (\<lambda>_. whole_frame) ''eth0'' ''eth1'' e s"
    using n(3,4) [of "sys_net s"] by (simp_all add: eq)
  have "operable (\<lambda>_. whole_frame) ''eth0'' ''eth1'' (profiles ''in'' ''out'') e s"
    using operating_operable [OF ok(1) usage_spec_ok(2,3) names busy_os_ok(1,2)] by simp
  from breathe_operable [OF usage_spec_ok(2,3) names busy_os_ok(2) this ok(2)] show ?thesis by blast
qed

theorem main_turn_reachable_witness:
  "\<exists>out l' e' s'. main_turn busy_os (\<lambda>_ xs. xs) (\<lambda>_. Inr usage_spec) (\<lambda>s. (True, s)) (''eth0'', ''eth1'', ''spec'', ''in'', ''out'')
      (demo_load, initial_engine, demo_sys) = Inr (out, l', e', s') \<and> reachable busy_os (e', s') \<and> accounted e' (sys_io s')"
proof -
  let ?opts = "default_options\<lparr>opt_done := Some (\<lambda>s. (True, s))\<rparr>"
  have "reachable busy_os (initial_engine, demo_sys)"
    by (rule reachable.start) (simp add: io_ok_def demo_sys_def new_link_ok initial_pool_ok)
  from main_turn_reachable [OF this busy_os_ok(2), of "\<lambda>_. Inr usage_spec" "''eth0''" "''eth1''" "''in''" "''out''" "\<lambda>_ xs. xs"
      "\<lambda>s. (True, s)" "''spec''" demo_load] usage_spec_ok busy_os_ok(1) demo_start(5)
  obtain c e1 s1 where t: "configure_synthetic_network ''eth0'' ''eth1'' ''in'' ''out'' usage_spec new_config = Inr c"
    "configure busy_os (\<lambda>_ xs. xs) c (initial_engine, demo_sys) = Inr (e1, s1)"
    "case engine_main busy_os (Some ?opts) (demo_load, e1, s1) of
      Inl p \<Rightarrow> main_turn busy_os (\<lambda>_ xs. xs) (\<lambda>_. Inr usage_spec) (\<lambda>s. (True, s)) (''eth0'', ''eth1'', ''spec'', ''in'', ''out'')
          (demo_load, initial_engine, demo_sys) = Inl p
    | Inr (out, l2, e2, s2) \<Rightarrow> (case report_load l2 s2 of (line, l3, s3) \<Rightarrow>
        main_turn busy_os (\<lambda>_ xs. xs) (\<lambda>_. Inr usage_spec) (\<lambda>s. (True, s)) (''eth0'', ''eth1'', ''spec'', ''in'', ''out'')
          (demo_load, initial_engine, demo_sys) = Inr (out @ (case line of None \<Rightarrow> [] | Some x \<Rightarrow> [Load x]), l3, e2, s3) \<and>
        reachable busy_os (e2, s3) \<and> accounted e2 (sys_io s3))"
    by auto
  obtain e2 s2 where "breathe busy_os (e1, s1) = Inr (e2, s2)" using busy_breath [OF t(1,2)] by blast
  then have "engine_main busy_os (Some ?opts) (demo_load, e1, s1) = Inr ([], demo_load, e2, s2\<lparr>MONOTONIC_NOW := None\<rparr>)"
    by (simp add: engine_main_def breathe_until_def reports_def default_options_def)
  with t(3) show ?thesis by (cases "report_load demo_load (s2\<lparr>MONOTONIC_NOW := None\<rparr>)") simp
qed

end
